theory Spec2Isabelle
  imports Complex_Main "HOL-Library.Word" "HOL-Library.Monad_Syntax"
begin

unbundle bit_operations_syntax

section \<open>Floating-point values\<close>

text \<open>
  The C types \<^verbatim>\<open>float\<close> and \<^verbatim>\<open>double\<close> are modelled by one type: a finite value is an
  exact real number, and the IEEE special values are kept, so that every division of the
  source has the result the machine gives it: \<^verbatim>\<open>x / 0\<close> is an infinity (or NaN for
  \<^verbatim>\<open>0 / 0\<close>), never a number. Rounding, overflow of finite arithmetic to an infinity and
  the sign of zero are not modelled: a zero is the positive zero.
\<close>

datatype dbl = Fin real | PInf | NInf | NaN

instantiation dbl :: "{zero, one, plus, uminus, minus, times, inverse}"
begin

definition zero_dbl :: dbl where
  "zero_dbl = Fin 0"

definition one_dbl :: dbl where
  "one_dbl = Fin 1"

fun plus_dbl :: "dbl \<Rightarrow> dbl \<Rightarrow> dbl" where
  "plus_dbl (Fin x) (Fin y) = Fin (x + y)"
| "plus_dbl NaN _ = NaN"
| "plus_dbl _ NaN = NaN"
| "plus_dbl PInf NInf = NaN"
| "plus_dbl NInf PInf = NaN"
| "plus_dbl PInf _ = PInf"
| "plus_dbl _ PInf = PInf"
| "plus_dbl NInf _ = NInf"
| "plus_dbl _ NInf = NInf"

fun uminus_dbl :: "dbl \<Rightarrow> dbl" where
  "uminus_dbl (Fin x) = Fin (- x)"
| "uminus_dbl PInf = NInf"
| "uminus_dbl NInf = PInf"
| "uminus_dbl NaN = NaN"

definition minus_dbl :: "dbl \<Rightarrow> dbl \<Rightarrow> dbl" where
  "minus_dbl a b = a + (- b)"

fun times_dbl :: "dbl \<Rightarrow> dbl \<Rightarrow> dbl" where
  "times_dbl (Fin x) (Fin y) = Fin (x * y)"
| "times_dbl NaN _ = NaN"
| "times_dbl _ NaN = NaN"
| "times_dbl PInf (Fin y) = (if y = 0 then NaN else if 0 < y then PInf else NInf)"
| "times_dbl NInf (Fin y) = (if y = 0 then NaN else if 0 < y then NInf else PInf)"
| "times_dbl (Fin x) PInf = (if x = 0 then NaN else if 0 < x then PInf else NInf)"
| "times_dbl (Fin x) NInf = (if x = 0 then NaN else if 0 < x then NInf else PInf)"
| "times_dbl PInf PInf = PInf"
| "times_dbl PInf NInf = NInf"
| "times_dbl NInf PInf = NInf"
| "times_dbl NInf NInf = PInf"

fun divide_dbl :: "dbl \<Rightarrow> dbl \<Rightarrow> dbl" where
  "divide_dbl (Fin x) (Fin y) =
     (if y \<noteq> 0 then Fin (x / y) else if x = 0 then NaN else if 0 < x then PInf else NInf)"
| "divide_dbl NaN _ = NaN"
| "divide_dbl _ NaN = NaN"
| "divide_dbl (Fin x) PInf = Fin 0"
| "divide_dbl (Fin x) NInf = Fin 0"
| "divide_dbl PInf (Fin y) = (if 0 \<le> y then PInf else NInf)"
| "divide_dbl NInf (Fin y) = (if 0 \<le> y then NInf else PInf)"
| "divide_dbl PInf PInf = NaN"
| "divide_dbl PInf NInf = NaN"
| "divide_dbl NInf PInf = NaN"
| "divide_dbl NInf NInf = NaN"

definition inverse_dbl :: "dbl \<Rightarrow> dbl" where
  "inverse_dbl a = divide (Fin 1) a"

instance ..

end

text \<open>
  Addition with the special values is still associative and commutative, with the zero as
  its unit, so the sums of the library (\<open>sum_list\<close>) are available on doubles.
\<close>

lemma dbl_add_assoc: "(x + y) + z = x + (y + z)" for x y z :: dbl
  by (cases x; cases y; cases z; simp)

lemma dbl_add_commute: "x + y = y + x" for x y :: dbl
  by (cases x; cases y; simp)

lemma dbl_zero_add: "0 + x = x" for x :: dbl
  by (cases x; simp add: zero_dbl_def)

instance dbl :: comm_monoid_add
  by standard (fact dbl_add_assoc dbl_add_commute dbl_zero_add)+

text \<open>The comparison \<^verbatim>\<open>a > b\<close> of two doubles: false as soon as one side is NaN.\<close>

fun dgt :: "dbl \<Rightarrow> dbl \<Rightarrow> bool" where
  "dgt NaN _ = False"
| "dgt _ NaN = False"
| "dgt (Fin x) (Fin y) = (y < x)"
| "dgt PInf PInf = False"
| "dgt PInf _ = True"
| "dgt _ PInf = False"
| "dgt NInf _ = False"
| "dgt _ NInf = True"

text \<open>The comparison \<^verbatim>\<open>a >= b\<close>, likewise; \<^verbatim>\<open>a <= b\<close> is \<^verbatim>\<open>b >= a\<close>.\<close>

definition dge :: "dbl \<Rightarrow> dbl \<Rightarrow> bool" where
  "dge a b \<longleftrightarrow> dgt a b \<or> (a = b \<and> a \<noteq> NaN)"

text \<open>An \<^verbatim>\<open>int\<close> converted to a double.\<close>

definition of_i :: "int \<Rightarrow> dbl" where
  "of_i i = Fin (of_int i)"

section \<open>Loops\<close>

text \<open>
  \<^verbatim>\<open>for (; i < n; i++) body\<close> and \<^verbatim>\<open>for (; i < n; i += 4) body\<close>, over a state that
  the body may fail on (\<open>None\<close>: an access outside a buffer or through a null pointer).
  Both return the final value of \<^verbatim>\<open>i\<close> with the state, since the source reuses it.
\<close>

function for_up :: "int \<Rightarrow> int \<Rightarrow> (int \<Rightarrow> 's \<Rightarrow> 's option) \<Rightarrow> 's \<Rightarrow> (int \<times> 's) option" where
  "for_up i n body s =
     (if i < n then (case body i s of None \<Rightarrow> None | Some s' \<Rightarrow> for_up (i + 1) n body s')
      else Some (i, s))"
  by pat_completeness auto
termination
  by (relation "measure (\<lambda>(i, n, body, s). nat (n - i))") auto

function for_up4 :: "int \<Rightarrow> int \<Rightarrow> (int \<Rightarrow> 's \<Rightarrow> 's option) \<Rightarrow> 's \<Rightarrow> (int \<times> 's) option" where
  "for_up4 i n body s =
     (if i < n then (case body i s of None \<Rightarrow> None | Some s' \<Rightarrow> for_up4 (i + 4) n body s')
      else Some (i, s))"
  by pat_completeness auto
termination
  by (relation "measure (\<lambda>(i, n, body, s). nat (n - i))") auto

declare for_up.simps [simp del] for_up4.simps [simp del]

section \<open>The attribute bundle\<close>

type_synonym addr = nat

record dssim_attr =
  tmp :: "addr option"
  tmp_size :: nat
  color_weight :: dbl
  scale_weights :: "dbl list"
  num_scales :: int
  detail_size :: int
  subsample_chroma :: bool

definition MAX_CHANS :: int where
  "MAX_CHANS = 3"

definition MAX_SCALES :: int where
  "MAX_SCALES = 5"

definition default_weights :: "dbl list" where
  "default_weights = [Fin 0.0448, Fin 0.2856, Fin 0.3001, Fin 0.2363, Fin 0.1333]"

text \<open>An array read and an array store; \<open>None\<close> outside the array.\<close>

definition arr_get :: "'a list \<Rightarrow> int \<Rightarrow> 'a option" where
  "arr_get xs i = (if 0 \<le> i \<and> i < int (length xs) then Some (xs ! nat i) else None)"

definition arr_set :: "'a list \<Rightarrow> int \<Rightarrow> 'a \<Rightarrow> 'a list option" where
  "arr_set xs i v = (if 0 \<le> i \<and> i < int (length xs) then Some (xs[nat i := v]) else None)"

text \<open>
  \<^verbatim>\<open>dssim_set_scales\<close>. The weights are a pointer in the source; here \<open>None\<close> is the null
  pointer and \<open>Some ws\<close> an array of \<open>length ws\<close> doubles. The first loop copies the
  weights and sums them (the state is the attribute bundle with the sum), the second one
  divides each stored weight by the sum.
\<close>

definition set_scales_copy :: "dbl list \<Rightarrow> int \<Rightarrow> dssim_attr \<times> dbl \<Rightarrow> (dssim_attr \<times> dbl) option" where
  "set_scales_copy weights i st =
     (case arr_get weights i of
        None \<Rightarrow> None
      | Some wi \<Rightarrow>
          (case arr_set (scale_weights (fst st)) i wi of
             None \<Rightarrow> None
           | Some sw \<Rightarrow> Some ((fst st)\<lparr>scale_weights := sw\<rparr>, snd st + wi)))"

definition set_scales_div :: "dbl \<Rightarrow> int \<Rightarrow> dssim_attr \<Rightarrow> dssim_attr option" where
  "set_scales_div wsum i attr =
     (case arr_get (scale_weights attr) i of
        None \<Rightarrow> None
      | Some wi \<Rightarrow>
          (case arr_set (scale_weights attr) i (wi / wsum) of
             None \<Rightarrow> None
           | Some sw \<Rightarrow> Some (attr\<lparr>scale_weights := sw\<rparr>)))"

definition dssim_set_scales :: "dssim_attr \<Rightarrow> int \<Rightarrow> dbl list option \<Rightarrow> dssim_attr option" where
  "dssim_set_scales attr num weights0 =
     (let attr1 = attr\<lparr>num_scales := min MAX_SCALES num\<rparr>;
          weights = (case weights0 of None \<Rightarrow> default_weights | Some ws \<Rightarrow> ws)
      in case for_up 0 (num_scales attr1) (set_scales_copy weights) (attr1, Fin 0) of
           None \<Rightarrow> None
         | Some (_, (attr2, wsum)) \<Rightarrow>
             map_option snd (for_up 0 (num_scales attr2) (set_scales_div wsum) attr2))"

text \<open>
  The bundle that \<^verbatim>\<open>dssim_create_attr\<close> initialises (every field it does not name is
  zero), before it calls \<^verbatim>\<open>dssim_set_scales(attr, 4, NULL)\<close>.
\<close>

definition attr0 :: dssim_attr where
  "attr0 = \<lparr>tmp = None, tmp_size = 0, color_weight = Fin 0.95,
     scale_weights = [Fin 0, Fin 0, Fin 0, Fin 0, Fin 0], num_scales = 0, detail_size = 1,
     subsample_chroma = True\<rparr>"

definition dssim_create_attr :: "dssim_attr option" where
  "dssim_create_attr = dssim_set_scales attr0 4 None"

section \<open>Colour conversion\<close>

text \<open>
  The fields \<^verbatim>\<open>l\<close>, \<^verbatim>\<open>A\<close>, \<^verbatim>\<open>b\<close> of \<^verbatim>\<open>dssim_lab\<close> carry a prefix here. The functions
  \<^verbatim>\<open>pow\<close> and \<^verbatim>\<open>powf\<close> of the C library are parameters of the model.
\<close>

text \<open>
  The library functions without rounding, for the statements that need their values:
  \<^verbatim>\<open>pow(x, y)\<close> of a base \<open>x > 0\<close> is the real power, \<^verbatim>\<open>pow(x, 0)\<close> is 1, \<^verbatim>\<open>pow(0, y)\<close> is 0
  for \<open>y > 0\<close> and an infinity for \<open>y < 0\<close>. A negative base is given NaN, the library's
  value for the exponents that are not whole numbers; the program passes no negative base.
\<close>

definition ideal_pow :: "dbl \<Rightarrow> dbl \<Rightarrow> dbl" where
  "ideal_pow a e =
     (case (a, e) of
        (Fin x, Fin y) \<Rightarrow>
          if y = 0 then Fin 1
          else if 0 < x then Fin (x powr y)
          else if x = 0 then (if 0 < y then Fin 0 else PInf)
          else NaN
      | _ \<Rightarrow> NaN)"

record dssim_lab =
  lab_l :: dbl
  lab_A :: dbl
  lab_b :: dbl

record image_data =
  gamma_lut :: "dbl list"
  row_pointers :: "8 word list list"

definition set_gamma :: "(dbl \<Rightarrow> dbl \<Rightarrow> dbl) \<Rightarrow> dbl list \<Rightarrow> dbl \<Rightarrow> dbl list option" where
  "set_gamma pow lut invgamma =
     map_option snd
       (for_up 0 256 (\<lambda>i t. arr_set t i (pow (of_i i / Fin 255.0) (Fin 1.0 / invgamma))) lut)"

definition D65x :: dbl where
  "D65x = Fin 0.9505"

definition D65y :: dbl where
  "D65y = Fin 1.0"

definition D65z :: dbl where
  "D65z = Fin 1.089"

definition rgb_to_lab ::
  "(dbl \<Rightarrow> dbl \<Rightarrow> dbl) \<Rightarrow> dbl list \<Rightarrow> 8 word \<Rightarrow> 8 word \<Rightarrow> 8 word \<Rightarrow> dssim_lab option" where
  "rgb_to_lab powf lut pxr pxg pxb =
     (case (arr_get lut (uint pxr), arr_get lut (uint pxg), arr_get lut (uint pxb)) of
        (Some r, Some g, Some b) \<Rightarrow>
          (let fx = (r * Fin 0.4124 + g * Fin 0.3576 + b * Fin 0.1805) / D65x;
               fy = (r * Fin 0.2126 + g * Fin 0.7152 + b * Fin 0.0722) / D65y;
               fz = (r * Fin 0.0193 + g * Fin 0.1192 + b * Fin 0.9505) / D65z;
               epsilon = Fin 216.0 / Fin 24389.0;
               k = (Fin 24389.0 / Fin 27.0) / Fin 116;
               X = (if dgt fx epsilon then powf fx (Fin 1 / Fin 3) - Fin 16 / Fin 116 else k * fx);
               Y = (if dgt fy epsilon then powf fy (Fin 1 / Fin 3) - Fin 16 / Fin 116 else k * fy);
               Z = (if dgt fz epsilon then powf fz (Fin 1 / Fin 3) - Fin 16 / Fin 116 else k * fz)
           in Some \<lparr>lab_l = Y * Fin 1.16,
                    lab_A = Fin 86.2 / Fin 220.0 + Fin 500.0 / Fin 220.0 * (X - Y),
                    lab_b = Fin 107.9 / Fin 220.0 + Fin 200.0 / Fin 220.0 * (Y - Z)\<rparr>)
      | _ \<Rightarrow> None)"

text \<open>
  Modelled from the spec: the type \<^verbatim>\<open>dssim_rgba\<close>, which \<^verbatim>\<open>dssim.c\<close> uses and does not declare.
  An RGBA pixel is four bytes, and \<^verbatim>\<open>convert_pixel_rgba\<close> reads its members \<^verbatim>\<open>r\<close>, \<^verbatim>\<open>g\<close>,
  \<^verbatim>\<open>b\<close> and \<^verbatim>\<open>a\<close> (here with a prefix).
\<close>

record dssim_rgba =
  rgba_r :: "8 word"
  rgba_g :: "8 word"
  rgba_b :: "8 word"
  rgba_a :: "8 word"

text \<open>
  \<^verbatim>\<open>convert_pixel_rgba\<close>, with its three assertions: an \<^verbatim>\<open>assert\<close> that fails ends the
  program, so the function has no result then.
\<close>

definition c_assert :: "bool \<Rightarrow> unit option" where
  "c_assert c = (if c then Some () else None)"

definition convert_pixel_rgba ::
  "(dbl \<Rightarrow> dbl \<Rightarrow> dbl) \<Rightarrow> dbl list \<Rightarrow> dssim_rgba \<Rightarrow> int \<Rightarrow> int \<Rightarrow> dssim_lab option" where
  "convert_pixel_rgba powf lut px i j = do {
     f1 \<leftarrow> rgb_to_lab powf lut (rgba_r px) (rgba_g px) (rgba_b px);
     c_assert (dge (lab_l f1) (Fin 0) \<and> dge (Fin 1.0) (lab_l f1));
     c_assert (dge (lab_A f1) (Fin 0) \<and> dge (Fin 1.0) (lab_A f1));
     c_assert (dge (lab_b f1) (Fin 0) \<and> dge (Fin 1.0) (lab_b f1));
     if rgba_a px < 255 then
       (let a = of_i (uint (rgba_a px)) / Fin 255;
            f2 = f1\<lparr>lab_l := lab_l f1 * a, lab_A := lab_A f1 * a, lab_b := lab_b f1 * a\<rparr>;
            n = i XOR j;
            f3 = (if n AND 4 \<noteq> 0 then f2\<lparr>lab_l := lab_l f2 + (Fin 1.0 - a)\<rparr> else f2);
            f4 = (if n AND 8 \<noteq> 0 then f3\<lparr>lab_A := lab_A f3 + (Fin 1.0 - a)\<rparr> else f3);
            f5 = (if n AND 16 \<noteq> 0 then f4\<lparr>lab_b := lab_b f4 + (Fin 1.0 - a)\<rparr> else f4)
        in Some f5)
     else Some f1
   }"

text \<open>
  \<^verbatim>\<open>convert_image_row_gray_init\<close> overwrites the table in place, entry by entry; the
  \<^verbatim>\<open>int\<close> index is passed to \<^verbatim>\<open>rgb_to_lab\<close> as an \<^verbatim>\<open>unsigned char\<close>.
\<close>

definition gray_init_step :: "(dbl \<Rightarrow> dbl \<Rightarrow> dbl) \<Rightarrow> int \<Rightarrow> dbl list \<Rightarrow> dbl list option" where
  "gray_init_step powf i lut =
     (case rgb_to_lab powf lut (word_of_int i) (word_of_int i) (word_of_int i) of
        None \<Rightarrow> None
      | Some px \<Rightarrow> arr_set lut i (lab_l px))"

definition convert_image_row_gray_init :: "(dbl \<Rightarrow> dbl \<Rightarrow> dbl) \<Rightarrow> dbl list \<Rightarrow> dbl list option" where
  "convert_image_row_gray_init powf lut = map_option snd (for_up 0 256 (gray_init_step powf) lut)"

text \<open>
  The row converters fill the rows \<^verbatim>\<open>channels[c]\<close> they are handed (here a list of rows,
  returned updated) from row \<^verbatim>\<open>y\<close> of the input. An RGB row is read through a cast to
  \<^verbatim>\<open>dssim_rgb*\<close>. That struct has the four members \<^verbatim>\<open>r\<close>, \<^verbatim>\<open>g\<close>, \<^verbatim>\<open>b\<close>, \<^verbatim>\<open>a\<close>, one byte
  each, so \<^verbatim>\<open>row[x]\<close> starts at byte \<open>4 * x\<close> of the row, and its fourth byte is not read.
\<close>

definition chan_store :: "dbl list list \<Rightarrow> int \<Rightarrow> int \<Rightarrow> dbl \<Rightarrow> dbl list list option" where
  "chan_store channels c x v =
     (case arr_get channels c of
        None \<Rightarrow> None
      | Some row \<Rightarrow>
          (case arr_set row x v of None \<Rightarrow> None | Some row' \<Rightarrow> arr_set channels c row'))"

definition gray_px :: "dbl list \<Rightarrow> 8 word list \<Rightarrow> int \<Rightarrow> dbl list list \<Rightarrow> dbl list list option" where
  "gray_px lut row x channels =
     (case arr_get row x of
        None \<Rightarrow> None
      | Some v \<Rightarrow>
          (case arr_get lut (uint v) of
             None \<Rightarrow> None
           | Some g \<Rightarrow> chan_store channels 0 x g))"

definition convert_image_row_gray ::
  "dbl list list \<Rightarrow> int \<Rightarrow> int \<Rightarrow> int \<Rightarrow> image_data \<Rightarrow> dbl list list option" where
  "convert_image_row_gray channels num_channels y w im =
     (case arr_get (row_pointers im) y of
        None \<Rightarrow> None
      | Some row \<Rightarrow> map_option snd (for_up 0 w (gray_px (gamma_lut im) row) channels))"

definition rgb_px ::
  "(dbl \<Rightarrow> dbl \<Rightarrow> dbl) \<Rightarrow> dbl list \<Rightarrow> 8 word list \<Rightarrow> int \<Rightarrow> int \<Rightarrow> dbl list list \<Rightarrow> dbl list list option" where
  "rgb_px powf lut row num_channels x channels =
     (case (arr_get row (4 * x), arr_get row (4 * x + 1), arr_get row (4 * x + 2)) of
        (Some r, Some g, Some b) \<Rightarrow>
          (case rgb_to_lab powf lut r g b of
             None \<Rightarrow> None
           | Some px \<Rightarrow>
               (case chan_store channels 0 x (lab_l px) of
                  None \<Rightarrow> None
                | Some ch0 \<Rightarrow>
                    if 3 \<le> num_channels then
                      (case chan_store ch0 1 x (lab_A px) of
                         None \<Rightarrow> None
                       | Some ch1 \<Rightarrow> chan_store ch1 2 x (lab_b px))
                    else Some ch0))
      | _ \<Rightarrow> None)"

definition convert_image_row_rgb ::
  "(dbl \<Rightarrow> dbl \<Rightarrow> dbl) \<Rightarrow> dbl list list \<Rightarrow> int \<Rightarrow> int \<Rightarrow> int \<Rightarrow> image_data \<Rightarrow> dbl list list option" where
  "convert_image_row_rgb powf channels num_channels y w im =
     (case arr_get (row_pointers im) y of
        None \<Rightarrow> None
      | Some row \<Rightarrow>
          map_option snd (for_up 0 w (rgb_px powf (gamma_lut im) row num_channels) channels))"

text \<open>
  The two cases of the switch of \<^verbatim>\<open>dssim_create_image\<close> that the gray and the RGB input
  take: the table is set from the gamma, and the gray case then rewrites it.
\<close>

definition image_data_gray ::
  "(dbl \<Rightarrow> dbl \<Rightarrow> dbl) \<Rightarrow> (dbl \<Rightarrow> dbl \<Rightarrow> dbl) \<Rightarrow> dbl list \<Rightarrow> 8 word list list \<Rightarrow> dbl \<Rightarrow> image_data option" where
  "image_data_gray pow powf lut0 rows gamma =
     (case set_gamma pow lut0 gamma of
        None \<Rightarrow> None
      | Some lut \<Rightarrow>
          (case convert_image_row_gray_init powf lut of
             None \<Rightarrow> None
           | Some glut \<Rightarrow> Some \<lparr>gamma_lut = glut, row_pointers = rows\<rparr>))"

definition image_data_rgb ::
  "(dbl \<Rightarrow> dbl \<Rightarrow> dbl) \<Rightarrow> dbl list \<Rightarrow> 8 word list list \<Rightarrow> dbl \<Rightarrow> image_data option" where
  "image_data_rgb pow lut0 rows gamma =
     (case set_gamma pow lut0 gamma of
        None \<Rightarrow> None
      | Some lut \<Rightarrow> Some \<lparr>gamma_lut = lut, row_pointers = rows\<rparr>)"

section \<open>Memory\<close>

text \<open>
  The images live in a store: the float arrays (\<open>bufs\<close>) and the channel structs
  (\<open>chans\<close>) that \<^verbatim>\<open>malloc\<close> returned, each under its address. A pointer into a float
  array is the address of the array with an offset. Every access is checked: outside its
  array, through a null pointer (\<open>None\<close>) or to a freed block it is \<open>None\<close>, and so is
  the function that made it. A fresh block holds arbitrary values (\<open>junk\<close>), and its
  address is the counter \<open>fresh\<close>.
\<close>

record dssim_chan =
  width :: int
  height :: int
  img :: "addr option"
  mu :: "addr option"
  img_sq_blur :: "addr option"
  next_half :: "addr option"
  blur_size :: int
  is_chroma :: bool

record dssim_image =
  chan :: "addr option list"
  channels :: int

record heap =
  bufs :: "addr \<Rightarrow> dbl list option"
  chans :: "addr \<Rightarrow> dssim_chan option"
  junk :: "addr \<Rightarrow> nat \<Rightarrow> dbl"
  fresh :: addr

type_synonym ptr = "addr option \<times> int"

definition padd :: "ptr \<Rightarrow> int \<Rightarrow> ptr" where
  "padd p k = (fst p, snd p + k)"

definition rd :: "ptr \<Rightarrow> int \<Rightarrow> heap \<Rightarrow> dbl option" where
  "rd p i h =
     (case fst p of
        None \<Rightarrow> None
      | Some a \<Rightarrow> (case bufs h a of None \<Rightarrow> None | Some xs \<Rightarrow> arr_get xs (snd p + i)))"

definition wr :: "ptr \<Rightarrow> int \<Rightarrow> dbl \<Rightarrow> heap \<Rightarrow> heap option" where
  "wr p i v h =
     (case fst p of
        None \<Rightarrow> None
      | Some a \<Rightarrow>
          (case bufs h a of
             None \<Rightarrow> None
           | Some xs \<Rightarrow>
               (case arr_set xs (snd p + i) v of
                  None \<Rightarrow> None
                | Some ys \<Rightarrow> Some (h\<lparr>bufs := (bufs h)(a \<mapsto> ys)\<rparr>))))"

text \<open>A float pointer held in a struct, as a pointer to the first element of its array.\<close>

definition ptr_of :: "addr option \<Rightarrow> ptr" where
  "ptr_of a = (a, 0)"

text \<open>
  The product of two \<^verbatim>\<open>int\<close>s, of 32 bits. In \<^verbatim>\<open>width * height * sizeof(float)\<close> the product
  \<^verbatim>\<open>width * height\<close> is computed in \<^verbatim>\<open>int\<close> before it is converted to \<^verbatim>\<open>size_t\<close>. A product
  outside the range of \<^verbatim>\<open>int\<close> is undefined behaviour: it has no value here, and neither
  has the function that computes it.
\<close>

definition int_mul :: "int \<Rightarrow> int \<Rightarrow> int option" where
  "int_mul a b = (if - (2 ^ 31) \<le> a * b \<and> a * b < 2 ^ 31 then Some (a * b) else None)"

text \<open>
  \<^verbatim>\<open>malloc(size)\<close> for a float array, \<open>size\<close> in bytes: a block of \<open>size div 4\<close> floats.
  A request of half the address space or more returns the null pointer.
  \<^verbatim>\<open>n * sizeof(float)\<close> is computed in \<^verbatim>\<open>size_t\<close> from the \<^verbatim>\<open>int\<close> \<open>n\<close>, so a negative \<open>n\<close>
  wraps around. Where planes are allocated (\<^verbatim>\<open>create_chan\<close>, \<^verbatim>\<open>dssim_preprocess_channel\<close>)
  \<open>n\<close> is the product that \<open>int_mul\<close> gives. \<^verbatim>\<open>dssim_compare\<close> sizes its scratch block by
  the dimensions of a channel that exists: \<^verbatim>\<open>create_chan\<close> computed this very product when
  it allocated the plane, and there the product is taken as the number it is.
\<close>

definition float_bytes :: "int \<Rightarrow> nat" where
  "float_bytes n = nat ((n * 4) mod 2 ^ 64)"

definition malloc :: "nat \<Rightarrow> heap \<Rightarrow> addr option \<times> heap" where
  "malloc sz h =
     (if 2 ^ 63 \<le> sz then (None, h)
      else (Some (fresh h),
            h\<lparr>bufs := (bufs h)(fresh h \<mapsto> map (junk h (fresh h)) [0..<sz div 4]),
              fresh := fresh h + 1\<rparr>))"

definition free :: "addr option \<Rightarrow> heap \<Rightarrow> heap option" where
  "free p h =
     (case p of
        None \<Rightarrow> Some h
      | Some a \<Rightarrow> (case bufs h a of None \<Rightarrow> None | Some _ \<Rightarrow> Some (h\<lparr>bufs := (bufs h)(a := None)\<rparr>)))"

definition chan_upd :: "addr \<Rightarrow> (dssim_chan \<Rightarrow> dssim_chan) \<Rightarrow> heap \<Rightarrow> heap option" where
  "chan_upd c f h =
     (case chans h c of None \<Rightarrow> None | Some r \<Rightarrow> Some (h\<lparr>chans := (chans h)(c \<mapsto> f r)\<rparr>))"

text \<open>Division of two \<^verbatim>\<open>int\<close>s, truncating as C does.\<close>

definition cdiv :: "int \<Rightarrow> int \<Rightarrow> int" where
  "cdiv a b = (if (a < 0) = (b < 0) then \<bar>a\<bar> div \<bar>b\<bar> else - (\<bar>a\<bar> div \<bar>b\<bar>))"

definition dssim_get_tmp :: "dssim_attr \<Rightarrow> nat \<Rightarrow> heap \<Rightarrow> (addr option \<times> dssim_attr \<times> heap) option" where
  "dssim_get_tmp attr sz h =
     (if tmp attr \<noteq> None \<and> sz \<le> tmp_size attr then Some (tmp attr, attr, h)
      else do {
        h1 \<leftarrow> (if tmp attr \<noteq> None then free (tmp attr) h else Some h);
        let (p, h2) = malloc sz h1;
        Some (p, attr\<lparr>tmp := p, tmp_size := sz\<rparr>, h2)
      })"

section \<open>Blur\<close>

definition square_row :: "ptr \<Rightarrow> ptr \<Rightarrow> int \<Rightarrow> heap \<Rightarrow> heap option" where
  "square_row src dst w h =
     map_option snd (for_up 0 w (\<lambda>i h. do { x \<leftarrow> rd src i h; wr dst i (x * x) h }) h)"

definition transpose_px :: "ptr \<Rightarrow> ptr \<Rightarrow> int \<Rightarrow> int \<Rightarrow> int \<Rightarrow> heap \<Rightarrow> heap option" where
  "transpose_px row dst hh j i h = do { x \<leftarrow> rd row i h; wr dst (i * hh + j) x h }"

definition transpose_px4 :: "ptr \<Rightarrow> ptr \<Rightarrow> int \<Rightarrow> int \<Rightarrow> int \<Rightarrow> int \<Rightarrow> heap \<Rightarrow> heap option" where
  "transpose_px4 src dst w hh j i h = do {
     h0 \<leftarrow> transpose_px (padd src ((j + 0) * w)) dst hh (j + 0) i h;
     h1 \<leftarrow> transpose_px (padd src ((j + 1) * w)) dst hh (j + 1) i h0;
     h2 \<leftarrow> transpose_px (padd src ((j + 2) * w)) dst hh (j + 2) i h1;
     transpose_px (padd src ((j + 3) * w)) dst hh (j + 3) i h2
   }"

definition transpose :: "ptr \<Rightarrow> ptr \<Rightarrow> int \<Rightarrow> int \<Rightarrow> heap \<Rightarrow> heap option" where
  "transpose src dst w hh h = do {
     (j, h1) \<leftarrow> for_up4 0 (hh - 4)
        (\<lambda>j h. map_option snd (for_up 0 w (transpose_px4 src dst w hh j) h)) h;
     (_, h2) \<leftarrow> for_up j hh
        (\<lambda>j h. map_option snd (for_up 0 w (transpose_px (padd src (j * w)) dst hh j) h)) h1;
     Some h2
   }"

definition blur_px :: "ptr \<Rightarrow> ptr \<Rightarrow> int \<Rightarrow> int \<Rightarrow> heap \<Rightarrow> heap option" where
  "blur_px row dstrow w i h = do {
     a \<leftarrow> rd row (max 0 (i - 1)) h;
     b \<leftarrow> rd row i h;
     c \<leftarrow> rd row (min (w - 1) (i + 1)) h;
     wr dstrow i ((a + b + c) / Fin 3) h
   }"

definition blur_px4 :: "ptr \<Rightarrow> ptr \<Rightarrow> int \<Rightarrow> heap \<Rightarrow> heap option" where
  "blur_px4 row dstrow i h = do {
     p1 \<leftarrow> rd row (i - 1) h;
     n0 \<leftarrow> rd row (i + 0) h;
     n1 \<leftarrow> rd row (i + 1) h;
     n2 \<leftarrow> rd row (i + 2) h;
     n3 \<leftarrow> rd row (i + 3) h;
     n4 \<leftarrow> rd row (i + 4) h;
     h0 \<leftarrow> wr dstrow (i + 0) ((p1 + n0 + n1) / Fin 3) h;
     h1 \<leftarrow> wr dstrow (i + 1) ((n0 + n1 + n2) / Fin 3) h0;
     h2 \<leftarrow> wr dstrow (i + 2) ((n1 + n2 + n3) / Fin 3) h1;
     wr dstrow (i + 3) ((n2 + n3 + n4) / Fin 3) h2
   }"

text \<open>
  The three loops over \<^verbatim>\<open>i\<close> of \<^verbatim>\<open>regular_1d_blur\<close>, which share the counter: they
  blur the line at \<open>row\<close> into the line at \<open>dstrow\<close>.
\<close>

definition blur_line :: "ptr \<Rightarrow> ptr \<Rightarrow> int \<Rightarrow> heap \<Rightarrow> heap option" where
  "blur_line row dstrow w h = do {
     (i1, h1) \<leftarrow> for_up 0 4 (blur_px row dstrow w) h;
     (i2, h2) \<leftarrow> for_up4 i1 ((w - 1) AND NOT 3) (blur_px4 row dstrow) h1;
     (_, h3) \<leftarrow> for_up i2 w (blur_px row dstrow w) h2;
     Some h3
   }"

text \<open>
  One run of the inner loop of \<^verbatim>\<open>regular_1d_blur\<close> on row \<open>j\<close>. The only row callback
  of the source is \<^verbatim>\<open>square_row\<close>.
\<close>

definition blur_run ::
  "ptr \<Rightarrow> ptr \<Rightarrow> ptr \<Rightarrow> int \<Rightarrow> int \<Rightarrow> (ptr \<Rightarrow> ptr \<Rightarrow> int \<Rightarrow> heap \<Rightarrow> heap option) option \<Rightarrow>
   int \<Rightarrow> int \<Rightarrow> heap \<Rightarrow> heap option" where
  "blur_run src tmp1 dst w runs callback j run h =
     (let tmp2 = padd tmp1 w;
          row = (if run = 0 then padd src (j * w) else if run AND 1 \<noteq> 0 then tmp1 else tmp2);
          dstrow = (if run = runs - 1 then padd dst (j * w) else if run AND 1 \<noteq> 0 then tmp2 else tmp1)
      in case callback of
           Some cb \<Rightarrow>
             if run = 0 then do { h' \<leftarrow> cb row tmp2 w h; blur_line tmp2 dstrow w h' }
             else blur_line row dstrow w h
         | None \<Rightarrow> blur_line row dstrow w h)"

definition regular_1d_blur ::
  "ptr \<Rightarrow> ptr \<Rightarrow> ptr \<Rightarrow> int \<Rightarrow> int \<Rightarrow> int \<Rightarrow> (ptr \<Rightarrow> ptr \<Rightarrow> int \<Rightarrow> heap \<Rightarrow> heap option) option \<Rightarrow>
   heap \<Rightarrow> heap option" where
  "regular_1d_blur src tmp1 dst w hh runs callback h =
     map_option snd
       (for_up 0 hh
          (\<lambda>j h. map_option snd (for_up 0 runs (blur_run src tmp1 dst w runs callback j) h)) h)"

definition blur ::
  "ptr \<Rightarrow> ptr \<Rightarrow> ptr \<Rightarrow> int \<Rightarrow> int \<Rightarrow> int \<Rightarrow> (ptr \<Rightarrow> ptr \<Rightarrow> int \<Rightarrow> heap \<Rightarrow> heap option) option \<Rightarrow>
   heap \<Rightarrow> heap option" where
  "blur src tmpp dst w hh sz callback h = do {
     h1 \<leftarrow> regular_1d_blur src tmpp dst w hh sz callback h;
     h2 \<leftarrow> transpose dst tmpp w hh h1;
     h3 \<leftarrow> regular_1d_blur tmpp dst tmpp hh w sz None h2;
     transpose tmpp dst hh w h3
   }"

section \<open>The channel pyramid and the preprocessor\<close>

text \<open>
  \<^verbatim>\<open>create_chan\<close> allocates the struct, then the pixel plane of \<open>w * hh\<close> floats, the
  product computed in \<^verbatim>\<open>int\<close>; the other fields of the compound literal are zero.
\<close>

definition create_chan :: "int \<Rightarrow> int \<Rightarrow> int \<Rightarrow> bool \<Rightarrow> heap \<Rightarrow> (addr \<times> heap) option" where
  "create_chan w hh bs ic h = do {
     let c = fresh h;
     n \<leftarrow> int_mul w hh;
     let (p, h1) = malloc (float_bytes n) (h\<lparr>fresh := c + 1\<rparr>);
     Some (c, h1\<lparr>chans := (chans h1)(c \<mapsto>
            \<lparr>width = w, height = hh, img = p, mu = None, img_sq_blur = None,
             next_half = None, blur_size = bs, is_chroma = ic\<rparr>)\<rparr>)
   }"

definition subsampled_px :: "addr \<Rightarrow> int \<Rightarrow> ptr \<Rightarrow> int \<Rightarrow> int \<Rightarrow> int \<Rightarrow> heap \<Rightarrow> heap option" where
  "subsampled_px new_chan dest_y_offset src_img src_width y x h = do {
     nc \<leftarrow> chans h new_chan;
     a \<leftarrow> rd src_img (x * 2 + y * 2 * src_width) h;
     b \<leftarrow> rd src_img (x * 2 + 1 + y * 2 * src_width) h;
     c \<leftarrow> rd src_img (x * 2 + (y * 2 + 1) * src_width) h;
     d \<leftarrow> rd src_img (x * 2 + 1 + (y * 2 + 1) * src_width) h;
     wr (ptr_of (img nc)) (x + (y + dest_y_offset) * width nc) (Fin 0.25 * (a + b + c + d)) h
   }"

definition subsampled_copy :: "addr \<Rightarrow> int \<Rightarrow> int \<Rightarrow> ptr \<Rightarrow> int \<Rightarrow> heap \<Rightarrow> heap option" where
  "subsampled_copy new_chan dest_y_offset rows src_img src_width h =
     map_option snd
       (for_up 0 rows
          (\<lambda>y h. do {
             nc \<leftarrow> chans h new_chan;
             map_option snd
               (for_up 0 (width nc) (subsampled_px new_chan dest_y_offset src_img src_width y) h)
           }) h)"

text \<open>
  \<^verbatim>\<open>dssim_preprocess_channel\<close>. The struct is read again after each store that changes
  the structs; \<^verbatim>\<open>blur\<close> and \<^verbatim>\<open>malloc\<close> change float arrays only.
\<close>

function dssim_preprocess_channel :: "addr \<Rightarrow> ptr \<Rightarrow> int \<Rightarrow> heap \<Rightarrow> heap option" where
  "dssim_preprocess_channel chn tmpp nscales h = do {
     c \<leftarrow> chans h chn;
     h1 \<leftarrow>
       (if nscales > 1 then do {
          (new_chan, ha) \<leftarrow> create_chan (cdiv (width c) 2) (cdiv (height c) 2) (blur_size c) (is_chroma c) h;
          hb \<leftarrow> chan_upd chn (\<lambda>r. r\<lparr>next_half := Some new_chan\<rparr>) ha;
          nc \<leftarrow> chans hb new_chan;
          c' \<leftarrow> chans hb chn;
          hc \<leftarrow> subsampled_copy new_chan 0 (height nc) (ptr_of (img c')) (width c') hb;
          (case next_half c' of
             None \<Rightarrow> None
           | Some nh \<Rightarrow> dssim_preprocess_channel nh tmpp (nscales - 1) hc)
        } else Some h);
     c1 \<leftarrow> chans h1 chn;
     h2 \<leftarrow>
       (if is_chroma c1 then blur (ptr_of (img c1)) tmpp (ptr_of (img c1)) (width c) (height c) 2 None h1
        else Some h1);
     n \<leftarrow> int_mul (width c) (height c);
     let (m, h3) = malloc (float_bytes n) h2;
     h4 \<leftarrow> chan_upd chn (\<lambda>r. r\<lparr>mu := m\<rparr>) h3;
     c4 \<leftarrow> chans h4 chn;
     h5 \<leftarrow> blur (ptr_of (img c4)) tmpp (ptr_of (mu c4)) (width c) (height c) (blur_size c4) None h4;
     n' \<leftarrow> int_mul (width c) (height c);
     let (q, h6) = malloc (float_bytes n') h5;
     h7 \<leftarrow> chan_upd chn (\<lambda>r. r\<lparr>img_sq_blur := q\<rparr>) h6;
     c7 \<leftarrow> chans h7 chn;
     blur (ptr_of (img c7)) tmpp (ptr_of (img_sq_blur c7)) (width c) (height c) (blur_size c7)
       (Some square_row) h7
   }"
  by pat_completeness auto
termination
  by (relation "measure (\<lambda>(chn, tmpp, nscales, h). nat nscales)") auto

declare dssim_preprocess_channel.simps [simp del]

section \<open>The comparator\<close>

text \<open>
  \<^verbatim>\<open>get_img1_img2_blur\<close> returns the pointer it took from \<^verbatim>\<open>modified->img\<close>.
\<close>

definition mul_px :: "ptr \<Rightarrow> ptr \<Rightarrow> int \<Rightarrow> heap \<Rightarrow> heap option" where
  "mul_px img1 img2 j h = do { a \<leftarrow> rd img2 j h; b \<leftarrow> rd img1 j h; wr img2 j (a * b) h }"

definition get_img1_img2_blur :: "addr \<Rightarrow> addr \<Rightarrow> ptr \<Rightarrow> heap \<Rightarrow> (addr option \<times> heap) option" where
  "get_img1_img2_blur original modified tmpp h = do {
     oc \<leftarrow> chans h original;
     mc \<leftarrow> chans h modified;
     h1 \<leftarrow> chan_upd modified (\<lambda>r. r\<lparr>img := None\<rparr>) h;
     (_, h2) \<leftarrow> for_up 0 (width oc * height oc) (mul_px (ptr_of (img oc)) (ptr_of (img mc))) h1;
     o2 \<leftarrow> chans h2 original;
     h3 \<leftarrow> blur (ptr_of (img mc)) tmpp (ptr_of (img mc)) (width oc) (height oc) (blur_size o2) None h2;
     Some (img mc, h3)
   }"

text \<open>
  One pixel of the loop of \<^verbatim>\<open>dssim_compare_channel\<close>; the state is the running sum with
  the store. \<open>ssimmap\<close> is \<^verbatim>\<open>mu2\<close> when a map is asked for, the null pointer otherwise.
\<close>

definition ssim_px ::
  "ptr \<Rightarrow> ptr \<Rightarrow> ptr \<Rightarrow> ptr \<Rightarrow> ptr \<Rightarrow> ptr \<Rightarrow> dbl \<Rightarrow> dbl \<Rightarrow> int \<Rightarrow> dbl \<times> heap \<Rightarrow> (dbl \<times> heap) option" where
  "ssim_px mu1 mu2 img1_sq_blur img2_sq_blur img1_img2_blur ssimmap c1 c2 offset st = do {
     m1 \<leftarrow> rd mu1 offset (snd st);
     m2 \<leftarrow> rd mu2 offset (snd st);
     s1 \<leftarrow> rd img1_sq_blur offset (snd st);
     s2 \<leftarrow> rd img2_sq_blur offset (snd st);
     s12 \<leftarrow> rd img1_img2_blur offset (snd st);
     let mu1_sq = m1 * m1;
     let mu2_sq = m2 * m2;
     let mu1_mu2 = m1 * m2;
     let sigma1_sq = s1 - mu1_sq;
     let sigma2_sq = s2 - mu2_sq;
     let sigma12 = s12 - mu1_mu2;
     let ssim = (Fin 2.0 * mu1_mu2 + c1) * (Fin 2.0 * sigma12 + c2)
                / ((mu1_sq + mu2_sq + c1) * (sigma1_sq + sigma2_sq + c2));
     h' \<leftarrow> (if fst ssimmap \<noteq> None then wr ssimmap offset ssim (snd st) else Some (snd st));
     Some (fst st + ssim, h')
   }"

text \<open>
  \<^verbatim>\<open>dssim_compare_channel\<close>; \<open>ssim_map_out\<close> tells whether the caller passed a place for
  the map, and the second component of the result is the pointer stored there, if any.
\<close>

definition dssim_compare_channel ::
  "addr \<Rightarrow> addr \<Rightarrow> ptr \<Rightarrow> bool \<Rightarrow> heap \<Rightarrow> (dbl \<times> addr option option \<times> heap) option" where
  "dssim_compare_channel original modified tmpp ssim_map_out h = do {
     oc \<leftarrow> chans h original;
     mc \<leftarrow> chans h modified;
     if width oc \<noteq> width mc \<or> height oc \<noteq> height mc then Some (Fin 0, None, h)
     else do {
       (p, h1) \<leftarrow> get_img1_img2_blur original modified tmpp h;
       (_, (ssim_sum, h2)) \<leftarrow>
         for_up 0 (width oc * height oc)
           (ssim_px (ptr_of (mu oc)) (ptr_of (mu mc)) (ptr_of (img_sq_blur oc)) (ptr_of (img_sq_blur mc))
              (ptr_of p) (if ssim_map_out then ptr_of (mu mc) else (None, 0))
              (Fin 0.01 * Fin 0.01) (Fin 0.03 * Fin 0.03))
           (Fin 0, h1);
       h3 \<leftarrow> (if ssim_map_out then Some h2 else do { m2 \<leftarrow> chans h2 modified; free (mu m2) h2 });
       h4 \<leftarrow> chan_upd modified (\<lambda>r. r\<lparr>mu := None\<rparr>) h3;
       m4 \<leftarrow> chans h4 modified;
       h5 \<leftarrow> free (img_sq_blur m4) h4;
       h6 \<leftarrow> chan_upd modified (\<lambda>r. r\<lparr>img_sq_blur := None\<rparr>) h5;
       h7 \<leftarrow> free p h6;
       Some (ssim_sum / of_i (width oc * height oc),
             (if ssim_map_out then Some (mu mc) else None), h7)
     }
   }"

text \<open>
  The loop over the scales of \<^verbatim>\<open>dssim_compare\<close>, from scale \<open>n\<close> on, with its
  \<^verbatim>\<open>break\<close>. The state is \<open>(ssim_sum, total, map, store)\<close>.
\<close>

definition chan_at :: "addr option \<Rightarrow> heap \<Rightarrow> dssim_chan option" where
  "chan_at p h = (case p of None \<Rightarrow> None | Some a \<Rightarrow> chans h a)"

function scale_loop ::
  "dssim_attr \<Rightarrow> ptr \<Rightarrow> bool \<Rightarrow> int \<Rightarrow> int \<Rightarrow> addr option \<Rightarrow> addr option \<Rightarrow>
   dbl \<times> dbl \<times> addr option option \<times> heap \<Rightarrow> (dbl \<times> dbl \<times> addr option option \<times> heap) option" where
  "scale_loop attr tmpp ssim_map_out ch n original modified st =
     (case st of (ssim_sum, total0, mo, h) \<Rightarrow>
      if n < num_scales attr then do {
        oc \<leftarrow> chan_at original h;
        sw \<leftarrow> arr_get (scale_weights attr) n;
        let weight = (if is_chroma oc then color_weight attr else Fin 1.0) * sw;
        let use_ssim_map_out = (ssim_map_out \<and> n = 0 \<and> ch = 0);
        oa \<leftarrow> original;
        ma \<leftarrow> modified;
        (r, mo1, h1) \<leftarrow> dssim_compare_channel oa ma tmpp use_ssim_map_out h;
        let ssim_sum1 = ssim_sum + weight * r;
        let total1 = total0 + weight;
        let mo2 = (if use_ssim_map_out then mo1 else mo);
        o1 \<leftarrow> chan_at original h1;
        m1 \<leftarrow> chan_at modified h1;
        if next_half o1 = None \<or> next_half m1 = None then Some (ssim_sum1, total1, mo2, h1)
        else scale_loop attr tmpp ssim_map_out ch (n + 1) (next_half o1) (next_half m1)
               (ssim_sum1, total1, mo2, h1)
      } else Some st)"
  by pat_completeness auto
termination
  by (relation "measure (\<lambda>(attr, tmpp, smo, ch, n, original, modified, st). nat (num_scales attr - n))") auto

declare scale_loop.simps [simp del]

definition dssim_compare ::
  "dssim_attr \<Rightarrow> dssim_image \<Rightarrow> dssim_image \<Rightarrow> bool \<Rightarrow> heap \<Rightarrow>
   (dbl \<times> addr option option \<times> dssim_attr \<times> heap) option" where
  "dssim_compare attr original_image modified_image ssim_map_out h = do {
     c0p \<leftarrow> arr_get (chan original_image) 0;
     c0 \<leftarrow> chan_at c0p h;
     (tmpa, attr1, h1) \<leftarrow> dssim_get_tmp attr (float_bytes (width c0 * height c0)) h;
     (_, (ssim_sum, total0, mo, h2)) \<leftarrow>
       for_up 0 (min (channels original_image) (channels modified_image))
         (\<lambda>ch st. do {
            original \<leftarrow> arr_get (chan original_image) ch;
            modified \<leftarrow> arr_get (chan modified_image) ch;
            scale_loop attr1 (ptr_of tmpa) ssim_map_out ch 0 original modified st
          })
         (Fin 0, Fin 0, None, h1);
     Some (Fin 1.0 / (ssim_sum / total0) - Fin 1.0, mo, attr1, h2)
   }"

section \<open>Notions used in the statements\<close>

text \<open>
  A row after a converter has stored \<open>f x\<close> at every index \<open>x\<close> below \<open>j\<close>, in
  increasing order.
\<close>

definition luma_written :: "(int \<Rightarrow> dbl) \<Rightarrow> int \<Rightarrow> dbl list \<Rightarrow> dbl list" where
  "luma_written f j r = fold (\<lambda>x r. r[x := f (int x)]) [0..<nat j] r"

text \<open>
  The bundle after \<^verbatim>\<open>dssim_set_scales(attr, 1, NULL)\<close>, and the one that
  \<^verbatim>\<open>dssim_create_attr\<close> returns.
\<close>

definition attr_one :: dssim_attr where
  "attr_one = attr0\<lparr>scale_weights := [Fin 1, Fin 0, Fin 0, Fin 0, Fin 0], num_scales := 1\<rparr>"

definition attr_default :: dssim_attr where
  "attr_default = attr0\<lparr>scale_weights :=
      [Fin (448 / 8668), Fin (2856 / 8668), Fin (3001 / 8668), Fin (2363 / 8668), Fin 0],
      num_scales := 4\<rparr>"

text \<open>
  Two stores for the examples: a 4x4 luma channel with a 4x5 one, and with a 5x4 one, each
  with its three planes; and the image of one channel.
\<close>

definition plane_chan :: "int \<Rightarrow> int \<Rightarrow> addr \<Rightarrow> dssim_chan" where
  "plane_chan w hh a = \<lparr>width = w, height = hh, img = Some a, mu = Some (a + 1),
     img_sq_blur = Some (a + 2), next_half = None, blur_size = 2, is_chroma = False\<rparr>"

definition heap_mismatch :: heap where
  "heap_mismatch = \<lparr>bufs = [10 \<mapsto> replicate 16 (Fin 1), 11 \<mapsto> replicate 16 (Fin 1),
       12 \<mapsto> replicate 16 (Fin 1), 20 \<mapsto> replicate 20 (Fin 1), 21 \<mapsto> replicate 20 (Fin 1),
       22 \<mapsto> replicate 20 (Fin 1)],
     chans = [0 \<mapsto> plane_chan 4 4 10, 1 \<mapsto> plane_chan 4 5 20],
     junk = (\<lambda>_ _. Fin 0), fresh = 30\<rparr>"

definition image_of :: "addr \<Rightarrow> dssim_image" where
  "image_of c = \<lparr>chan = [Some c, None, None], channels = 1\<rparr>"

definition heap_mismatch_w :: heap where
  "heap_mismatch_w = \<lparr>bufs = [10 \<mapsto> replicate 16 (Fin 1), 11 \<mapsto> replicate 16 (Fin 1),
       12 \<mapsto> replicate 16 (Fin 1), 20 \<mapsto> replicate 20 (Fin 1), 21 \<mapsto> replicate 20 (Fin 1),
       22 \<mapsto> replicate 20 (Fin 1)],
     chans = [0 \<mapsto> plane_chan 4 4 10, 1 \<mapsto> plane_chan 5 4 20],
     junk = (\<lambda>_ _. Fin 0), fresh = 30\<rparr>"

text \<open>
  The weight \<open>w(ch, s)\<close> of the specification, and the list of the sub-measures that
  \<^verbatim>\<open>dssim_compare\<close> compares: one entry \<open>(ch, s, w, mean)\<close> for each call of
  \<^verbatim>\<open>dssim_compare_channel\<close>, in the order of the loops, with the sums \<open>S\<close> and \<open>T\<close> over
  such a list. \<open>scale_step\<close> is one turn of the scale loop up to its \<^verbatim>\<open>break\<close>.
\<close>

definition weight_of :: "dssim_attr \<Rightarrow> bool \<Rightarrow> dbl \<Rightarrow> dbl" where
  "weight_of attr chroma sw = (if chroma then color_weight attr else Fin 1.0) * sw"

definition weighted_sum :: "(int \<times> int \<times> dbl \<times> dbl) list \<Rightarrow> dbl" where
  "weighted_sum tr = sum_list (map (\<lambda>(c, n, w, m). w * m) tr)"

definition weight_total :: "(int \<times> int \<times> dbl \<times> dbl) list \<Rightarrow> dbl" where
  "weight_total tr = sum_list (map (\<lambda>(c, n, w, m). w) tr)"

definition scale_step ::
  "dssim_attr \<Rightarrow> ptr \<Rightarrow> bool \<Rightarrow> int \<Rightarrow> int \<Rightarrow> addr option \<Rightarrow> addr option \<Rightarrow>
   addr option option \<Rightarrow> heap \<Rightarrow>
   (dbl \<times> dbl \<times> addr option option \<times> heap \<times> addr option \<times> addr option) option" where
  "scale_step attr tmpp ssim_map_out ch n original modified mo h = do {
     oc \<leftarrow> chan_at original h;
     sw \<leftarrow> arr_get (scale_weights attr) n;
     oa \<leftarrow> original;
     ma \<leftarrow> modified;
     (r, mo1, h1) \<leftarrow> dssim_compare_channel oa ma tmpp (ssim_map_out \<and> n = 0 \<and> ch = 0) h;
     o1 \<leftarrow> chan_at original h1;
     m1 \<leftarrow> chan_at modified h1;
     Some (weight_of attr (is_chroma oc) sw, r,
           (if ssim_map_out \<and> n = 0 \<and> ch = 0 then mo1 else mo), h1, next_half o1, next_half m1)
   }"

function scale_trace ::
  "dssim_attr \<Rightarrow> ptr \<Rightarrow> bool \<Rightarrow> int \<Rightarrow> int \<Rightarrow> addr option \<Rightarrow> addr option \<Rightarrow>
   addr option option \<times> heap \<Rightarrow> ((int \<times> int \<times> dbl \<times> dbl) list \<times> addr option option \<times> heap) option" where
  "scale_trace attr tmpp ssim_map_out ch n original modified st =
     (if n < num_scales attr then
        (case scale_step attr tmpp ssim_map_out ch n original modified (fst st) (snd st) of
           None \<Rightarrow> None
         | Some (w, r, mo, h, no, nm) \<Rightarrow>
             if no = None \<or> nm = None then Some ([(ch, n, w, r)], mo, h)
             else map_option (\<lambda>(tr, st'). ((ch, n, w, r) # tr, st'))
                    (scale_trace attr tmpp ssim_map_out ch (n + 1) no nm (mo, h)))
      else Some ([], st))"
  by pat_completeness auto
termination
  by (relation "measure (\<lambda>(attr, tmpp, smo, ch, n, original, modified, st). nat (num_scales attr - n))") auto

declare scale_trace.simps [simp del]

definition compare_trace ::
  "dssim_attr \<Rightarrow> dssim_image \<Rightarrow> dssim_image \<Rightarrow> bool \<Rightarrow> heap \<Rightarrow>
   ((int \<times> int \<times> dbl \<times> dbl) list \<times> addr option option \<times> dssim_attr \<times> heap) option" where
  "compare_trace attr original_image modified_image ssim_map_out h = do {
     c0p \<leftarrow> arr_get (chan original_image) 0;
     c0 \<leftarrow> chan_at c0p h;
     (tmpa, attr1, h1) \<leftarrow> dssim_get_tmp attr (float_bytes (width c0 * height c0)) h;
     (_, (tr, mo, h2)) \<leftarrow>
       for_up 0 (min (channels original_image) (channels modified_image))
         (\<lambda>ch st. do {
            original \<leftarrow> arr_get (chan original_image) ch;
            modified \<leftarrow> arr_get (chan modified_image) ch;
            (tr', st') \<leftarrow> scale_trace attr1 (ptr_of tmpa) ssim_map_out ch 0 original modified (snd st);
            Some (fst st @ tr', st')
          })
         ([], None, h1);
     Some (tr, mo, attr1, h2)
   }"

text \<open>
  \<open>frame S h h'\<close>: from \<open>h\<close> to \<open>h'\<close> only the contents of the float arrays at the
  addresses in \<open>S\<close> changed; no array changed its length, none was allocated or freed.
  \<open>ptrs ps\<close> are the addresses of the arrays that the pointers \<open>ps\<close> point into, and
  \<open>cb_ok\<close> holds of the two row callbacks the source passes: none, and \<^verbatim>\<open>square_row\<close>.
\<close>

definition frame :: "addr set \<Rightarrow> heap \<Rightarrow> heap \<Rightarrow> bool" where
  "frame S h h' \<longleftrightarrow>
     chans h' = chans h \<and> junk h' = junk h \<and> fresh h' = fresh h \<and>
     (\<forall>a. map_option length (bufs h' a) = map_option length (bufs h a)) \<and>
     (\<forall>a. a \<notin> S \<longrightarrow> bufs h' a = bufs h a)"

definition ptrs :: "ptr list \<Rightarrow> addr set" where
  "ptrs ps = {a. Some a \<in> fst ` set ps}"

definition cb_ok :: "(ptr \<Rightarrow> ptr \<Rightarrow> int \<Rightarrow> heap \<Rightarrow> heap option) option \<Rightarrow> bool" where
  "cb_ok callback \<longleftrightarrow> callback = None \<or> callback = Some square_row"

text \<open>
  A region of the store: channel structs \<open>C\<close> and float arrays \<open>B\<close>, closed under the
  pointers of the structs. \<open>changed_in C B h h'\<close>: outside the region nothing changed.
\<close>

definition region_closed :: "addr set \<Rightarrow> addr set \<Rightarrow> heap \<Rightarrow> bool" where
  "region_closed C B h \<longleftrightarrow>
     (\<forall>c\<in>C. \<forall>r. chans h c = Some r \<longrightarrow>
        (\<forall>a. next_half r = Some a \<longrightarrow> a \<in> C) \<and>
        (\<forall>b. img r = Some b \<or> mu r = Some b \<or> img_sq_blur r = Some b \<longrightarrow> b \<in> B))"

definition changed_in :: "addr set \<Rightarrow> addr set \<Rightarrow> heap \<Rightarrow> heap \<Rightarrow> bool" where
  "changed_in C B h h' \<longleftrightarrow>
     (\<forall>c. c \<notin> C \<longrightarrow> chans h' c = chans h c) \<and> (\<forall>b. b \<notin> B \<longrightarrow> bufs h' b = bufs h b)"

text \<open>The invariant of the comparison: changes stay in the region, and the region stays closed.\<close>

definition kept :: "addr set \<Rightarrow> addr set \<Rightarrow> heap \<Rightarrow> heap \<Rightarrow> bool" where
  "kept C B h h' \<longleftrightarrow> changed_in C B h h' \<and> region_closed C B h'"

text \<open>
  What an image is, to depth \<open>k\<close> of its pyramids: for each channel the structs along the
  \<^verbatim>\<open>next_half\<close> chain, each with the contents of its three planes.
\<close>

fun snapshot ::
  "nat \<Rightarrow> heap \<Rightarrow> addr option \<Rightarrow> (dssim_chan \<times> dbl list option \<times> dbl list option \<times> dbl list option) list" where
  "snapshot 0 h p = []"
| "snapshot (Suc k) h None = []"
| "snapshot (Suc k) h (Some c) =
     (case chans h c of
        None \<Rightarrow> []
      | Some r \<Rightarrow>
          (r, Option.bind (img r) (bufs h), Option.bind (mu r) (bufs h),
           Option.bind (img_sq_blur r) (bufs h)) # snapshot k h (next_half r))"

definition image_snapshot ::
  "nat \<Rightarrow> heap \<Rightarrow> dssim_image \<Rightarrow>
   (dssim_chan \<times> dbl list option \<times> dbl list option \<times> dbl list option) list list" where
  "image_snapshot k h im = map (snapshot k h) (chan im)"

text \<open>
  The float at index \<open>k\<close> of the array at \<open>a\<close>, for the statements about arrays; and an array
  of at least \<open>n\<close> floats at \<open>a\<close>.
\<close>

definition cell :: "heap \<Rightarrow> addr \<Rightarrow> int \<Rightarrow> dbl" where
  "cell h a k = the (bufs h a) ! nat k"

definition has_len :: "heap \<Rightarrow> addr \<Rightarrow> int \<Rightarrow> bool" where
  "has_len h a n = (case bufs h a of None \<Rightarrow> False | Some xs \<Rightarrow> n \<le> int (length xs))"

text \<open>
  One run of the blur on a line of \<open>w\<close> values: the mean of a value and its two neighbours,
  the line's ends taken twice.
\<close>

definition b1 :: "int \<Rightarrow> (int \<Rightarrow> 'a::{plus,one,inverse}) \<Rightarrow> int \<Rightarrow> 'a" where
  "b1 w f i = (f (max 0 (i - 1)) + f i + f (min (w - 1) (i + 1))) / (1 + 1 + 1)"

text \<open>What the row callback does to a value: nothing, or the square (\<^verbatim>\<open>square_row\<close>).\<close>

definition cb_fun :: "(ptr \<Rightarrow> ptr \<Rightarrow> int \<Rightarrow> heap \<Rightarrow> heap option) option \<Rightarrow> 'a::times \<Rightarrow> 'a" where
  "cb_fun callback x = (case callback of None \<Rightarrow> x | Some _ \<Rightarrow> x * x)"

text \<open>
  The invariant of \<^verbatim>\<open>transpose\<close>: the cells \<open>(j, i)\<close> of \<open>dn\<close> hold the transposed values, and
  only \<open>B\<close> has changed.
\<close>

definition copied :: "heap \<Rightarrow> heap \<Rightarrow> addr \<Rightarrow> addr \<Rightarrow> int \<Rightarrow> int \<Rightarrow> (int \<Rightarrow> int \<Rightarrow> bool) \<Rightarrow> bool" where
  "copied h u A B w hh dn \<longleftrightarrow> frame {B} h u \<and>
     (\<forall>j i. 0 \<le> j \<and> j < hh \<and> 0 \<le> i \<and> i < w \<and> dn j i \<longrightarrow> cell u B (i * hh + j) = cell h A (j * w + i))"

text \<open>
  The result of \<^verbatim>\<open>blur\<close> at row \<open>j\<close> and column \<open>i\<close> of a plane \<open>f\<close> of \<open>w\<close> columns and \<open>hh\<close>
  rows: \<open>n\<close> runs along each row, then \<open>n\<close> runs along each column.
\<close>

definition blur2 :: "int \<Rightarrow> int \<Rightarrow> nat \<Rightarrow> (int \<Rightarrow> int \<Rightarrow> 'a) \<Rightarrow> int \<Rightarrow> int \<Rightarrow> 'a::{plus,one,inverse}" where
  "blur2 w hh n f j i = (b1 hh ^^ n) (\<lambda>m. (b1 w ^^ n) (f m) i) j"

text \<open>
  The index of structural similarity of one pixel, as the specification words it, from the
  two means, the two blurred squares and the blurred product.
\<close>

definition ssim_formula :: "dbl \<Rightarrow> dbl \<Rightarrow> dbl \<Rightarrow> dbl \<Rightarrow> dbl \<Rightarrow> dbl" where
  "ssim_formula mu1 mu2 img1_sq_blur img2_sq_blur img1_img2_blur =
     (let c1 = Fin 0.0001;
          c2 = Fin 0.0009;
          sigma1_sq = img1_sq_blur - mu1 * mu1;
          sigma2_sq = img2_sq_blur - mu2 * mu2;
          sigma12 = img1_img2_blur - mu1 * mu2
      in ((Fin 2 * (mu1 * mu2) + c1) * (Fin 2 * sigma12 + c2)) /
         ((mu1 * mu1 + mu2 * mu2 + c1) * (sigma1_sq + sigma2_sq + c2)))"

text \<open>
  A store with two planes of 4 by 4 pixels, each with its mean and its blurred square, and a
  scratch block of 16 floats.
\<close>

definition heap_pair :: heap where
  "heap_pair = \<lparr>bufs = [10 \<mapsto> replicate 16 (Fin 1), 11 \<mapsto> replicate 16 (Fin 1),
       12 \<mapsto> replicate 16 (Fin 1), 20 \<mapsto> replicate 16 (Fin 1), 21 \<mapsto> replicate 16 (Fin 1),
       22 \<mapsto> replicate 16 (Fin 1), 30 \<mapsto> replicate 16 (Fin 0)],
     chans = [0 \<mapsto> plane_chan 4 4 10, 1 \<mapsto> plane_chan 4 4 20],
     junk = (\<lambda>_ _. Fin 0), fresh = 40\<rparr>"

text \<open>
  The pyramid of a channel as \<^verbatim>\<open>next_half\<close> links it, down to \<open>k\<close> levels: the address of each
  struct with its width and height.
\<close>

fun levels :: "nat \<Rightarrow> heap \<Rightarrow> addr option \<Rightarrow> (addr \<times> int \<times> int) list" where
  "levels 0 h p = []"
| "levels (Suc k) h None = []"
| "levels (Suc k) h (Some x) =
     (case chans h x of
        None \<Rightarrow> []
      | Some c \<Rightarrow> (x, width c, height c) # levels k h (next_half c))"

text \<open>
  A channel as \<^verbatim>\<open>create_chan\<close> leaves it, with its pixels at \<open>a\<close>; three stores with one such
  channel at address 0, of 8 by 8, of 1 by 1 and of 0 by 0 pixels, and the scratch block
  of \<open>width * height\<close> floats that \<^verbatim>\<open>dssim_create_image\<close> asks for at address 30.
\<close>

definition fresh_chan :: "int \<Rightarrow> int \<Rightarrow> addr \<Rightarrow> dssim_chan" where
  "fresh_chan w hh a = \<lparr>width = w, height = hh, img = Some a, mu = None, img_sq_blur = None,
     next_half = None, blur_size = 2, is_chroma = False\<rparr>"

definition heap_8x8 :: heap where
  "heap_8x8 = \<lparr>bufs = [10 \<mapsto> replicate 64 (Fin 1), 30 \<mapsto> replicate 64 (Fin 0)],
     chans = [0 \<mapsto> fresh_chan 8 8 10], junk = (\<lambda>_ _. Fin 0), fresh = 40\<rparr>"

definition heap_1x1 :: heap where
  "heap_1x1 = \<lparr>bufs = [10 \<mapsto> [Fin 1], 30 \<mapsto> [Fin 0]],
     chans = [0 \<mapsto> fresh_chan 1 1 10], junk = (\<lambda>_ _. Fin 0), fresh = 40\<rparr>"

definition heap_0x0 :: heap where
  "heap_0x0 = \<lparr>bufs = [10 \<mapsto> [], 30 \<mapsto> []],
     chans = [0 \<mapsto> fresh_chan 0 0 10], junk = (\<lambda>_ _. Fin 0), fresh = 40\<rparr>"

text \<open>
  A level of a pyramid as \<^verbatim>\<open>dssim_preprocess_channel\<close> leaves it: at least 4 by 4 pixels,
  blur size at least 2, the three planes allocated, the pixels finite numbers, the plane
  \<^verbatim>\<open>mu\<close> the blur of the pixels and the plane \<^verbatim>\<open>img_sq_blur\<close> the blur of their squares.
  Two levels hold the same pixels when they agree on the dimensions, the blur size and every
  pixel.
\<close>

definition is_fin :: "dbl \<Rightarrow> bool" where
  "is_fin x = (case x of Fin _ \<Rightarrow> True | _ \<Rightarrow> False)"

definition planes3 :: "dssim_chan \<Rightarrow> addr list" where
  "planes3 c = (case (img c, mu c, img_sq_blur c) of (Some a, Some m, Some q) \<Rightarrow> [a, m, q] | _ \<Rightarrow> [])"

definition level_ok :: "heap \<Rightarrow> dssim_chan \<Rightarrow> bool" where
  "level_ok h c =
     (case (img c, mu c, img_sq_blur c) of
        (Some a, Some m, Some q) \<Rightarrow>
          4 \<le> width c \<and> 4 \<le> height c \<and> 2 \<le> blur_size c \<and>
          has_len h a (width c * height c) \<and> has_len h m (width c * height c) \<and>
          has_len h q (width c * height c) \<and>
          (\<forall>k\<in>{0..<width c * height c}. is_fin (cell h a k)) \<and>
          (\<forall>j\<in>{0..<height c}. \<forall>i\<in>{0..<width c}.
             cell h m (j * width c + i) =
               blur2 (width c) (height c) (nat (blur_size c)) (\<lambda>r s. cell h a (r * width c + s)) j i \<and>
             cell h q (j * width c + i) =
               blur2 (width c) (height c) (nat (blur_size c))
                 (\<lambda>r s. cell h a (r * width c + s) * cell h a (r * width c + s)) j i)
      | _ \<Rightarrow> False)"

definition same_pixels :: "heap \<Rightarrow> dssim_chan \<Rightarrow> dssim_chan \<Rightarrow> bool" where
  "same_pixels h oc mc =
     (width mc = width oc \<and> height mc = height oc \<and> blur_size mc = blur_size oc \<and>
      (case (img oc, img mc) of
         (Some a, Some b) \<Rightarrow> (\<forall>k\<in>{0..<width oc * height oc}. cell h b k = cell h a k)
       | _ \<Rightarrow> False))"

text \<open>
  Two pyramids that hold the same pixels, level by level, down to \<open>k\<close> levels or to the end
  of the shorter one; every level with at most \<open>N\<close> pixels. \<open>C\<close> and \<open>B\<close> are the structs
  and the blocks that the comparison has changed before it comes to these levels: the
  levels are apart from them, and the result is \<open>C\<close> and \<open>B\<close> with the structs and the planes
  of the second pyramid added, which the comparison of these levels changes.
\<close>

fun twins ::
  "nat \<Rightarrow> heap \<Rightarrow> int \<Rightarrow> addr set \<Rightarrow> addr set \<Rightarrow> addr option \<Rightarrow> addr option \<Rightarrow>
   (addr set \<times> addr set) option" where
  "twins 0 h N C B po pm = Some (C, B)"
| "twins (Suc k) h N C B po pm =
     (case (po, pm) of
        (Some oa, Some ma) \<Rightarrow>
          (case (chans h oa, chans h ma) of
             (Some oc, Some mc) \<Rightarrow>
               if oa \<noteq> ma \<and> oa \<notin> C \<and> ma \<notin> C \<and> level_ok h oc \<and> level_ok h mc \<and>
                  same_pixels h oc mc \<and> width oc * height oc \<le> N \<and>
                  distinct (planes3 oc @ planes3 mc) \<and> set (planes3 oc @ planes3 mc) \<inter> B = {}
               then (if next_half oc = None \<or> next_half mc = None
                     then Some (insert ma C, set (planes3 mc) \<union> B)
                     else twins k h N (insert ma C) (set (planes3 mc) \<union> B) (next_half oc) (next_half mc))
               else None
           | _ \<Rightarrow> None)
      | _ \<Rightarrow> None)"

text \<open>
  The channels that \<^verbatim>\<open>dssim_compare\<close> pairs, and twin pyramids at each pair, the comparison
  of one channel changing nothing of the next ones.
\<close>

definition chan_pairs :: "dssim_image \<Rightarrow> dssim_image \<Rightarrow> (addr option \<times> addr option) list" where
  "chan_pairs a b = take (nat (min (channels a) (channels b))) (zip (chan a) (chan b))"

fun twin_chans ::
  "nat \<Rightarrow> heap \<Rightarrow> int \<Rightarrow> addr set \<Rightarrow> addr set \<Rightarrow> (addr option \<times> addr option) list \<Rightarrow>
   (addr set \<times> addr set) option" where
  "twin_chans K h N C B [] = Some (C, B)"
| "twin_chans K h N C B (p # ps) =
     (case twins K h N C B (fst p) (snd p) of
        None \<Rightarrow> None
      | Some R \<Rightarrow> twin_chans K h N (fst R) (snd R) ps)"

text \<open>
  The curve that \<^verbatim>\<open>rgb_to_lab\<close> applies to \<^verbatim>\<open>fx\<close>, \<^verbatim>\<open>fy\<close> and \<^verbatim>\<open>fz\<close>, on the real numbers: the
  cube root less \<open>16 / 116\<close> above \<^verbatim>\<open>epsilon\<close>, the line of slope \<^verbatim>\<open>k\<close> below.
\<close>

definition lab_f :: "real \<Rightarrow> real" where
  "lab_f t = (if 216 / 24389 < t then t powr (1 / 3) - 16 / 116 else 24389 / 27 / 116 * t)"

section \<open>Properties of the loops\<close>

lemma for_up_done: "\<not> i < n \<Longrightarrow> for_up i n body s = Some (i, s)"
  by (simp add: for_up.simps)

lemma for_up_step:
  "i < n \<Longrightarrow> for_up i n body s =
     (case body i s of None \<Rightarrow> None | Some s' \<Rightarrow> for_up (i + 1) n body s')"
  by (subst for_up.simps) simp

lemma for_up4_done: "\<not> i < n \<Longrightarrow> for_up4 i n body s = Some (i, s)"
  by (simp add: for_up4.simps)

lemma for_up4_step:
  "i < n \<Longrightarrow> for_up4 i n body s =
     (case body i s of None \<Rightarrow> None | Some s' \<Rightarrow> for_up4 (i + 4) n body s')"
  by (subst for_up4.simps) simp

text \<open>An invariant of the body is an invariant of the loop.\<close>

lemma for_up_inv:
  assumes "for_up i n body s = Some (k, t)"
    and "P s"
    and "\<And>j u v. i \<le> j \<Longrightarrow> j < n \<Longrightarrow> P u \<Longrightarrow> body j u = Some v \<Longrightarrow> P v"
  shows "P t"
  using assms
proof (induction i n body s rule: for_up.induct)
  case (1 i n body s)
  show ?case
  proof (cases "i < n")
    case False
    with "1.prems" show ?thesis by (simp add: for_up_done)
  next
    case True
    from True "1.prems"(1) obtain s' where b: "body i s = Some s'"
      and r: "for_up (i + 1) n body s' = Some (k, t)"
      by (auto simp: for_up_step split: option.splits)
    have p: "P s'" using "1.prems"(3) [of i s s'] True "1.prems"(2) b by simp
    show ?thesis
    proof (rule "1.IH" [OF True b r p])
      fix j u v
      assume "i + 1 \<le> j" "j < n" "P u" "body j u = Some v"
      then show "P v" using "1.prems"(3) [of j u v] by simp
    qed
  qed
qed

text \<open>A body that never fails on states satisfying an invariant makes the loop return.\<close>

lemma for_up_total:
  assumes "P s"
    and "\<And>j u. i \<le> j \<Longrightarrow> j < n \<Longrightarrow> P u \<Longrightarrow> \<exists>v. body j u = Some v \<and> P v"
  shows "\<exists>t. for_up i n body s = Some (max i n, t) \<and> P t"
  using assms
proof (induction i n body s rule: for_up.induct)
  case (1 i n body s)
  show ?case
  proof (cases "i < n")
    case False
    with "1.prems" show ?thesis by (simp add: for_up_done max_def)
  next
    case True
    from "1.prems"(2) [of i s] True "1.prems"(1) obtain s' where b: "body i s = Some s'" and p: "P s'"
      by auto
    have "\<exists>t. for_up (i + 1) n body s' = Some (max (i + 1) n, t) \<and> P t"
    proof (rule "1.IH" [OF True b p])
      fix j u
      assume "i + 1 \<le> j" "j < n" "P u"
      then show "\<exists>v. body j u = Some v \<and> P v" using "1.prems"(2) [of j u] by simp
    qed
    then show ?thesis using True b by (simp add: for_up_step max_def)
  qed
qed

section \<open>The number of scales\<close>

lemma set_scales_copy_num:
  "set_scales_copy ws j u = Some v \<Longrightarrow> num_scales (fst v) = num_scales (fst u)"
  by (auto simp: set_scales_copy_def split: option.splits)

lemma set_scales_div_num:
  "set_scales_div sm j u = Some v \<Longrightarrow> num_scales v = num_scales u"
  by (auto simp: set_scales_div_def split: option.splits)

lemma dssim_set_scales_num:
  assumes "dssim_set_scales attr n w = Some attr'"
  shows "num_scales attr' = min 5 n"
proof -
  let ?a1 = "attr\<lparr>num_scales := min MAX_SCALES n\<rparr>"
  let ?ws = "case w of None \<Rightarrow> default_weights | Some ws \<Rightarrow> ws"
  from assms obtain k attr2 sm k' where
    l1: "for_up 0 (num_scales ?a1) (set_scales_copy ?ws) (?a1, Fin 0) = Some (k, (attr2, sm))"
    and l2: "for_up 0 (num_scales attr2) (set_scales_div sm) attr2 = Some (k', attr')"
    by (auto simp: dssim_set_scales_def Let_def split: option.splits prod.splits)
  have "num_scales (fst (attr2, sm)) = min 5 n"
    by (rule for_up_inv [OF l1, where P = "\<lambda>st. num_scales (fst st) = min 5 n"])
      (simp_all add: MAX_SCALES_def set_scales_copy_num)
  then have a2: "num_scales attr2 = min 5 n" by simp
  show ?thesis
    by (rule for_up_inv [OF l2, where P = "\<lambda>a. num_scales a = min 5 n"])
      (simp_all add: a2 set_scales_div_num)
qed

lemma set_scales_copy_total:
  assumes "0 \<le> j" "j < int (length ws)" "j < int (length (scale_weights (fst u)))"
  shows "\<exists>v. set_scales_copy ws j u = Some v \<and>
    length (scale_weights (fst v)) = length (scale_weights (fst u)) \<and>
    num_scales (fst v) = num_scales (fst u)"
  using assms by (simp add: set_scales_copy_def arr_get_def arr_set_def)

lemma set_scales_div_total:
  assumes "0 \<le> j" "j < int (length (scale_weights u))"
  shows "\<exists>v. set_scales_div sm j u = Some v \<and>
    length (scale_weights v) = length (scale_weights u) \<and> num_scales v = num_scales u"
  using assms by (simp add: set_scales_div_def arr_get_def arr_set_def)

lemma dssim_set_scales_total:
  assumes len: "length (scale_weights attr) = 5"
    and ws: "w = None \<or> (\<exists>ws. w = Some ws \<and> min 5 n \<le> int (length ws))"
  shows "\<exists>attr'. dssim_set_scales attr n w = Some attr'"
proof -
  let ?a1 = "attr\<lparr>num_scales := min MAX_SCALES n\<rparr>"
  let ?ws = "case w of None \<Rightarrow> default_weights | Some ws \<Rightarrow> ws"
  let ?P = "\<lambda>st :: dssim_attr \<times> dbl. length (scale_weights (fst st)) = 5 \<and> num_scales (fst st) = min 5 n"
  have wl: "min 5 n \<le> int (length ?ws)"
    using ws by (auto simp: default_weights_def)
  have "\<exists>t. for_up 0 (num_scales ?a1) (set_scales_copy ?ws) (?a1, Fin 0)
      = Some (max 0 (num_scales ?a1), t) \<and> ?P t"
  proof (rule for_up_total [where P = ?P])
    show "?P (?a1, Fin 0)" using len by (simp add: MAX_SCALES_def)
  next
    fix j u
    assume j: "0 \<le> j" "j < num_scales ?a1" and u: "?P u"
    have "j < int (length ?ws)" "j < int (length (scale_weights (fst u)))"
      using j u wl by (auto simp: MAX_SCALES_def min_def split: if_splits)
    from set_scales_copy_total [OF j(1) this] u
    show "\<exists>v. set_scales_copy ?ws j u = Some v \<and> ?P v" by auto
  qed
  then obtain attr2 sm where
    l1: "for_up 0 (num_scales ?a1) (set_scales_copy ?ws) (?a1, Fin 0)
      = Some (max 0 (num_scales ?a1), (attr2, sm))"
    and p2: "length (scale_weights attr2) = 5" "num_scales attr2 = min 5 n"
    by auto
  let ?Q = "\<lambda>a :: dssim_attr. length (scale_weights a) = 5 \<and> num_scales a = min 5 n"
  have "\<exists>t. for_up 0 (num_scales attr2) (set_scales_div sm) attr2
      = Some (max 0 (num_scales attr2), t) \<and> ?Q t"
  proof (rule for_up_total [where P = ?Q])
    show "?Q attr2" using p2 by simp
  next
    fix j u
    assume j: "0 \<le> j" "j < num_scales attr2" and u: "?Q u"
    have "j < int (length (scale_weights u))" using j u p2 by simp
    from set_scales_div_total [OF j(1) this, of sm] u
    show "\<exists>v. set_scales_div sm j u = Some v \<and> ?Q v" by auto
  qed
  then show ?thesis
    using l1 by (auto simp: dssim_set_scales_def Let_def)
qed

text \<open>
  Claim C7, as the code has it: \<^verbatim>\<open>dssim_set_scales(attr, n, w)\<close> returns whenever the weight
  array is null or holds at least \<open>min 5 n\<close> weights, and it stores \<open>min 5 n\<close> as the
  number of scales. The stored number is at most 5 for every \<open>n\<close>; it is at least 1
  exactly when \<open>n\<close> is (nothing clamps it from below).
\<close>

theorem dssim_set_scales_num_scales:
  assumes "length (scale_weights attr) = 5"
    and "w = None \<or> (\<exists>ws. w = Some ws \<and> min 5 n \<le> int (length ws))"
  shows "\<exists>attr'. dssim_set_scales attr n w = Some attr' \<and> num_scales attr' = min 5 n \<and>
    num_scales attr' \<le> 5 \<and> (1 \<le> num_scales attr' \<longleftrightarrow> 1 \<le> n)"
proof -
  from dssim_set_scales_total [OF assms] obtain attr' where
    r: "dssim_set_scales attr n w = Some attr'" by blast
  from dssim_set_scales_num [OF r] have "num_scales attr' = min 5 n" .
  then show ?thesis using r by auto
qed

theorem dssim_set_scales_num_scales_witness:
  "length (scale_weights attr0) = 5 \<and>
   (\<exists>attr'. dssim_set_scales attr0 7 (Some (replicate 5 (Fin 1))) = Some attr' \<and>
      num_scales attr' = 5)"
proof -
  have l: "length (scale_weights attr0) = 5" by (simp add: attr0_def)
  have w: "Some (replicate 5 (Fin 1)) = None \<or>
    (\<exists>ws. Some (replicate 5 (Fin 1)) = Some ws \<and> min 5 7 \<le> int (length ws))" by simp
  from dssim_set_scales_num_scales [OF l w] show ?thesis using l by auto
qed

text \<open>
  The claim as written fails for \<open>n = 0\<close>: the stored number of scales is then 0, below
  the range [1, 5].
\<close>

theorem dssim_set_scales_zero_counterexample:
  "map_option num_scales (dssim_set_scales attr0 0 None) = Some 0"
  by (simp add: dssim_set_scales_def attr0_def Let_def MAX_SCALES_def for_up_done)

section \<open>The gray path and the RGB path\<close>

lemma for_up_total_idx:
  assumes "P i s"
    and "\<And>j u. i \<le> j \<Longrightarrow> j < n \<Longrightarrow> P j u \<Longrightarrow> \<exists>v. body j u = Some v \<and> P (j + 1) v"
  shows "\<exists>t. for_up i n body s = Some (max i n, t) \<and> P (max i n) t"
  using assms
proof (induction i n body s rule: for_up.induct)
  case (1 i n body s)
  show ?case
  proof (cases "i < n")
    case False
    with "1.prems" show ?thesis by (simp add: for_up_done max_def)
  next
    case True
    from "1.prems"(2) [of i s] True "1.prems"(1) obtain s' where b: "body i s = Some s'" and p: "P (i + 1) s'"
      by auto
    have "\<exists>t. for_up (i + 1) n body s' = Some (max (i + 1) n, t) \<and> P (max (i + 1) n) t"
    proof (rule "1.IH" [OF True b p])
      fix j u
      assume "i + 1 \<le> j" "j < n" "P j u"
      then show "\<exists>v. body j u = Some v \<and> P (j + 1) v" using "1.prems"(2) [of j u] by simp
    qed
    then show ?thesis using True b by (simp add: for_up_step max_def)
  qed
qed

lemma set_gamma_total:
  assumes "length lut = 256"
  shows "\<exists>t. set_gamma pow lut g = Some t \<and> length t = 256"
proof -
  let ?body = "\<lambda>i t. arr_set t i (pow (of_i i / Fin 255.0) (Fin 1.0 / g))"
  have "\<exists>t. for_up 0 256 ?body lut = Some (max 0 256, t) \<and> length t = 256"
    by (rule for_up_total_idx [where P = "\<lambda>_ t. length t = 256"])
      (simp_all add: assms arr_set_def)
  then show ?thesis by (auto simp: set_gamma_def)
qed

lemma uint_byte_index: "0 \<le> j \<Longrightarrow> j < 256 \<Longrightarrow> uint (word_of_int j :: 8 word) = j"
  by (simp add: uint_word_of_int)

lemma rgb_to_lab_gray_total:
  assumes "length lut = 256"
  shows "\<exists>px. rgb_to_lab powf lut v v v = Some px"
proof -
  have "uint v < 256" using uint_bounded [of v] by simp
  then obtain r where "arr_get lut (uint v) = Some r"
    using assms by (simp add: arr_get_def)
  then show ?thesis by (simp add: rgb_to_lab_def Let_def)
qed

lemma rgb_to_lab_gray_cong:
  assumes "arr_get t (uint v) = arr_get lut (uint v)"
  shows "rgb_to_lab powf t v v v = rgb_to_lab powf lut v v v"
  using assms by (simp add: rgb_to_lab_def)

lemma arr_get_upd_other: "0 \<le> j \<Longrightarrow> k \<noteq> j \<Longrightarrow> arr_get (xs[nat j := v]) k = arr_get xs k"
  by (auto simp: arr_get_def nth_list_update)

lemma arr_get_upd_same: "0 \<le> j \<Longrightarrow> j < int (length xs) \<Longrightarrow> arr_get (xs[nat j := v]) j = Some v"
  by (simp add: arr_get_def)

lemma gray_init_total:
  assumes len: "length lut = 256"
  shows "\<exists>t. convert_image_row_gray_init powf lut = Some t \<and> length t = 256 \<and>
    (\<forall>v :: 8 word. \<exists>px. rgb_to_lab powf lut v v v = Some px \<and> arr_get t (uint v) = Some (lab_l px))"
proof -
  let ?P = "\<lambda>j t. length t = 256 \<and>
    (\<forall>k. 0 \<le> k \<and> k < j \<and> k < 256 \<longrightarrow>
       (\<exists>px. rgb_to_lab powf lut (word_of_int k) (word_of_int k) (word_of_int k) = Some px \<and>
          arr_get t k = Some (lab_l px))) \<and>
    (\<forall>k. j \<le> k \<and> k < 256 \<longrightarrow> arr_get t k = arr_get lut k)"
  have "\<exists>t. for_up 0 256 (gray_init_step powf) lut = Some (max 0 256, t) \<and> ?P (max 0 256) t"
  proof (rule for_up_total_idx [where P = ?P])
    show "?P 0 lut" using len by auto
  next
    fix j u
    assume j: "0 \<le> j" "j < 256" and u: "?P j u"
    let ?w = "word_of_int j :: 8 word"
    have uw: "uint ?w = j" using j by (rule uint_byte_index)
    have same: "arr_get u (uint ?w) = arr_get lut (uint ?w)" using u j uw by simp
    obtain px where px: "rgb_to_lab powf lut ?w ?w ?w = Some px"
      using rgb_to_lab_gray_total [OF len] by blast
    then have pxu: "rgb_to_lab powf u ?w ?w ?w = Some px"
      using rgb_to_lab_gray_cong [OF same] by simp
    let ?v = "u[nat j := lab_l px]"
    have step: "gray_init_step powf j u = Some ?v"
      using pxu u j by (simp add: gray_init_step_def arr_set_def)
    have "?P (j + 1) ?v"
    proof (intro conjI allI impI)
      show "length ?v = 256" using u by simp
    next
      fix k
      assume k: "0 \<le> k \<and> k < j + 1 \<and> k < 256"
      show "\<exists>px. rgb_to_lab powf lut (word_of_int k) (word_of_int k) (word_of_int k) = Some px \<and>
          arr_get ?v k = Some (lab_l px)"
      proof (cases "k = j")
        case True
        then show ?thesis using px u j by (simp add: arr_get_upd_same)
      next
        case False
        then have "k < j" using k by simp
        then obtain q where "rgb_to_lab powf lut (word_of_int k) (word_of_int k) (word_of_int k) = Some q"
          "arr_get u k = Some (lab_l q)" using u k by blast
        then show ?thesis using False j by (simp add: arr_get_upd_other)
      qed
    next
      fix k
      assume k: "j + 1 \<le> k \<and> k < 256"
      then have "arr_get u k = arr_get lut k" using u by simp
      then show "arr_get ?v k = arr_get lut k" using k j by (simp add: arr_get_upd_other)
    qed
    then show "\<exists>v. gray_init_step powf j u = Some v \<and> ?P (j + 1) v" using step by blast
  qed
  then obtain t where t: "for_up 0 256 (gray_init_step powf) lut = Some (256, t)" and p: "?P 256 t"
    by auto
  have "\<exists>px. rgb_to_lab powf lut v v v = Some px \<and> arr_get t (uint v) = Some (lab_l px)" for v :: "8 word"
  proof -
    have b: "0 \<le> uint v \<and> uint v < 256 \<and> uint v < 256" using uint_bounded [of v] by simp
    from p b have "\<exists>px. rgb_to_lab powf lut (word_of_int (uint v)) (word_of_int (uint v)) (word_of_int (uint v)) = Some px \<and>
          arr_get t (uint v) = Some (lab_l px)" by blast
    then show ?thesis by simp
  qed
  then show ?thesis using t p by (simp add: convert_image_row_gray_init_def)
qed

lemma chan_store_total:
  assumes "0 \<le> c" "c < int (length ch)" "0 \<le> x" "x < int (length (ch ! nat c))"
  shows "chan_store ch c x v = Some (ch[nat c := (ch ! nat c)[nat x := v]])"
  using assms by (simp add: chan_store_def arr_get_def arr_set_def)

lemma luma_written_step: "0 \<le> j \<Longrightarrow> luma_written f (j + 1) r = (luma_written f j r)[nat j := f j]"
proof -
  assume j: "0 \<le> j"
  then have "[0..<nat (j + 1)] = [0..<nat j] @ [nat j]"
    by (simp add: nat_add_distrib)
  then show ?thesis using j by (simp add: luma_written_def)
qed

lemma length_luma_written: "length (luma_written f j r) = length r"
proof -
  have "length (fold (\<lambda>x r. r[x := f (int x)]) xs r) = length r" for xs
    by (induction xs arbitrary: r) simp_all
  then show ?thesis by (simp add: luma_written_def)
qed

lemma luma_loop:
  assumes body: "\<And>x ch. 0 \<le> x \<Longrightarrow> x < w \<Longrightarrow> length ch = n \<Longrightarrow>
      (\<forall>c<n. length (ch ! c) = lens c) \<Longrightarrow>
      \<exists>ch'. body x ch = Some ch' \<and> length ch' = n \<and> (\<forall>c<n. length (ch' ! c) = lens c) \<and>
        ch' ! 0 = (ch ! 0)[nat x := f x]"
    and init: "length ch0 = n" "\<forall>c<n. length (ch0 ! c) = lens c"
  shows "\<exists>ch. for_up 0 w body ch0 = Some (max 0 w, ch) \<and> ch ! 0 = luma_written f (max 0 w) (ch0 ! 0)"
proof -
  let ?P = "\<lambda>j ch. length ch = n \<and> (\<forall>c<n. length (ch ! c) = lens c) \<and>
    ch ! 0 = luma_written f j (ch0 ! 0)"
  have "\<exists>ch. for_up 0 w body ch0 = Some (max 0 w, ch) \<and> ?P (max 0 w) ch"
  proof (rule for_up_total_idx [where P = ?P])
    show "?P 0 ch0" using init by (simp add: luma_written_def)
  next
    fix j u
    assume j: "0 \<le> j" "j < w" and u: "?P j u"
    from body [OF j] u obtain ch' where
      c: "body j u = Some ch'" "length ch' = n" "\<forall>c<n. length (ch' ! c) = lens c"
        "ch' ! 0 = (u ! 0)[nat j := f j]"
      by blast
    have "ch' ! 0 = luma_written f (j + 1) (ch0 ! 0)"
      using c(4) u j by (simp add: luma_written_step)
    then show "\<exists>v. body j u = Some v \<and> ?P (j + 1) v" using c by blast
  qed
  then show ?thesis by blast
qed

lemma quad_row_nth:
  "x < length row \<Longrightarrow> k < 3 \<Longrightarrow> concat (map (\<lambda>v. [v, v, v, al]) row) ! (4 * x + k) = row ! x"
proof (induction row arbitrary: x)
  case Nil
  then show ?case by simp
next
  case (Cons a row)
  show ?case
  proof (cases x)
    case 0
    then show ?thesis using Cons.prems(2) by (cases k; simp add: nth_Cons')
  next
    case (Suc y)
    then have "concat (map (\<lambda>v. [v, v, v, al]) (a # row)) ! (4 * x + k)
        = concat (map (\<lambda>v. [v, v, v, al]) row) ! (4 * y + k)" by simp
    then show ?thesis using Cons.IH [of y] Cons.prems Suc by simp
  qed
qed

lemma length_quad_row: "length (concat (map (\<lambda>v. [v, v, v, al]) row)) = 4 * length row"
  by (induction row) simp_all

lemma gray_px_step:
  assumes lut: "\<forall>v :: 8 word. arr_get glut (uint v) = Some (g v)"
    and row: "w \<le> int (length row)"
    and x: "0 \<le> x" "x < w"
    and ch: "length ch = 1" "\<forall>c<(1::nat). length (ch ! c) = lens c" "w \<le> int (lens 0)"
  shows "\<exists>ch'. gray_px glut row x ch = Some ch' \<and> length ch' = 1 \<and>
    (\<forall>c<(1::nat). length (ch' ! c) = lens c) \<and> ch' ! 0 = (ch ! 0)[nat x := g (row ! nat x)]"
proof -
  have r: "arr_get row x = Some (row ! nat x)" using x row by (simp add: arr_get_def)
  have "chan_store ch 0 x (g (row ! nat x)) = Some (ch[nat 0 := (ch ! nat 0)[nat x := g (row ! nat x)]])"
    by (rule chan_store_total) (use x ch in simp_all)
  then show ?thesis using r lut ch by (simp add: gray_px_def)
qed

lemma rgb_px_step:
  assumes lut: "length lut = 256"
    and row: "4 * x + 2 < int (length row)"
    and x: "0 \<le> x" "x < w"
    and ch: "length ch = 3" "\<forall>c<(3::nat). length (ch ! c) = lens c"
      "w \<le> int (lens 0)" "w \<le> int (lens 1)" "w \<le> int (lens 2)"
    and same: "row ! nat (4 * x) = v" "row ! nat (4 * x + 1) = v" "row ! nat (4 * x + 2) = v"
    and px: "rgb_to_lab powf lut v v v = Some px"
  shows "\<exists>ch'. rgb_px powf lut row 3 x ch = Some ch' \<and> length ch' = 3 \<and>
    (\<forall>c<(3::nat). length (ch' ! c) = lens c) \<and> ch' ! 0 = (ch ! 0)[nat x := lab_l px]"
proof -
  have r: "arr_get row (4 * x) = Some v" "arr_get row (4 * x + 1) = Some v"
    "arr_get row (4 * x + 2) = Some v"
    using x row same by (simp_all add: arr_get_def)
  let ?c0 = "ch[nat 0 := (ch ! nat 0)[nat x := lab_l px]]"
  let ?c1 = "?c0[nat 1 := (?c0 ! nat 1)[nat x := lab_A px]]"
  let ?c2 = "?c1[nat 2 := (?c1 ! nat 2)[nat x := lab_b px]]"
  have l: "length (ch ! 0) = lens 0" "length (ch ! 1) = lens 1" "length (ch ! 2) = lens 2"
    using ch(2) by simp_all
  have s0: "chan_store ch 0 x (lab_l px) = Some ?c0"
    by (rule chan_store_total) (use x ch l in simp_all)
  have s1: "chan_store ?c0 1 x (lab_A px) = Some ?c1"
    by (rule chan_store_total) (use x ch l in simp_all)
  have s2: "chan_store ?c1 2 x (lab_b px) = Some ?c2"
    by (rule chan_store_total) (use x ch l in simp_all)
  have res: "rgb_px powf lut row 3 x ch = Some ?c2"
    using r px s0 s1 s2 by (simp add: rgb_px_def)
  have "length (?c2 ! c) = lens c" if "c < 3" for c
  proof -
    from that have "c = 0 \<or> c = 1 \<or> c = 2" by arith
    then show ?thesis using ch(1) l by (elim disjE) simp_all
  qed
  then have "\<forall>c<(3::nat). length (?c2 ! c) = lens c" by blast
  moreover have "?c2 ! 0 = (ch ! 0)[nat x := lab_l px]" using ch by simp
  ultimately show ?thesis using res ch by simp
qed

text \<open>
  What the two paths share. For every gamma and every row of gray bytes, the luma row that
  the GRAY path writes (table set from the gamma, rewritten by
  \<^verbatim>\<open>convert_image_row_gray_init\<close>, then one lookup per byte) is the luma row that the RGB
  path writes for a row of \<^verbatim>\<open>dssim_rgb\<close> structs with \<open>r = g = b = v\<close>, that is four bytes to
  a pixel, the fourth byte \<open>al\<close> being any value. Both paths return, whatever \<^verbatim>\<open>pow\<close> and
  \<^verbatim>\<open>powf\<close> compute.
\<close>

lemma gray_luma_equals_rgb_luma:
  assumes lut0: "length lut0 = 256"
    and y: "0 \<le> y" "y < int (length rows)"
    and w: "w \<le> int (length (rows ! nat y))"
    and c: "w \<le> int (length c0)" "w \<le> int (length c1)" "w \<le> int (length c2)"
  shows "\<exists>gd rd ch ch'.
    image_data_gray pow powf lut0 rows gamma = Some gd \<and>
    image_data_rgb pow lut0 (map (\<lambda>row. concat (map (\<lambda>v. [v, v, v, al]) row)) rows) gamma = Some rd \<and>
    convert_image_row_gray [c0] 1 y w gd = Some ch \<and>
    convert_image_row_rgb powf [c0, c1, c2] 3 y w rd = Some ch' \<and>
    ch ! 0 = ch' ! 0"
proof -
  let ?row = "rows ! nat y"
  let ?rows4 = "map (\<lambda>row. concat (map (\<lambda>v. [v, v, v, al]) row)) rows"
  let ?row4 = "concat (map (\<lambda>v. [v, v, v, al]) ?row)"
  from set_gamma_total [OF lut0] obtain lut where
    lut: "set_gamma pow lut0 gamma = Some lut" "length lut = 256" by blast
  from gray_init_total [OF lut(2)] obtain glut where
    glut: "convert_image_row_gray_init powf lut = Some glut"
      "\<forall>v :: 8 word. \<exists>px. rgb_to_lab powf lut v v v = Some px \<and> arr_get glut (uint v) = Some (lab_l px)"
    by blast
  define g where "g v = lab_l (the (rgb_to_lab powf lut v v v))" for v :: "8 word"
  have gl: "\<forall>v :: 8 word. arr_get glut (uint v) = Some (g v)"
  proof
    fix v :: "8 word"
    from glut(2) obtain px where "rgb_to_lab powf lut v v v = Some px"
      "arr_get glut (uint v) = Some (lab_l px)" by blast
    then show "arr_get glut (uint v) = Some (g v)" by (simp add: g_def)
  qed
  let ?gd = "\<lparr>gamma_lut = glut, row_pointers = rows\<rparr>"
  let ?rd = "\<lparr>gamma_lut = lut, row_pointers = ?rows4\<rparr>"
  have gd: "image_data_gray pow powf lut0 rows gamma = Some ?gd"
    using lut glut by (simp add: image_data_gray_def)
  have rd: "image_data_rgb pow lut0 ?rows4 gamma = Some ?rd"
    using lut by (simp add: image_data_rgb_def)
  have ry: "arr_get rows y = Some ?row" "arr_get ?rows4 y = Some ?row4"
    using y by (simp_all add: arr_get_def)
  let ?f = "\<lambda>x. g (?row ! nat x)"
  have "\<exists>ch. for_up 0 w (gray_px glut ?row) [c0] = Some (max 0 w, ch) \<and>
      ch ! 0 = luma_written ?f (max 0 w) ([c0] ! 0)"
  proof (rule luma_loop [where n = 1 and lens = "\<lambda>_. length c0"])
    fix x and ch :: "dbl list list"
    assume "0 \<le> x" "x < w" "length ch = 1" "\<forall>c<1. length (ch ! c) = length c0"
    then show "\<exists>ch'. gray_px glut ?row x ch = Some ch' \<and> length ch' = 1 \<and>
        (\<forall>c<1. length (ch' ! c) = length c0) \<and> ch' ! 0 = (ch ! 0)[nat x := g (?row ! nat x)]"
      using gray_px_step [OF gl w, of x ch "\<lambda>_. length c0"] c by simp
  qed simp_all
  then obtain ch where ch: "for_up 0 w (gray_px glut ?row) [c0] = Some (max 0 w, ch)"
    "ch ! 0 = luma_written ?f (max 0 w) c0" by auto
  let ?lens = "\<lambda>k::nat. length ([c0, c1, c2] ! k)"
  have "\<exists>ch'. for_up 0 w (rgb_px powf lut ?row4 3) [c0, c1, c2] = Some (max 0 w, ch') \<and>
      ch' ! 0 = luma_written ?f (max 0 w) ([c0, c1, c2] ! 0)"
  proof (rule luma_loop [where n = 3 and lens = ?lens])
    fix x and ch :: "dbl list list"
    assume x: "0 \<le> x" "x < w" and h: "length ch = 3" "\<forall>c<3. length (ch ! c) = ?lens c"
    have xr: "nat x < length ?row" using x w by simp
    obtain px where px: "rgb_to_lab powf lut (?row ! nat x) (?row ! nat x) (?row ! nat x) = Some px"
      using rgb_to_lab_gray_total [OF lut(2)] by blast
    have n: "nat (4 * x) = 4 * nat x + 0" "nat (4 * x + 1) = 4 * nat x + 1"
      "nat (4 * x + 2) = 4 * nat x + 2" using x by simp_all
    have same: "?row4 ! nat (4 * x) = ?row ! nat x" "?row4 ! nat (4 * x + 1) = ?row ! nat x"
      "?row4 ! nat (4 * x + 2) = ?row ! nat x"
      unfolding n by (rule quad_row_nth [OF xr]; simp)+
    have len4: "4 * x + 2 < int (length ?row4)" using w x by (simp add: length_quad_row)
    have "\<exists>ch'. rgb_px powf lut ?row4 3 x ch = Some ch' \<and> length ch' = 3 \<and>
      (\<forall>c<(3::nat). length (ch' ! c) = ?lens c) \<and> ch' ! 0 = (ch ! 0)[nat x := lab_l px]"
      by (rule rgb_px_step [OF lut(2) len4 x h _ _ _ same px]) (use c in simp_all)
    then show "\<exists>ch'. rgb_px powf lut ?row4 3 x ch = Some ch' \<and> length ch' = 3 \<and>
        (\<forall>c<3. length (ch' ! c) = ?lens c) \<and> ch' ! 0 = (ch ! 0)[nat x := g (?row ! nat x)]"
      using px by (simp add: g_def)
  qed simp_all
  then obtain ch' where ch': "for_up 0 w (rgb_px powf lut ?row4 3) [c0, c1, c2] = Some (max 0 w, ch')"
    "ch' ! 0 = luma_written ?f (max 0 w) c0" by auto
  have "convert_image_row_gray [c0] 1 y w ?gd = Some ch"
    using ry ch by (simp add: convert_image_row_gray_def)
  moreover have "convert_image_row_rgb powf [c0, c1, c2] 3 y w ?rd = Some ch'"
    using ry ch' by (simp add: convert_image_row_rgb_def)
  ultimately show ?thesis using gd rd ch(2) ch'(2) by simp
qed

lemma gray_luma_equals_rgb_luma_example:
  "\<exists>gd rd ch ch'.
      image_data_gray (\<lambda>x y. x) (\<lambda>x y. x) (replicate 256 (Fin 0)) [[0, 128, 255]] (Fin 0.45455) = Some gd \<and>
      image_data_rgb (\<lambda>x y. x) (replicate 256 (Fin 0))
        (map (\<lambda>row. concat (map (\<lambda>v. [v, v, v, 255]) row)) [[0, 128, 255]]) (Fin 0.45455) = Some rd \<and>
      convert_image_row_gray [replicate 3 (Fin 0)] 1 0 3 gd = Some ch \<and>
      convert_image_row_rgb (\<lambda>x y. x) [replicate 3 (Fin 0), replicate 3 (Fin 0), replicate 3 (Fin 0)] 3 0 3 rd
        = Some ch' \<and>
      ch ! 0 = ch' ! 0"
proof -
  have l: "length (replicate 256 (Fin 0)) = 256" by simp
  have y: "(0::int) \<le> 0" "0 < int (length [[0, 128, 255 :: 8 word]])" by simp_all
  have w: "3 \<le> int (length ([[0, 128, 255 :: 8 word]] ! nat 0))" by simp
  have c: "3 \<le> int (length (replicate 3 (Fin 0)))" by simp
  from gray_luma_equals_rgb_luma [OF l y w c c c] show ?thesis by blast
qed

text \<open>
  Claim C9 says that the GRAY path and the RGB path give the same luma plane for any image.
  An RGB image has three bytes to a pixel, and there the RGB path does not read the pixels
  that the image holds: for the row of the two pixels \<open>(10, 10, 10)\<close> and \<open>(20, 20, 20)\<close>, six
  bytes, it reads the second pixel at the bytes 4, 5 and 6, the last of them past the end of
  the row, while the GRAY path converts the row \<open>10, 20\<close>. The evaluation is for the sRGB
  gamma and the library functions without rounding.
\<close>

theorem rgb_path_packed_row:
  "Option.bind
     (image_data_gray ideal_pow ideal_pow (replicate 256 (Fin 0)) [[10, 20]] (Fin 0.45455))
     (convert_image_row_gray [[Fin 0, Fin 0]] 1 0 2) \<noteq> None \<and>
   Option.bind
     (image_data_rgb ideal_pow (replicate 256 (Fin 0)) [[10, 10, 10, 20, 20, 20]] (Fin 0.45455))
     (convert_image_row_rgb ideal_pow [[Fin 0, Fin 0], [Fin 0, Fin 0], [Fin 0, Fin 0]] 3 0 2) = None"
proof -
  have l: "length (replicate 256 (Fin 0)) = 256" by simp
  have y: "(0::int) \<le> 0" "0 < int (length [[10, 20 :: 8 word]])" by simp_all
  have w: "2 \<le> int (length ([[10, 20 :: 8 word]] ! nat 0))" by simp
  have c: "2 \<le> int (length [Fin 0, Fin 0])" by simp
  from gray_luma_equals_rgb_luma [OF l y w c c c, where pow = ideal_pow and powf = ideal_pow
      and gamma = "Fin 0.45455"]
  obtain gd ch where
    "image_data_gray ideal_pow ideal_pow (replicate 256 (Fin 0)) [[10, 20]] (Fin 0.45455) = Some gd"
    "convert_image_row_gray [[Fin 0, Fin 0]] 1 0 2 gd = Some ch"
    by blast
  then have gray: "Option.bind
     (image_data_gray ideal_pow ideal_pow (replicate 256 (Fin 0)) [[10, 20]] (Fin 0.45455))
     (convert_image_row_gray [[Fin 0, Fin 0]] 1 0 2) \<noteq> None"
    by simp
  from set_gamma_total [OF l] obtain lut where
    lut: "set_gamma ideal_pow (replicate 256 (Fin 0)) (Fin 0.45455) = Some lut" by blast
  have past: "rgb_px ideal_pow lut [10, 10, 10, 20, 20, 20] 3 1 ch = None" for ch
    by (simp add: rgb_px_def arr_get_def)
  have "for_up 0 2 (rgb_px ideal_pow lut [10, 10, 10, 20, 20, 20] 3)
      [[Fin 0, Fin 0], [Fin 0, Fin 0], [Fin 0, Fin 0]] = None"
    by (simp add: for_up_step past split: option.splits)
  then have "Option.bind
     (image_data_rgb ideal_pow (replicate 256 (Fin 0)) [[10, 10, 10, 20, 20, 20]] (Fin 0.45455))
     (convert_image_row_rgb ideal_pow [[Fin 0, Fin 0], [Fin 0, Fin 0], [Fin 0, Fin 0]] 3 0 2) = None"
    using lut by (simp add: image_data_rgb_def convert_image_row_rgb_def arr_get_def)
  with gray show ?thesis by blast
qed

section \<open>Aggregation and dimension mismatch\<close>

lemma compare_channel_mismatch:
  assumes "chans h a = Some oc" "chans h b = Some mc"
    and "width oc \<noteq> width mc \<or> height oc \<noteq> height mc"
  shows "dssim_compare_channel a b t smo h = Some (Fin 0, None, h)"
  using assms by (auto simp: dssim_compare_channel_def)

lemma scale_loop_exit: "\<not> n < num_scales attr \<Longrightarrow> scale_loop attr t smo ch n p q st = Some st"
  by (subst scale_loop.simps) (simp split: prod.splits)

lemma scale_loop_mismatch:
  assumes "chans h a = Some oc" "chans h b = Some mc"
    and "width oc \<noteq> width mc \<or> height oc \<noteq> height mc"
    and "n < num_scales attr" "arr_get (scale_weights attr) n = Some sw"
  shows "scale_loop attr t smo ch n (Some a) (Some b) (S, T, mo, h) =
    (if next_half oc = None \<or> next_half mc = None
     then Some (S + (if is_chroma oc then color_weight attr else Fin 1) * sw * Fin 0,
                T + (if is_chroma oc then color_weight attr else Fin 1) * sw,
                if smo \<and> n = 0 \<and> ch = 0 then None else mo, h)
     else scale_loop attr t smo ch (n + 1) (next_half oc) (next_half mc)
            (S + (if is_chroma oc then color_weight attr else Fin 1) * sw * Fin 0,
             T + (if is_chroma oc then color_weight attr else Fin 1) * sw,
             if smo \<and> n = 0 \<and> ch = 0 then None else mo, h))"
  by (subst scale_loop.simps)
    (simp add: assms chan_at_def compare_channel_mismatch [OF assms(1-3)] Let_def)

lemma dssim_get_tmp_fresh:
  assumes "tmp attr = None"
  shows "\<exists>p h'. dssim_get_tmp attr sz h = Some (p, attr\<lparr>tmp := p, tmp_size := sz\<rparr>, h') \<and>
    chans h' = chans h"
  using assms by (simp add: dssim_get_tmp_def malloc_def)

lemma dssim_compare_mismatch:
  assumes ca: "chans h a = Some oc" and cb: "chans h b = Some mc"
    and mm: "width oc \<noteq> width mc \<or> height oc \<noteq> height mc"
    and oi: "chan original_image = [Some a, None, None]" "channels original_image = 1"
    and mi: "chan modified_image = [Some b, None, None]" "channels modified_image = 1"
    and at: "0 < num_scales attr" "arr_get (scale_weights attr) 0 = Some sw" "tmp attr = None"
    and one: "num_scales attr = 1 \<or> next_half oc = None \<or> next_half mc = None"
  shows "\<exists>attr' h'. dssim_compare attr original_image modified_image smo h =
       Some (Fin 1 / ((Fin 0 + (if is_chroma oc then color_weight attr else Fin 1) * sw * Fin 0)
                      / (Fin 0 + (if is_chroma oc then color_weight attr else Fin 1) * sw)) - Fin 1,
             None, attr', h')"
proof -
  let ?w = "(if is_chroma oc then color_weight attr else Fin 1) * sw"
  let ?sz = "float_bytes (width oc * height oc)"
  from dssim_get_tmp_fresh [OF at(3), of ?sz h] obtain p h1 where
    g: "dssim_get_tmp attr ?sz h = Some (p, attr\<lparr>tmp := p, tmp_size := ?sz\<rparr>, h1)"
    and c1: "chans h1 = chans h" by blast
  let ?attr1 = "attr\<lparr>tmp := p, tmp_size := ?sz\<rparr>"
  have n1: "(0::int) < num_scales ?attr1" "arr_get (scale_weights ?attr1) 0 = Some sw"
    using at by simp_all
  have "next_half oc = None \<or> next_half mc = None \<or> \<not> (0 + 1 < num_scales ?attr1)"
    using one by auto
  then have sl: "scale_loop ?attr1 (ptr_of p) smo 0 0 (Some a) (Some b) (Fin 0, Fin 0, None, h1) =
      Some (Fin 0 + ?w * Fin 0, Fin 0 + ?w, None, h1)"
    using scale_loop_mismatch [of h1 a oc b mc 0 ?attr1 sw "ptr_of p" smo 0 "Fin 0" "Fin 0" None]
      ca cb mm n1 c1 by (auto simp: scale_loop_exit)
  have "dssim_compare attr original_image modified_image smo h =
      Some (Fin 1 / ((Fin 0 + ?w * Fin 0) / (Fin 0 + ?w)) - Fin 1, None, ?attr1, h1)"
    using ca oi mi g sl
    by (simp add: dssim_compare_def arr_get_def chan_at_def for_up_step for_up_done)
  then show ?thesis by blast
qed

text \<open>
  Claim C3, as the code has it. Where the dimensions of the two channels disagree,
  \<^verbatim>\<open>dssim_compare_channel\<close> returns 0 and leaves the store alone, so the sub-measure adds
  \<open>w * 0\<close> to the weighted sum while \<open>w\<close> enters the total. With one channel and one
  scale the sum is then \<open>0 + w * 0\<close> and the total \<open>0 + w\<close>, and \<^verbatim>\<open>dssim_compare\<close>
  returns \<open>1 / ((0 + w * 0) / (0 + w)) - 1\<close>, which is not 0.
\<close>

theorem mismatch_contributes_zero:
  assumes "chans h a = Some oc" and "chans h b = Some mc"
    and "width oc \<noteq> width mc \<or> height oc \<noteq> height mc"
    and "chan original_image = [Some a, None, None]" "channels original_image = 1"
    and "chan modified_image = [Some b, None, None]" "channels modified_image = 1"
    and "num_scales attr = 1" "arr_get (scale_weights attr) 0 = Some sw" "tmp attr = None"
  shows "dssim_compare_channel a b t smo h = Some (Fin 0, None, h) \<and>
    (\<exists>attr' h'. dssim_compare attr original_image modified_image smo h =
       Some (Fin 1 / ((Fin 0 + (if is_chroma oc then color_weight attr else Fin 1) * sw * Fin 0)
                      / (Fin 0 + (if is_chroma oc then color_weight attr else Fin 1) * sw)) - Fin 1,
             None, attr', h'))"
proof
  show "dssim_compare_channel a b t smo h = Some (Fin 0, None, h)"
    using assms(1-3) by (rule compare_channel_mismatch)
  show "\<exists>attr' h'. dssim_compare attr original_image modified_image smo h =
       Some (Fin 1 / ((Fin 0 + (if is_chroma oc then color_weight attr else Fin 1) * sw * Fin 0)
                      / (Fin 0 + (if is_chroma oc then color_weight attr else Fin 1) * sw)) - Fin 1,
             None, attr', h')"
    by (rule dssim_compare_mismatch [OF assms(1-7) _ assms(9,10)]) (simp_all add: assms(8))
qed

lemma set_scales_one: "dssim_set_scales attr0 1 None = Some attr_one"
  by (simp add: dssim_set_scales_def attr0_def attr_one_def Let_def MAX_SCALES_def for_up_step for_up_done
      set_scales_copy_def set_scales_div_def arr_get_def arr_set_def default_weights_def eval_nat_numeral)

lemma create_attr_default: "dssim_create_attr = Some attr_default"
  by (simp add: dssim_create_attr_def dssim_set_scales_def attr0_def attr_default_def Let_def MAX_SCALES_def
      for_up_step for_up_done set_scales_copy_def set_scales_div_def arr_get_def arr_set_def default_weights_def eval_nat_numeral)

theorem mismatch_contributes_zero_witness:
  "dssim_compare_channel 0 1 (None, 0) False heap_mismatch = Some (Fin 0, None, heap_mismatch) \<and>
   (\<exists>attr' h'. dssim_compare attr_one (image_of 0) (image_of 1) False heap_mismatch =
       Some (Fin 1 / ((Fin 0 + Fin 1 * Fin 1 * Fin 0) / (Fin 0 + Fin 1 * Fin 1)) - Fin 1, None, attr', h'))"
  using mismatch_contributes_zero [of heap_mismatch 0 "plane_chan 4 4 10" 1 "plane_chan 4 5 20"
      "image_of 0" "image_of 1" attr_one "Fin 1" "(None, 0)" False]
  by (simp add: heap_mismatch_def plane_chan_def image_of_def attr_one_def attr0_def arr_get_def)

text \<open>
  The claim as written fails: a 4x4 image against a 4x5 image, one channel, scale 0 only,
  gives \<open>1 / (0 / 1) - 1\<close>, the positive infinity, not 0.
\<close>

theorem mismatch_4x4_4x5_counterexample:
  "map_option fst (dssim_compare attr_one (image_of 0) (image_of 1) False heap_mismatch) = Some PInf"
  using dssim_compare_mismatch [of heap_mismatch 0 "plane_chan 4 4 10" 1 "plane_chan 4 5 20"
      "image_of 0" "image_of 1" attr_one "Fin 1" False]
  by (auto simp: heap_mismatch_def plane_chan_def image_of_def attr_one_def attr0_def arr_get_def
      minus_dbl_def)

text \<open>
  Claim C4 as written fails: with the default attributes, a 4x4 image against a 5x4 image
  makes \<^verbatim>\<open>dssim_compare\<close> return the positive infinity.
\<close>

theorem infinite_dssim_counterexample:
  "map_option fst (dssim_compare attr_default (image_of 0) (image_of 1) False heap_mismatch_w) = Some PInf"
  using dssim_compare_mismatch [of heap_mismatch_w 0 "plane_chan 4 4 10" 1 "plane_chan 5 4 20"
      "image_of 0" "image_of 1" attr_default "Fin (448 / 8668)" False]
  by (auto simp: heap_mismatch_w_def plane_chan_def image_of_def attr_default_def attr0_def arr_get_def
      minus_dbl_def)

lemma for_up_sim:
  assumes "R s t"
    and "\<And>j u v. i \<le> j \<Longrightarrow> j < n \<Longrightarrow> R u v \<Longrightarrow> rel_option R (body1 j u) (body2 j v)"
  shows "rel_option (\<lambda>a b. fst a = fst b \<and> R (snd a) (snd b))
    (for_up i n body1 s) (for_up i n body2 t)"
  using assms
proof (induction i n body1 s arbitrary: t rule: for_up.induct)
  case (1 i n body1 s)
  show ?case
  proof (cases "i < n")
    case False
    then show ?thesis using "1.prems"(1) by (simp add: for_up_done)
  next
    case True
    have r: "rel_option R (body1 i s) (body2 i t)" using "1.prems"(2) [of i s t] True "1.prems"(1) by simp
    show ?thesis
    proof (cases "body1 i s")
      case None
      then show ?thesis using r True by (cases "body2 i t") (simp_all add: for_up_step)
    next
      case (Some s')
      then obtain t' where t': "body2 i t = Some t'" "R s' t'" using r by (cases "body2 i t") simp_all
      have "rel_option (\<lambda>a b. fst a = fst b \<and> R (snd a) (snd b))
          (for_up (i + 1) n body1 s') (for_up (i + 1) n body2 t')"
      proof (rule "1.IH" [OF True Some t'(2)])
        fix j u v
        assume "i + 1 \<le> j" "j < n" "R u v"
        then show "rel_option R (body1 j u) (body2 j v)" using "1.prems"(2) [of j u v] by simp
      qed
      then show ?thesis using True Some t'(1) by (simp add: for_up_step)
    qed
  qed
qed

lemma weighted_sum_Cons: "S + weighted_sum ((c, n, w, m) # tr) = (S + w * m) + weighted_sum tr"
  by (simp add: weighted_sum_def add.assoc)

lemma weight_total_Cons: "T + weight_total ((c, n, w, m) # tr) = (T + w) + weight_total tr"
  by (simp add: weight_total_def add.assoc)

lemma weighted_sum_append: "weighted_sum (xs @ ys) = weighted_sum xs + weighted_sum ys"
  by (simp add: weighted_sum_def)

lemma weight_total_append: "weight_total (xs @ ys) = weight_total xs + weight_total ys"
  by (simp add: weight_total_def)

lemma scale_loop_unfold:
  "scale_loop attr t smo ch n p q (S, T, mo, h) =
     (if n < num_scales attr then
        (case scale_step attr t smo ch n p q mo h of
           None \<Rightarrow> None
         | Some (w, r, mo', h', no, nm) \<Rightarrow>
             if no = None \<or> nm = None then Some (S + w * r, T + w, mo', h')
             else scale_loop attr t smo ch (n + 1) no nm (S + w * r, T + w, mo', h'))
      else Some (S, T, mo, h))"
  by (subst scale_loop.simps)
    (auto simp: scale_step_def Let_def weight_of_def split: Option.bind_splits prod.splits)

lemma scale_loop_trace:
  "scale_loop attr t smo ch n p q (S, T, mo, h) =
     map_option (\<lambda>(tr, mo', h'). (S + weighted_sum tr, T + weight_total tr, mo', h'))
       (scale_trace attr t smo ch n p q (mo, h))"
proof (induction attr t smo ch n p q "(mo, h)" arbitrary: S T mo h rule: scale_trace.induct)
  case (1 attr t smo ch n p q)
  show ?case
  proof (cases "n < num_scales attr")
    case False
    then show ?thesis
      by (subst scale_loop_unfold, subst scale_trace.simps)
        (simp add: weighted_sum_def weight_total_def)
  next
    case True
    show ?thesis
    proof (cases "scale_step attr t smo ch n p q mo h")
      case None
      then show ?thesis using True
        by (subst scale_loop_unfold, subst scale_trace.simps) simp
    next
      case (Some x)
      then obtain w r mo' h' no nm where
        x: "scale_step attr t smo ch n p q mo h = Some (w, r, mo', h', no, nm)"
        by (cases x) auto
      show ?thesis
      proof (cases "no = None \<or> nm = None")
        case stop: True
        then show ?thesis using True x
          by (subst scale_loop_unfold, subst scale_trace.simps)
            (auto simp: weighted_sum_def weight_total_def)
      next
        case go: False
        have ih: "scale_loop attr t smo ch (n + 1) no nm (S + w * r, T + w, mo', h') =
            map_option (\<lambda>(tr, mo'', h''). (S + w * r + weighted_sum tr, T + w + weight_total tr, mo'', h''))
              (scale_trace attr t smo ch (n + 1) no nm (mo', h'))"
          by (rule "1.hyps" [OF True _ refl refl refl refl refl go]) (simp add: x)
        show ?thesis using True x go
          by (subst scale_loop_unfold, subst scale_trace.simps)
            (auto simp: ih option.map_comp comp_def weighted_sum_Cons weight_total_Cons
              split: prod.splits intro!: option.map_cong)
      qed
    qed
  qed
qed

lemma dssim_compare_trace:
  "dssim_compare attr oi mi smo h =
     map_option (\<lambda>(tr, mo, attr', h'). (Fin 1.0 / (weighted_sum tr / weight_total tr) - Fin 1.0, mo, attr', h'))
       (compare_trace attr oi mi smo h)"
proof (cases "arr_get (chan oi) 0")
  case None
  then show ?thesis by (simp add: dssim_compare_def compare_trace_def)
next
  case (Some c0p)
  show ?thesis
  proof (cases "chan_at c0p h")
    case None
    then show ?thesis using Some by (simp add: dssim_compare_def compare_trace_def)
  next
    case c0: (Some c0)
    show ?thesis
    proof (cases "dssim_get_tmp attr (float_bytes (width c0 * height c0)) h")
      case None
      then show ?thesis using Some c0 by (simp add: dssim_compare_def compare_trace_def)
    next
      case g: (Some x)
      then obtain tmpa attr1 h1 where
        x: "dssim_get_tmp attr (float_bytes (width c0 * height c0)) h = Some (tmpa, attr1, h1)"
        by (cases x) auto
      let ?R = "\<lambda>(u :: dbl \<times> dbl \<times> addr option option \<times> heap)
          (v :: (int \<times> int \<times> dbl \<times> dbl) list \<times> addr option option \<times> heap).
          fst u = weighted_sum (fst v) \<and> fst (snd u) = weight_total (fst v) \<and> snd (snd u) = snd v"
      let ?b1 = "\<lambda>ch st. do {
            original \<leftarrow> arr_get (chan oi) ch;
            modified \<leftarrow> arr_get (chan mi) ch;
            scale_loop attr1 (ptr_of tmpa) smo ch 0 original modified st
          }"
      let ?b2 = "\<lambda>ch (st :: (int \<times> int \<times> dbl \<times> dbl) list \<times> addr option option \<times> heap). do {
            original \<leftarrow> arr_get (chan oi) ch;
            modified \<leftarrow> arr_get (chan mi) ch;
            (tr', st') \<leftarrow> scale_trace attr1 (ptr_of tmpa) smo ch 0 original modified (snd st);
            Some (fst st @ tr', st')
          }"
      have sim: "rel_option (\<lambda>a b. fst a = fst b \<and> ?R (snd a) (snd b))
          (for_up 0 (min (channels oi) (channels mi)) ?b1 (Fin 0, Fin 0, None, h1))
          (for_up 0 (min (channels oi) (channels mi)) ?b2 ([], None, h1))"
      proof (rule for_up_sim)
        show "?R (Fin 0, Fin 0, None, h1) ([], None, h1)"
          by (simp add: weighted_sum_def weight_total_def zero_dbl_def)
      next
        fix j u v
        assume r: "?R u v"
        obtain S T mo hh where u: "u = (S, T, mo, hh)" by (cases u) auto
        obtain tr st where v: "v = (tr, st)" by (cases v) auto
        from r u v have st: "st = (mo, hh)" "S = weighted_sum tr" "T = weight_total tr" by simp_all
        show "rel_option ?R (?b1 j u) (?b2 j v)"
          unfolding u v st
          by (auto simp: scale_loop_trace weighted_sum_append weight_total_append
              split: Option.bind_splits)
      qed
      show ?thesis
        using Some c0 x sim
        by (auto simp: dssim_compare_def compare_trace_def elim!: option.rel_cases)
    qed
  qed
qed

text \<open>
  Claim C2: \<^verbatim>\<open>dssim_compare\<close> returns \<open>1 / (S / T) - 1\<close>, where \<open>S\<close> sums
  \<open>w * mean\<close> and \<open>T\<close> sums \<open>w\<close> over the (channel, scale) pairs that were compared, in
  the order of the loops, with \<open>w = (color_weight if the channel is chroma, else 1) *
  scale_weights[s]\<close>. \<open>compare_trace\<close> lists exactly these pairs: a scale loop left by
  the \<^verbatim>\<open>break\<close> contributes the pairs up to the break, so \<open>T\<close> holds only the weights
  that were summed. The two sides fail together.
\<close>

theorem compare_returns_weighted_mean:
  "dssim_compare attr original_image modified_image ssim_map_out h =
     map_option
       (\<lambda>(tr, mo, attr', h'). (Fin 1 / (weighted_sum tr / weight_total tr) - Fin 1, mo, attr', h'))
       (compare_trace attr original_image modified_image ssim_map_out h)"
  using dssim_compare_trace [of attr original_image modified_image ssim_map_out h] by simp

lemma scale_trace_exit: "\<not> n < num_scales attr \<Longrightarrow> scale_trace attr t smo ch n p q st = Some ([], st)"
  by (subst scale_trace.simps) simp

lemma compare_trace_mismatch:
  assumes ca: "chans h a = Some oc" and cb: "chans h b = Some mc"
    and mm: "width oc \<noteq> width mc \<or> height oc \<noteq> height mc"
    and oi: "chan original_image = [Some a, None, None]" "channels original_image = 1"
    and mi: "chan modified_image = [Some b, None, None]" "channels modified_image = 1"
    and at: "0 < num_scales attr" "arr_get (scale_weights attr) 0 = Some sw" "tmp attr = None"
    and one: "num_scales attr = 1 \<or> next_half oc = None \<or> next_half mc = None"
  shows "\<exists>attr' h'. compare_trace attr original_image modified_image smo h =
      Some ([(0, 0, weight_of attr (is_chroma oc) sw, Fin 0)], None, attr', h')"
proof -
  let ?sz = "float_bytes (width oc * height oc)"
  from dssim_get_tmp_fresh [OF at(3), of ?sz h] obtain p h1 where
    g: "dssim_get_tmp attr ?sz h = Some (p, attr\<lparr>tmp := p, tmp_size := ?sz\<rparr>, h1)"
    and c1: "chans h1 = chans h" by blast
  let ?attr1 = "attr\<lparr>tmp := p, tmp_size := ?sz\<rparr>"
  have st: "scale_step ?attr1 (ptr_of p) smo 0 0 (Some a) (Some b) None h1 =
      Some (weight_of ?attr1 (is_chroma oc) sw, Fin 0, None, h1, next_half oc, next_half mc)"
    using ca cb mm c1 at(2) compare_channel_mismatch [of h1 a oc b mc]
    by (simp add: scale_step_def chan_at_def)
  have nx: "next_half oc = None \<or> next_half mc = None \<or> \<not> (0 + 1 < num_scales ?attr1)"
    using one by auto
  have "scale_trace ?attr1 (ptr_of p) smo 0 0 (Some a) (Some b) (None, h1) =
      Some ([(0, 0, weight_of ?attr1 (is_chroma oc) sw, Fin 0)], None, h1)"
    using at(1) st nx
    by (subst scale_trace.simps) (auto simp: scale_trace_exit)
  then have "compare_trace attr original_image modified_image smo h =
      Some ([(0, 0, weight_of ?attr1 (is_chroma oc) sw, Fin 0)], None, ?attr1, h1)"
    using ca oi mi g
    by (simp add: compare_trace_def arr_get_def chan_at_def for_up_step for_up_done)
  then show ?thesis by (auto simp: weight_of_def)
qed

theorem compare_returns_weighted_mean_witness:
  "(\<exists>attr' h'. compare_trace attr_one (image_of 0) (image_of 1) False heap_mismatch =
      Some ([(0, 0, Fin 1, Fin 0)], None, attr', h')) \<and>
   dssim_compare attr_one (image_of 0) (image_of 1) False heap_mismatch =
     map_option
       (\<lambda>(tr, mo, attr', h'). (Fin 1 / (weighted_sum tr / weight_total tr) - Fin 1, mo, attr', h'))
       (compare_trace attr_one (image_of 0) (image_of 1) False heap_mismatch)"
proof
  show "\<exists>attr' h'. compare_trace attr_one (image_of 0) (image_of 1) False heap_mismatch =
      Some ([(0, 0, Fin 1, Fin 0)], None, attr', h')"
    using compare_trace_mismatch [of heap_mismatch 0 "plane_chan 4 4 10" 1 "plane_chan 4 5 20"
      "image_of 0" "image_of 1" attr_one "Fin 1" False]
    by (simp add: heap_mismatch_def plane_chan_def image_of_def attr_one_def attr0_def arr_get_def
        weight_of_def)
  show "dssim_compare attr_one (image_of 0) (image_of 1) False heap_mismatch =
     map_option
       (\<lambda>(tr, mo, attr', h'). (Fin 1 / (weighted_sum tr / weight_total tr) - Fin 1, mo, attr', h'))
       (compare_trace attr_one (image_of 0) (image_of 1) False heap_mismatch)"
    by (rule compare_returns_weighted_mean)
qed

lemma dssim_value_range:
  "(\<exists>y. Fin 1 / m - Fin 1 = Fin y \<and> 0 \<le> y) \<longleftrightarrow> (\<exists>x. m = Fin x \<and> 0 < x \<and> x \<le> 1)"
proof (cases m)
  case (Fin x)
  show ?thesis
  proof (cases "x = 0")
    case True
    then show ?thesis using Fin by (simp add: minus_dbl_def)
  next
    case False
    have "(0 \<le> 1 / x - 1) = (0 < x \<and> x \<le> 1)"
    proof (cases "0 < x")
      case True
      then show ?thesis by (simp add: field_simps)
    next
      case neg: False
      then have "x < 0" using False by simp
      then have "1 / x < 0" by simp
      then show ?thesis using neg by simp
    qed
    then show ?thesis using Fin False by (simp add: minus_dbl_def)
  qed
qed (simp_all add: minus_dbl_def)

text \<open>
  Claim C4, as the code has it. The value returned is \<open>1 / (S / T) - 1\<close> in IEEE
  arithmetic, with nothing clamped: it is NaN when no sub-measure was compared, and it is a
  finite number that is at least 0 exactly when the weighted mean \<open>S / T\<close> is a finite
  number in (0, 1].
\<close>

theorem compare_value_range:
  assumes "compare_trace attr original_image modified_image ssim_map_out h = Some (tr, mo, attr', h')"
  shows "\<exists>r. dssim_compare attr original_image modified_image ssim_map_out h = Some (r, mo, attr', h') \<and>
    r = Fin 1 / (weighted_sum tr / weight_total tr) - Fin 1 \<and>
    (tr = [] \<longrightarrow> r = NaN) \<and>
    ((\<exists>y. r = Fin y \<and> 0 \<le> y) \<longleftrightarrow>
     (\<exists>x. weighted_sum tr / weight_total tr = Fin x \<and> 0 < x \<and> x \<le> 1))"
proof -
  let ?r = "Fin 1 / (weighted_sum tr / weight_total tr) - Fin 1"
  have "dssim_compare attr original_image modified_image ssim_map_out h = Some (?r, mo, attr', h')"
    using assms by (simp add: dssim_compare_trace)
  moreover have "tr = [] \<longrightarrow> ?r = NaN"
    by (simp add: weighted_sum_def weight_total_def zero_dbl_def minus_dbl_def)
  ultimately show ?thesis using dssim_value_range [of "weighted_sum tr / weight_total tr"] by blast
qed

theorem compare_value_range_witness:
  "\<exists>tr mo attr' h'.
     compare_trace attr_default (image_of 0) (image_of 1) False heap_mismatch_w = Some (tr, mo, attr', h') \<and>
     (\<exists>r. dssim_compare attr_default (image_of 0) (image_of 1) False heap_mismatch_w = Some (r, mo, attr', h') \<and>
        r = Fin 1 / (weighted_sum tr / weight_total tr) - Fin 1 \<and>
        (tr = [] \<longrightarrow> r = NaN) \<and>
        ((\<exists>y. r = Fin y \<and> 0 \<le> y) \<longleftrightarrow>
         (\<exists>x. weighted_sum tr / weight_total tr = Fin x \<and> 0 < x \<and> x \<le> 1)))"
proof -
  from compare_trace_mismatch [of heap_mismatch_w 0 "plane_chan 4 4 10" 1 "plane_chan 5 4 20"
      "image_of 0" "image_of 1" attr_default "Fin (448 / 8668)" False]
  obtain tr mo attr' h' where
    t: "compare_trace attr_default (image_of 0) (image_of 1) False heap_mismatch_w = Some (tr, mo, attr', h')"
    by (auto simp: heap_mismatch_w_def plane_chan_def image_of_def attr_default_def attr0_def arr_get_def)
  from compare_value_range [OF t] t show ?thesis by blast
qed

section \<open>What the comparison changes\<close>

lemma frame_refl: "frame S h h"
  by (simp add: frame_def)

lemma frame_trans: "frame S h h1 \<Longrightarrow> frame S h1 h2 \<Longrightarrow> frame S h h2"
  by (simp add: frame_def)

lemma frame_mono: "frame S h h' \<Longrightarrow> S \<subseteq> S' \<Longrightarrow> frame S' h h'"
  by (auto simp: frame_def)

lemma wr_frame: "wr p i v h = Some h' \<Longrightarrow> frame (ptrs [p]) h h'"
  by (auto simp: wr_def frame_def ptrs_def arr_set_def split: option.splits if_splits)

lemma for_up_frame:
  assumes "for_up i n body h = Some (k, h')"
    and "\<And>j u v. body j u = Some v \<Longrightarrow> frame S u v"
  shows "frame S h h'"
  by (rule for_up_inv [OF assms(1), where P = "frame S h"])
    (auto intro: frame_refl frame_trans assms(2))

lemma for_up4_inv:
  assumes "for_up4 i n body s = Some (k, t)"
    and "P s"
    and "\<And>j u v. i \<le> j \<Longrightarrow> j < n \<Longrightarrow> P u \<Longrightarrow> body j u = Some v \<Longrightarrow> P v"
  shows "P t"
  using assms
proof (induction i n body s rule: for_up4.induct)
  case (1 i n body s)
  show ?case
  proof (cases "i < n")
    case False
    with "1.prems" show ?thesis by (simp add: for_up4_done)
  next
    case True
    from True "1.prems"(1) obtain s' where b: "body i s = Some s'"
      and r: "for_up4 (i + 4) n body s' = Some (k, t)"
      by (auto simp: for_up4_step split: option.splits)
    have p: "P s'" using "1.prems"(3) [of i s s'] True "1.prems"(2) b by simp
    show ?thesis
    proof (rule "1.IH" [OF True b r p])
      fix j u v
      assume "i + 4 \<le> j" "j < n" "P u" "body j u = Some v"
      then show "P v" using "1.prems"(3) [of j u v] by simp
    qed
  qed
qed

lemma for_up4_frame:
  assumes "for_up4 i n body h = Some (k, h')"
    and "\<And>j u v. body j u = Some v \<Longrightarrow> frame S u v"
  shows "frame S h h'"
  by (rule for_up4_inv [OF assms(1), where P = "frame S h"])
    (auto intro: frame_refl frame_trans assms(2))

lemma ptrs_padd [simp]: "ptrs [padd p k] = ptrs [p]"
  by (simp add: ptrs_def padd_def)

lemma ptrs_sub: "set ps \<subseteq> set qs \<Longrightarrow> ptrs ps \<subseteq> ptrs qs"
  by (auto simp: ptrs_def)

lemma square_row_frame: "square_row src dst w h = Some h' \<Longrightarrow> frame (ptrs [dst]) h h'"
  unfolding square_row_def
  by (auto elim!: for_up_frame dest: wr_frame split: Option.bind_splits)

lemma transpose_px_frame: "transpose_px row dst hh j i h = Some h' \<Longrightarrow> frame (ptrs [dst]) h h'"
  by (auto simp: transpose_px_def dest: wr_frame split: Option.bind_splits)

lemma transpose_px4_frame: "transpose_px4 src dst w hh j i h = Some h' \<Longrightarrow> frame (ptrs [dst]) h h'"
  by (auto simp: transpose_px4_def dest!: transpose_px_frame intro: frame_trans split: Option.bind_splits)

lemma transpose_frame:
  assumes "transpose src dst w hh h = Some h'"
  shows "frame (ptrs [dst]) h h'"
proof -
  from assms obtain j h1 k where
    a: "for_up4 0 (hh - 4) (\<lambda>j h. map_option snd (for_up 0 w (transpose_px4 src dst w hh j) h)) h = Some (j, h1)"
    and b: "for_up j hh (\<lambda>j h. map_option snd (for_up 0 w (transpose_px (padd src (j * w)) dst hh j) h)) h1 = Some (k, h')"
    by (auto simp: transpose_def split: Option.bind_splits)
  have "frame (ptrs [dst]) h h1"
    by (rule for_up4_frame [OF a]) (auto elim!: for_up_frame dest: transpose_px4_frame)
  moreover have "frame (ptrs [dst]) h1 h'"
    by (rule for_up_frame [OF b]) (auto elim!: for_up_frame dest: transpose_px_frame)
  ultimately show ?thesis by (rule frame_trans)
qed

lemma blur_px_frame: "blur_px row dstrow w i h = Some h' \<Longrightarrow> frame (ptrs [dstrow]) h h'"
  by (auto simp: blur_px_def dest: wr_frame split: Option.bind_splits)

lemma blur_px4_frame: "blur_px4 row dstrow i h = Some h' \<Longrightarrow> frame (ptrs [dstrow]) h h'"
  by (auto simp: blur_px4_def dest!: wr_frame intro: frame_trans split: Option.bind_splits)

lemma blur_line_frame:
  assumes "blur_line row dstrow w h = Some h'"
  shows "frame (ptrs [dstrow]) h h'"
proof -
  from assms obtain i1 h1 i2 h2 i3 where
    a: "for_up 0 4 (blur_px row dstrow w) h = Some (i1, h1)"
    and b: "for_up4 i1 ((w - 1) AND NOT 3) (blur_px4 row dstrow) h1 = Some (i2, h2)"
    and c: "for_up i2 w (blur_px row dstrow w) h2 = Some (i3, h')"
    by (auto simp: blur_line_def split: Option.bind_splits)
  have "frame (ptrs [dstrow]) h h1" by (rule for_up_frame [OF a]) (rule blur_px_frame)
  moreover have "frame (ptrs [dstrow]) h1 h2" by (rule for_up4_frame [OF b]) (rule blur_px4_frame)
  moreover have "frame (ptrs [dstrow]) h2 h'" by (rule for_up_frame [OF c]) (rule blur_px_frame)
  ultimately show ?thesis by (blast intro: frame_trans)
qed

lemma blur_run_frame:
  assumes "blur_run src tmp1 dst w runs callback j run h = Some h'" and "cb_ok callback"
  shows "frame (ptrs [tmp1, dst]) h h'"
proof -
  have t: "ptrs [tmp1] \<subseteq> ptrs [tmp1, dst]" "ptrs [dst] \<subseteq> ptrs [tmp1, dst]"
    by (auto simp: ptrs_def)
  have l: "frame (ptrs [tmp1, dst]) u v" if "blur_line r d w u = Some v"
    and "d = padd dst (j * w) \<or> d = tmp1 \<or> d = padd tmp1 w" for r d u v
    using blur_line_frame [OF that(1)] that(2) t by (auto intro: frame_mono)
  have s: "frame (ptrs [tmp1, dst]) u v" if "square_row r (padd tmp1 w) w u = Some v" for r u v
    using square_row_frame [OF that] t by (auto intro: frame_mono)
  show ?thesis
    using assms
    by (auto simp: blur_run_def Let_def cb_ok_def split: option.splits if_splits Option.bind_splits
        intro: l s frame_trans)
qed

lemma regular_1d_blur_frame:
  assumes "regular_1d_blur src tmp1 dst w hh runs callback h = Some h'" and "cb_ok callback"
  shows "frame (ptrs [tmp1, dst]) h h'"
  using assms(1) unfolding regular_1d_blur_def
  by (auto elim!: for_up_frame dest: blur_run_frame [OF _ assms(2)])

lemma blur_frame:
  assumes "blur src tmpp dst w hh sz callback h = Some h'" and "cb_ok callback"
  shows "frame (ptrs [tmpp, dst]) h h'"
proof -
  from assms(1) obtain h1 h2 h3 where
    a: "regular_1d_blur src tmpp dst w hh sz callback h = Some h1"
    and b: "transpose dst tmpp w hh h1 = Some h2"
    and c: "regular_1d_blur tmpp dst tmpp hh w sz None h2 = Some h3"
    and d: "transpose tmpp dst hh w h3 = Some h'"
    by (auto simp: blur_def split: Option.bind_splits)
  have s: "ptrs [tmpp] \<subseteq> ptrs [tmpp, dst]" "ptrs [dst] \<subseteq> ptrs [tmpp, dst]"
    "ptrs [dst, tmpp] \<subseteq> ptrs [tmpp, dst]"
    by (auto simp: ptrs_def)
  have "frame (ptrs [tmpp, dst]) h h1" using regular_1d_blur_frame [OF a assms(2)] .
  moreover have "frame (ptrs [tmpp, dst]) h1 h2" using transpose_frame [OF b] s by (blast intro: frame_mono)
  moreover have "frame (ptrs [tmpp, dst]) h2 h3"
    using regular_1d_blur_frame [OF c] s by (auto simp: cb_ok_def intro: frame_mono)
  moreover have "frame (ptrs [tmpp, dst]) h3 h'" using transpose_frame [OF d] s by (blast intro: frame_mono)
  ultimately show ?thesis by (blast intro: frame_trans)
qed

lemma changed_in_refl: "changed_in C B h h"
  by (simp add: changed_in_def)

lemma changed_in_trans: "changed_in C B h h1 \<Longrightarrow> changed_in C B h1 h2 \<Longrightarrow> changed_in C B h h2"
  by (simp add: changed_in_def)

lemma kept_trans: "kept C B h h1 \<Longrightarrow> kept C B h1 h2 \<Longrightarrow> kept C B h h2"
  by (auto simp: kept_def intro: changed_in_trans)

lemma frame_kept:
  assumes "frame S h h'" "S \<subseteq> B" "region_closed C B h"
  shows "kept C B h h'"
  using assms by (auto simp: frame_def kept_def changed_in_def region_closed_def)

lemma free_kept:
  assumes "free p h = Some h'" "\<forall>b. p = Some b \<longrightarrow> b \<in> B" "region_closed C B h"
  shows "kept C B h h'"
  using assms
  by (auto simp: free_def kept_def changed_in_def region_closed_def split: option.splits)

lemma chan_upd_kept:
  assumes "chan_upd c f h = Some h'" "c \<in> C" "region_closed C B h"
    and "\<And>r. next_half (f r) = next_half r"
    and "\<And>r. img (f r) = img r \<or> img (f r) = None"
    and "\<And>r. mu (f r) = mu r \<or> mu (f r) = None"
    and "\<And>r. img_sq_blur (f r) = img_sq_blur r \<or> img_sq_blur (f r) = None"
  shows "kept C B h h'"
proof -
  from assms(1) obtain r where r: "chans h c = Some r" and h': "h' = h\<lparr>chans := (chans h)(c \<mapsto> f r)\<rparr>"
    by (auto simp: chan_upd_def split: option.splits)
  have "changed_in C B h h'" using h' assms(2) by (auto simp: changed_in_def)
  moreover have "region_closed C B h'"
    unfolding region_closed_def
  proof (intro ballI allI impI)
    fix d s
    assume d: "d \<in> C" and s: "chans h' d = Some s"
    show "(\<forall>a. next_half s = Some a \<longrightarrow> a \<in> C) \<and>
        (\<forall>b. img s = Some b \<or> mu s = Some b \<or> img_sq_blur s = Some b \<longrightarrow> b \<in> B)"
    proof (cases "d = c")
      case False
      then have "chans h d = Some s" using s h' by simp
      then show ?thesis using assms(3) d by (auto simp: region_closed_def)
    next
      case True
      then have sf: "s = f r" using s h' by simp
      have cl: "(\<forall>a. next_half r = Some a \<longrightarrow> a \<in> C) \<and>
        (\<forall>b. img r = Some b \<or> mu r = Some b \<or> img_sq_blur r = Some b \<longrightarrow> b \<in> B)"
        using assms(3) assms(2) r by (auto simp: region_closed_def)
      show ?thesis
        unfolding sf using cl assms(4) [of r] assms(5) [of r] assms(6) [of r] assms(7) [of r]
        by auto
    qed
  qed
  ultimately show ?thesis by (simp add: kept_def)
qed

lemma kept_closed: "kept C B h h' \<Longrightarrow> region_closed C B h'"
  by (simp add: kept_def)

lemma region_bufs:
  assumes "region_closed C B h" "c \<in> C" "chans h c = Some r"
  shows "ptrs [ptr_of (img r)] \<subseteq> B" "ptrs [ptr_of (mu r)] \<subseteq> B" "ptrs [ptr_of (img_sq_blur r)] \<subseteq> B"
    "\<forall>b. img r = Some b \<longrightarrow> b \<in> B" "\<forall>b. mu r = Some b \<longrightarrow> b \<in> B"
    "\<forall>b. img_sq_blur r = Some b \<longrightarrow> b \<in> B" "\<forall>a. next_half r = Some a \<longrightarrow> a \<in> C"
  using assms by (auto simp: region_closed_def ptrs_def ptr_of_def)

lemma mul_px_frame: "mul_px img1 img2 j h = Some h' \<Longrightarrow> frame (ptrs [img2]) h h'"
  by (auto simp: mul_px_def dest: wr_frame split: Option.bind_splits)

lemma frame_chans: "frame S h h' \<Longrightarrow> chans h' = chans h"
  by (simp add: frame_def)

lemma kept_chans_out: "kept C B h h' \<Longrightarrow> c \<notin> C \<Longrightarrow> chans h' c = chans h c"
  by (simp add: kept_def changed_in_def)

lemma get_img1_img2_blur_kept:
  assumes r: "get_img1_img2_blur original modified tmpp h = Some (p, h')"
    and m: "modified \<in> C" and t: "ptrs [tmpp] \<subseteq> B" and cl: "region_closed C B h"
  shows "kept C B h h' \<and> (\<forall>b. p = Some b \<longrightarrow> b \<in> B)"
proof -
  from r obtain oc mc h1 k h2 o2 where
    oc: "chans h original = Some oc" and mc: "chans h modified = Some mc"
    and u: "chan_upd modified (\<lambda>r. r\<lparr>img := None\<rparr>) h = Some h1"
    and l: "for_up 0 (width oc * height oc) (mul_px (ptr_of (img oc)) (ptr_of (img mc))) h1 = Some (k, h2)"
    and o2: "chans h2 original = Some o2"
    and b: "blur (ptr_of (img mc)) tmpp (ptr_of (img mc)) (width oc) (height oc) (blur_size o2) None h2 = Some h'"
    and p: "p = img mc"
    by (auto simp: get_img1_img2_blur_def bind_eq_Some_conv)
  have im: "ptrs [ptr_of (img mc)] \<subseteq> B" "\<forall>b. img mc = Some b \<longrightarrow> b \<in> B"
    using region_bufs [OF cl m mc] by simp_all
  have k1: "kept C B h h1" by (rule chan_upd_kept [OF u m cl]) simp_all
  have "frame (ptrs [ptr_of (img mc)]) h1 h2" by (rule for_up_frame [OF l]) (rule mul_px_frame)
  then have k2: "kept C B h1 h2" using im(1) kept_closed [OF k1] by (rule frame_kept)
  have "ptrs [tmpp, ptr_of (img mc)] \<subseteq> B" using t im(1) by (auto simp: ptrs_def)
  then have k3: "kept C B h2 h'"
    using blur_frame [OF b] kept_closed [OF k2] by (auto simp: cb_ok_def intro: frame_kept)
  have "kept C B h h'" using kept_trans [OF kept_trans [OF k1 k2] k3] .
  then show ?thesis using im(2) p by simp
qed

lemma ssim_px_frame:
  assumes "ssim_px m1 m2 s1 s2 pr sm c1 c2 offset st = Some st'"
  shows "frame (ptrs [sm]) (snd st) (snd st')"
  using assms
  by (auto simp: ssim_px_def Let_def dest: wr_frame intro: frame_refl split: Option.bind_splits if_splits)

lemma ssim_loop_frame:
  assumes "for_up i n (ssim_px m1 m2 s1 s2 pr sm c1 c2) st = Some (k, st')"
  shows "frame (ptrs [sm]) (snd st) (snd st')"
  by (rule for_up_inv [OF assms, where P = "\<lambda>u. frame (ptrs [sm]) (snd st) (snd u)"])
    (auto intro: frame_refl frame_trans dest: ssim_px_frame)

lemma dssim_compare_channel_kept:
  assumes r: "dssim_compare_channel original modified tmpp smo h = Some (v, mo, h')"
    and m: "modified \<in> C" and t: "ptrs [tmpp] \<subseteq> B" and cl: "region_closed C B h"
  shows "kept C B h h'"
proof -
  from r obtain oc mc where oc: "chans h original = Some oc" and mc: "chans h modified = Some mc"
    by (auto simp: dssim_compare_channel_def split: Option.bind_splits)
  show ?thesis
  proof (cases "width oc \<noteq> width mc \<or> height oc \<noteq> height mc")
    case True
    then have "h' = h" using r oc mc by (auto simp: dssim_compare_channel_def)
    then show ?thesis using cl by (simp add: kept_def changed_in_refl)
  next
    case False
    from r oc mc False obtain p h1 k s h2 h3 h4 m4 h5 h6 where
      g: "get_img1_img2_blur original modified tmpp h = Some (p, h1)"
      and l: "for_up 0 (width oc * height oc)
           (ssim_px (ptr_of (mu oc)) (ptr_of (mu mc)) (ptr_of (img_sq_blur oc)) (ptr_of (img_sq_blur mc))
              (ptr_of p) (if smo then ptr_of (mu mc) else (None, 0))
              (Fin 0.01 * Fin 0.01) (Fin 0.03 * Fin 0.03))
           (Fin 0, h1) = Some (k, (s, h2))"
      and f1: "(if smo then Some h2 else do { m2 \<leftarrow> chans h2 modified; free (mu m2) h2 }) = Some h3"
      and u1: "chan_upd modified (\<lambda>r. r\<lparr>mu := None\<rparr>) h3 = Some h4"
      and m4: "chans h4 modified = Some m4"
      and f2: "free (img_sq_blur m4) h4 = Some h5"
      and u2: "chan_upd modified (\<lambda>r. r\<lparr>img_sq_blur := None\<rparr>) h5 = Some h6"
      and f3: "free p h6 = Some h'"
      by (auto simp: dssim_compare_channel_def bind_eq_Some_conv)
    from get_img1_img2_blur_kept [OF g m t cl] have k1: "kept C B h h1"
      and pB: "\<forall>b. p = Some b \<longrightarrow> b \<in> B" by simp_all
    have mm: "ptrs [ptr_of (mu mc)] \<subseteq> B" using region_bufs [OF cl m mc] by simp
    have "ptrs [if smo then ptr_of (mu mc) else (None, 0)] \<subseteq> B"
      using mm by (auto simp: ptrs_def)
    then have k2: "kept C B h1 h2"
      using ssim_loop_frame [OF l] kept_closed [OF k1] by (auto intro: frame_kept)
    have k3: "kept C B h2 h3"
    proof (cases smo)
      case True
      then show ?thesis using f1 kept_closed [OF k2] by (simp add: kept_def changed_in_refl)
    next
      case False
      then obtain m2 where m2: "chans h2 modified = Some m2" and fr: "free (mu m2) h2 = Some h3"
        using f1 by (auto split: Option.bind_splits)
      show ?thesis
        by (rule free_kept [OF fr _ kept_closed [OF k2]])
          (use region_bufs [OF kept_closed [OF k2] m m2] in simp)
    qed
    have k4: "kept C B h3 h4" by (rule chan_upd_kept [OF u1 m kept_closed [OF k3]]) simp_all
    have k5: "kept C B h4 h5"
      by (rule free_kept [OF f2 _ kept_closed [OF k4]])
        (use region_bufs [OF kept_closed [OF k4] m m4] in simp)
    have k6: "kept C B h5 h6" by (rule chan_upd_kept [OF u2 m kept_closed [OF k5]]) simp_all
    have k7: "kept C B h6 h'" by (rule free_kept [OF f3 pB kept_closed [OF k6]])
    have "kept C B h h3" using kept_trans [OF kept_trans [OF k1 k2] k3] .
    moreover have "kept C B h3 h'" using kept_trans [OF kept_trans [OF kept_trans [OF k4 k5] k6] k7] .
    ultimately show ?thesis by (rule kept_trans)
  qed
qed

lemma region_closed_mono: "region_closed C B h \<Longrightarrow> B \<subseteq> B' \<Longrightarrow> region_closed C B' h"
  by (auto simp: region_closed_def)

lemma kept_refl: "region_closed C B h \<Longrightarrow> kept C B h h"
  by (simp add: kept_def changed_in_refl)

lemma scale_step_kept:
  assumes s: "scale_step attr t smo ch n p q mo h = Some (w, r, mo', h1, no, nm)"
    and q: "\<forall>a. q = Some a \<longrightarrow> a \<in> C" and t: "ptrs [t] \<subseteq> B" and cl: "region_closed C B h"
  shows "kept C B h h1 \<and> (\<forall>a. nm = Some a \<longrightarrow> a \<in> C)"
proof -
  from s obtain oa ma mo1 m1 where
    pq: "p = Some oa" "q = Some ma"
    and c: "dssim_compare_channel oa ma t (smo \<and> n = 0 \<and> ch = 0) h = Some (r, mo1, h1)"
    and m1: "chan_at q h1 = Some m1" and nm: "nm = next_half m1"
    by (auto simp: scale_step_def bind_eq_Some_conv)
  have ma: "ma \<in> C" using q pq by simp
  have k: "kept C B h h1" by (rule dssim_compare_channel_kept [OF c ma t cl])
  have "chans h1 ma = Some m1" using m1 pq by (simp add: chan_at_def)
  then have "\<forall>a. next_half m1 = Some a \<longrightarrow> a \<in> C"
    using region_bufs(7) [OF kept_closed [OF k] ma] by simp
  then show ?thesis using k nm by simp
qed

lemma scale_loop_kept:
  assumes "scale_loop attr t smo ch n p q (S, T, mo, h) = Some (S', T', mo', h')"
    and "\<forall>a. q = Some a \<longrightarrow> a \<in> C" and "ptrs [t] \<subseteq> B" and "region_closed C B h"
  shows "kept C B h h'"
  using assms
proof (induction "nat (num_scales attr - n)" arbitrary: n p q S T mo h)
  case 0
  then have "\<not> n < num_scales attr" by simp
  then have "h' = h" using "0.prems"(1) unfolding scale_loop_unfold [of attr t smo ch n p q S T mo h] by simp
  then show ?case using "0.prems"(4) by (simp add: kept_refl)
next
  case (Suc k)
  then have lt: "n < num_scales attr" by simp
  note u = scale_loop_unfold [of attr t smo ch n p q S T mo h]
  from Suc.prems(1) lt obtain w r mo1 h1 no nm where
    st: "scale_step attr t smo ch n p q mo h = Some (w, r, mo1, h1, no, nm)"
    unfolding u by (auto split: option.splits)
  from scale_step_kept [OF st Suc.prems(2,3,4)] have k1: "kept C B h h1"
    and nm: "\<forall>a. nm = Some a \<longrightarrow> a \<in> C" by simp_all
  show ?case
  proof (cases "no = None \<or> nm = None")
    case True
    then have "h' = h1" using Suc.prems(1) lt st unfolding u by auto
    then show ?thesis using k1 by simp
  next
    case False
    then have r: "scale_loop attr t smo ch (n + 1) no nm (S + w * r, T + w, mo1, h1) = Some (S', T', mo', h')"
      using Suc.prems(1) lt st unfolding u by auto
    have "k = nat (num_scales attr - (n + 1))" using Suc.hyps(2) by simp
    from Suc.hyps(1) [OF this r nm Suc.prems(3) kept_closed [OF k1]]
    show ?thesis using k1 by (blast intro: kept_trans)
  qed
qed

lemma malloc_kept:
  assumes m: "malloc sz h0 = (p, h1)" and cl: "region_closed C B h0"
  shows "kept C (insert (fresh h0) B) h0 h1 \<and> ptrs [ptr_of p] \<subseteq> insert (fresh h0) B"
  using m cl
  by (auto simp: malloc_def kept_def changed_in_def region_closed_def ptrs_def ptr_of_def
      split: if_splits)

lemma dssim_get_tmp_kept:
  assumes g: "dssim_get_tmp attr sz h = Some (p, attr1, h1)"
    and t: "\<forall>b. tmp attr = Some b \<longrightarrow> b \<in> B" and cl: "region_closed C B h"
  shows "kept C (insert (fresh h) B) h h1 \<and> ptrs [ptr_of p] \<subseteq> insert (fresh h) B"
proof (cases "tmp attr")
  case None
  then have "(case malloc sz h of (p', h2) \<Rightarrow> Some (p', attr\<lparr>tmp := p', tmp_size := sz\<rparr>, h2))
      = Some (p, attr1, h1)"
    using g by (simp add: dssim_get_tmp_def)
  then have "malloc sz h = (p, h1)" by (cases "malloc sz h") auto
  from malloc_kept [OF this cl] show ?thesis .
next
  case (Some b)
  show ?thesis
  proof (cases "sz \<le> tmp_size attr")
    case True
    then have "h1 = h" "p = tmp attr" using g Some by (auto simp: dssim_get_tmp_def)
    then show ?thesis
      using t cl by (auto simp: kept_def changed_in_def region_closed_def ptrs_def ptr_of_def)
  next
    case False
    then obtain h0 where fr: "free (Some b) h = Some h0"
      and m': "(case malloc sz h0 of (p', h2) \<Rightarrow> Some (p', attr\<lparr>tmp := p', tmp_size := sz\<rparr>, h2))
        = Some (p, attr1, h1)"
      using g Some by (auto simp: dssim_get_tmp_def bind_eq_Some_conv)
    have m: "malloc sz h0 = (p, h1)" using m' by (cases "malloc sz h0") auto
    have cl': "region_closed C (insert (fresh h) B) h" using cl by (auto intro: region_closed_mono)
    have k0: "kept C (insert (fresh h) B) h h0"
      by (rule free_kept [OF fr _ cl']) (use t Some in auto)
    have fh: "fresh h0 = fresh h" using fr by (auto simp: free_def split: option.splits)
    from malloc_kept [OF m kept_closed [OF k0]] fh
    have "kept C (insert (fresh h) B) h0 h1" "ptrs [ptr_of p] \<subseteq> insert (fresh h) B" by simp_all
    then show ?thesis using k0 by (blast intro: kept_trans)
  qed
qed

lemma dssim_compare_kept:
  assumes r: "dssim_compare attr oi mi smo h = Some (v, mo, attr', h')"
    and cl: "region_closed C B h"
    and mi: "\<forall>a. Some a \<in> set (chan mi) \<longrightarrow> a \<in> C"
    and t: "\<forall>b. tmp attr = Some b \<longrightarrow> b \<in> B"
  shows "kept C (insert (fresh h) B) h h'"
proof -
  let ?B = "insert (fresh h) B"
  let ?body = "\<lambda>attr1 tmpa ch st. do {
            original \<leftarrow> arr_get (chan oi) ch;
            modified \<leftarrow> arr_get (chan mi) ch;
            scale_loop attr1 (ptr_of tmpa) smo ch 0 original modified st
          }"
  from r obtain c0 :: dssim_chan and x where
    gx: "dssim_get_tmp attr (float_bytes (width c0 * height c0)) h = Some x"
    and rest: "(case x of (tmpa, attr1, h1) \<Rightarrow>
        for_up 0 (min (channels oi) (channels mi)) (?body attr1 tmpa) (Fin 0, Fin 0, None, h1) \<bind>
          (\<lambda>(uu, ssim_sum, total0, mo, h2).
              Some (Fin 1.0 / (ssim_sum / total0) - Fin 1.0, mo, attr1, h2))) = Some (v, mo, attr', h')"
    unfolding dssim_compare_def bind_eq_Some_conv by blast
  obtain tmpa attr1 h1 where x: "x = (tmpa, attr1, h1)" by (cases x) auto
  from rest obtain y where
    ly: "for_up 0 (min (channels oi) (channels mi)) (?body attr1 tmpa) (Fin 0, Fin 0, None, h1) = Some y"
    and fin: "(case y of (uu, ssim_sum, total0, mo, h2) \<Rightarrow>
        Some (Fin 1.0 / (ssim_sum / total0) - Fin 1.0, mo, attr1, h2)) = Some (v, mo, attr', h')"
    unfolding x by (auto simp: bind_eq_Some_conv)
  obtain k S T mo2 h2 where y: "y = (k, S, T, mo2, h2)" by (cases y) auto
  have g: "dssim_get_tmp attr (float_bytes (width c0 * height c0)) h = Some (tmpa, attr1, h1)"
    using gx x by simp
  have l: "for_up 0 (min (channels oi) (channels mi)) (?body attr1 tmpa) (Fin 0, Fin 0, None, h1)
        = Some (k, (S, T, mo, h'))"
    using ly fin y by simp
  from dssim_get_tmp_kept [OF g t cl] have k1: "kept C ?B h h1" and tp: "ptrs [ptr_of tmpa] \<subseteq> ?B"
    by simp_all
  let ?P = "\<lambda>st :: dbl \<times> dbl \<times> addr option option \<times> heap. kept C ?B h (snd (snd (snd st)))"
  have "?P (S, T, mo, h')"
  proof (rule for_up_inv [OF l, where P = ?P])
    show "?P (Fin 0, Fin 0, None, h1)" using k1 by simp
  next
    fix j u v
    assume u: "?P u"
      and b: "?body attr1 tmpa j u = Some v"
    obtain S0 T0 mo0 h0 where u0: "u = (S0, T0, mo0, h0)" by (cases u) auto
    obtain S1 T1 mo1 h2 where v0: "v = (S1, T1, mo1, h2)" by (cases v) auto
    from b obtain p q where q: "arr_get (chan mi) j = Some q"
      and s: "scale_loop attr1 (ptr_of tmpa) smo j 0 p q (S0, T0, mo0, h0) = Some (S1, T1, mo1, h2)"
      unfolding u0 v0 by (auto simp: bind_eq_Some_conv)
    have "q \<in> set (chan mi)" using q by (auto simp: arr_get_def split: if_splits)
    then have qc: "\<forall>a. q = Some a \<longrightarrow> a \<in> C" using mi by auto
    have "kept C ?B h0 h2"
      by (rule scale_loop_kept [OF s qc tp]) (use u u0 in \<open>simp add: kept_closed\<close>)
    then show "?P v" using u u0 v0 by (auto intro: kept_trans)
  qed
  then show ?thesis by simp
qed

lemma snapshot_kept:
  assumes k: "kept C B h h'" and cl: "region_closed Co Bo h"
    and d: "Co \<inter> C = {}" "Bo \<inter> B = {}"
    and p: "\<forall>a. p = Some a \<longrightarrow> a \<in> Co"
  shows "snapshot n h' p = snapshot n h p"
  using p
proof (induction n arbitrary: p)
  case 0
  show ?case by simp
next
  case (Suc n)
  show ?case
  proof (cases p)
    case None
    then show ?thesis by simp
  next
    case (Some c)
    then have c: "c \<in> Co" using Suc.prems by simp
    then have ch: "chans h' c = chans h c" using k d(1) by (auto simp: kept_def changed_in_def)
    show ?thesis
    proof (cases "chans h c")
      case None
      then show ?thesis using ch Some by simp
    next
      case r: (Some r)
      have nb: "\<forall>b. img r = Some b \<or> mu r = Some b \<or> img_sq_blur r = Some b \<longrightarrow> b \<in> Bo"
        and nx: "\<forall>a. next_half r = Some a \<longrightarrow> a \<in> Co"
        using cl c r by (auto simp: region_closed_def)
      have bu: "bufs h' b = bufs h b" if "b \<in> Bo" for b
        using that k d(2) by (auto simp: kept_def changed_in_def)
      have "Option.bind (img r) (bufs h') = Option.bind (img r) (bufs h)"
        "Option.bind (mu r) (bufs h') = Option.bind (mu r) (bufs h)"
        "Option.bind (img_sq_blur r) (bufs h') = Option.bind (img_sq_blur r) (bufs h)"
        using nb bu by (cases "img r"; cases "mu r"; cases "img_sq_blur r"; simp)+
      then show ?thesis using Some r ch Suc.IH [OF nx] by simp
    qed
  qed
qed

text \<open>
  Claim C10. The channel structs and the float arrays of the original image are a region
  \<open>(Co, Bo)\<close> of the store, closed under \<^verbatim>\<open>next_half\<close> and the plane pointers; those of
  the modified image, with the scratch buffer of the attribute bundle, are a region
  \<open>(Cm, Bm)\<close>. When the two regions are disjoint (what \<^verbatim>\<open>restrict\<close> promises) and the
  next address of the allocator is not in use by the original, a call of
  \<^verbatim>\<open>dssim_compare\<close> that returns leaves the original as it was: at every channel and
  down to every depth \<open>k\<close> of the \<^verbatim>\<open>next_half\<close> chain, the struct (width, height,
  pointers, flags) and the contents of \<^verbatim>\<open>img\<close>, \<^verbatim>\<open>mu\<close> and \<^verbatim>\<open>img_sq_blur\<close> are the
  same. Every change of the store is inside the region of the modified image, or in the
  block that \<^verbatim>\<open>dssim_get_tmp\<close> allocates.
\<close>

theorem compare_leaves_original:
  assumes "dssim_compare attr original_image modified_image ssim_map_out h = Some (v, mo, attr', h')"
    and "region_closed Cm Bm h"
    and "\<forall>a. Some a \<in> set (chan modified_image) \<longrightarrow> a \<in> Cm"
    and "\<forall>b. tmp attr = Some b \<longrightarrow> b \<in> Bm"
    and "region_closed Co Bo h"
    and "\<forall>a. Some a \<in> set (chan original_image) \<longrightarrow> a \<in> Co"
    and "Co \<inter> Cm = {}" and "Bo \<inter> Bm = {}" and "fresh h \<notin> Bo"
  shows "image_snapshot k h' original_image = image_snapshot k h original_image \<and>
    (\<forall>c. c \<notin> Cm \<longrightarrow> chans h' c = chans h c) \<and>
    (\<forall>b. b \<notin> Bm \<longrightarrow> b \<noteq> fresh h \<longrightarrow> bufs h' b = bufs h b)"
proof -
  have kp: "kept Cm (insert (fresh h) Bm) h h'"
    using assms(1-4) by (rule dssim_compare_kept)
  have d: "Bo \<inter> insert (fresh h) Bm = {}" using assms(8,9) by auto
  have "snapshot k h' p = snapshot k h p" if "p \<in> set (chan original_image)" for p
    by (rule snapshot_kept [OF kp assms(5,7) d]) (use that assms(6) in auto)
  then have "image_snapshot k h' original_image = image_snapshot k h original_image"
    by (simp add: image_snapshot_def)
  then show ?thesis using kp by (auto simp: kept_def changed_in_def)
qed

section \<open>What the blur computes\<close>

lemma three_dbl: "(1 + 1 + 1 :: dbl) = Fin 3"
  by (simp add: one_dbl_def)

lemma has_len_mono: "has_len h a n \<Longrightarrow> m \<le> n \<Longrightarrow> has_len h a m"
  by (auto simp: has_len_def split: option.splits)

lemma frame_has_len: "frame S h h' \<Longrightarrow> has_len h' a n = has_len h a n"
proof -
  assume f: "frame S h h'"
  then have "map_option length (bufs h' a) = map_option length (bufs h a)" by (simp add: frame_def)
  then show ?thesis by (cases "bufs h a"; cases "bufs h' a"; simp add: has_len_def)
qed

lemma frame_cell: "frame S h h' \<Longrightarrow> a \<notin> S \<Longrightarrow> cell h' a k = cell h a k"
  by (simp add: frame_def cell_def)

lemma rd_cell:
  assumes "has_len h a n" "0 \<le> off + i" "off + i < n"
  shows "rd (Some a, off) i h = Some (cell h a (off + i))"
  using assms by (auto simp: has_len_def rd_def arr_get_def cell_def split: option.splits)

lemma wr_cell:
  assumes "has_len h a n" "0 \<le> off + i" "off + i < n"
  shows "\<exists>h'. wr (Some a, off) i v h = Some h' \<and> frame {a} h h' \<and> cell h' a (off + i) = v \<and>
    (\<forall>k. 0 \<le> k \<and> k \<noteq> off + i \<longrightarrow> cell h' a k = cell h a k)"
proof -
  from assms obtain xs where xs: "bufs h a = Some xs" "off + i < int (length xs)"
    by (auto simp: has_len_def split: option.splits)
  let ?h = "h\<lparr>bufs := (bufs h)(a \<mapsto> xs[nat (off + i) := v])\<rparr>"
  have "wr (Some a, off) i v h = Some ?h" using xs assms(2) by (simp add: wr_def arr_set_def)
  moreover have "frame {a} h ?h" using xs by (simp add: frame_def)
  moreover have "cell ?h a (off + i) = v" using xs assms(2) by (simp add: cell_def)
  moreover have "cell ?h a k = cell h a k" if "0 \<le> k \<and> k \<noteq> off + i" for k
  proof -
    have "nat k \<noteq> nat (off + i)" using that assms(2) by auto
    then show ?thesis using xs by (simp add: cell_def)
  qed
  ultimately show ?thesis by blast
qed

lemma blur_px_spec:
  assumes A: "has_len h A nA" and B: "has_len h B nB"
    and r: "0 \<le> ro" "ro + w \<le> nA" and d: "0 \<le> d0" "d0 + w \<le> nB"
    and i: "0 \<le> i" "i < w"
  shows "\<exists>h'. blur_px (Some A, ro) (Some B, d0) w i h = Some h' \<and> frame {B} h h' \<and>
    cell h' B (d0 + i) = b1 w (\<lambda>m. cell h A (ro + m)) i \<and>
    (\<forall>k. 0 \<le> k \<and> k \<noteq> d0 + i \<longrightarrow> cell h' B k = cell h B k)"
proof -
  have r1: "rd (Some A, ro) (max 0 (i - 1)) h = Some (cell h A (ro + max 0 (i - 1)))"
    by (rule rd_cell [OF A]) (use r i in auto)
  have r2: "rd (Some A, ro) i h = Some (cell h A (ro + i))"
    by (rule rd_cell [OF A]) (use r i in auto)
  have r3: "rd (Some A, ro) (min (w - 1) (i + 1)) h = Some (cell h A (ro + min (w - 1) (i + 1)))"
    by (rule rd_cell [OF A]) (use r i in auto)
  let ?v = "b1 w (\<lambda>m. cell h A (ro + m)) i"
  from wr_cell [OF B, of d0 i ?v] d i obtain h' where
    "wr (Some B, d0) i ?v h = Some h'" "frame {B} h h'" "cell h' B (d0 + i) = ?v"
    "\<forall>k. 0 \<le> k \<and> k \<noteq> d0 + i \<longrightarrow> cell h' B k = cell h B k"
    by auto
  then show ?thesis using r1 r2 r3 by (auto simp: blur_px_def b1_def three_dbl)
qed

lemma and_not_3: "(x::int) AND NOT 3 = x - x mod 4"
proof -
  have "take_bit 2 x + (x AND NOT (mask 2)) = (x AND mask 2) + (x AND NOT (mask 2))"
    by (simp add: take_bit_eq_mask)
  also have "\<dots> = (x AND mask 2) OR (x AND NOT (mask 2))"
    by (rule disjunctive_add) (auto simp: bit_simps)
  also have "\<dots> = x"
    by (simp flip: bit.conj_disj_distrib)
  finally have "x AND NOT (mask 2) = x - take_bit 2 x" by simp
  then show ?thesis by (simp add: take_bit_eq_mod mask_eq_exp_minus_1)
qed

lemma and_1_odd: "((r::int) AND 1 \<noteq> 0) = odd r"
  by (simp add: and_one_eq odd_iff_mod_2_eq_one)

lemma b1_cong:
  assumes "\<And>m. 0 \<le> m \<Longrightarrow> m < w \<Longrightarrow> g m = f m" "0 \<le> i" "i < w"
  shows "b1 w g i = b1 w f i"
proof -
  have "g (max 0 (i - 1)) = f (max 0 (i - 1))" "g i = f i" "g (min (w - 1) (i + 1)) = f (min (w - 1) (i + 1))"
    using assms(2,3) by (auto intro!: assms(1))
  then show ?thesis by (simp add: b1_def)
qed

lemma b1_inner:
  assumes "1 \<le> i" "i + 1 \<le> w - 1"
  shows "b1 w f i = (f (i - 1) + f i + f (i + 1)) / (1 + 1 + 1)"
proof -
  have "max 0 (i - 1) = i - 1" "min (w - 1) (i + 1) = i + 1" using assms by auto
  then show ?thesis by (simp add: b1_def)
qed

lemma blur_px4_spec:
  assumes A: "has_len h A nA" and B: "has_len h B nB"
    and r: "0 \<le> ro" "ro + w \<le> nA" and d: "0 \<le> d0" "d0 + w \<le> nB"
    and i: "1 \<le> i" "i + 4 \<le> w - 1"
  shows "\<exists>h'. blur_px4 (Some A, ro) (Some B, d0) i h = Some h' \<and> frame {B} h h' \<and>
    (\<forall>k. 0 \<le> k \<and> k < 4 \<longrightarrow> cell h' B (d0 + (i + k)) = b1 w (\<lambda>m. cell h A (ro + m)) (i + k)) \<and>
    (\<forall>k. 0 \<le> k \<and> (k < d0 + i \<or> d0 + i + 4 \<le> k) \<longrightarrow> cell h' B k = cell h B k)"
proof -
  let ?f = "\<lambda>m. cell h A (ro + m)"
  have rdA: "rd (Some A, ro) m h = Some (?f m)" if "i - 1 \<le> m" "m \<le> i + 4" for m
    by (rule rd_cell [OF A]) (use r i that in auto)
  let ?v0 = "(?f (i - 1) + ?f (i + 0) + ?f (i + 1)) / Fin 3"
  let ?v1 = "(?f (i + 0) + ?f (i + 1) + ?f (i + 2)) / Fin 3"
  let ?v2 = "(?f (i + 1) + ?f (i + 2) + ?f (i + 3)) / Fin 3"
  let ?v3 = "(?f (i + 2) + ?f (i + 3) + ?f (i + 4)) / Fin 3"
  from wr_cell [OF B, of d0 "i + 0" ?v0] d i obtain h0 where
    w0: "wr (Some B, d0) (i + 0) ?v0 h = Some h0" and f0: "frame {B} h h0"
    and c0: "cell h0 B (d0 + (i + 0)) = ?v0"
    and o0: "\<forall>k. 0 \<le> k \<and> k \<noteq> d0 + (i + 0) \<longrightarrow> cell h0 B k = cell h B k"
    by auto
  have B0: "has_len h0 B nB" using B f0 by (simp add: frame_has_len)
  from wr_cell [OF B0, of d0 "i + 1" ?v1] d i obtain h1 where
    w1: "wr (Some B, d0) (i + 1) ?v1 h0 = Some h1" and f1: "frame {B} h0 h1"
    and c1: "cell h1 B (d0 + (i + 1)) = ?v1"
    and o1: "\<forall>k. 0 \<le> k \<and> k \<noteq> d0 + (i + 1) \<longrightarrow> cell h1 B k = cell h0 B k"
    by auto
  have B1: "has_len h1 B nB" using B0 f1 by (simp add: frame_has_len)
  from wr_cell [OF B1, of d0 "i + 2" ?v2] d i obtain h2 where
    w2: "wr (Some B, d0) (i + 2) ?v2 h1 = Some h2" and f2: "frame {B} h1 h2"
    and c2: "cell h2 B (d0 + (i + 2)) = ?v2"
    and o2: "\<forall>k. 0 \<le> k \<and> k \<noteq> d0 + (i + 2) \<longrightarrow> cell h2 B k = cell h1 B k"
    by auto
  have B2: "has_len h2 B nB" using B1 f2 by (simp add: frame_has_len)
  from wr_cell [OF B2, of d0 "i + 3" ?v3] d i obtain h3 where
    w3: "wr (Some B, d0) (i + 3) ?v3 h2 = Some h3" and f3: "frame {B} h2 h3"
    and c3: "cell h3 B (d0 + (i + 3)) = ?v3"
    and o3: "\<forall>k. 0 \<le> k \<and> k \<noteq> d0 + (i + 3) \<longrightarrow> cell h3 B k = cell h2 B k"
    by auto
  have run: "blur_px4 (Some A, ro) (Some B, d0) i h = Some h3"
    using rdA w0 w1 w2 w3 by (simp add: blur_px4_def)
  have fr: "frame {B} h h3" using f0 f1 f2 f3 by (blast intro: frame_trans)
  have e0: "cell h3 B (d0 + (i + 0)) = ?v0" using c0 o1 o2 o3 d i by simp
  have e1: "cell h3 B (d0 + (i + 1)) = ?v1" using c1 o2 o3 d i by simp
  have e2: "cell h3 B (d0 + (i + 2)) = ?v2" using c2 o3 d i by simp
  have bb: "b1 w ?f (i + k) = (?f (i + k - 1) + ?f (i + k) + ?f (i + k + 1)) / Fin 3"
    if "0 \<le> k" "k < 4" for k
    using b1_inner [of "i + k" w ?f] that i by (simp add: three_dbl)
  have vals: "cell h3 B (d0 + (i + k)) = b1 w ?f (i + k)" if "0 \<le> k \<and> k < 4" for k
  proof -
    from that have "k = 0 \<or> k = 1 \<or> k = 2 \<or> k = 3" by auto
    then show ?thesis
      using e0 e1 e2 c3 bb [of k] by (elim disjE) (simp_all add: add.commute add.left_commute)
  qed
  have oth: "cell h3 B k = cell h B k" if "0 \<le> k \<and> (k < d0 + i \<or> d0 + i + 4 \<le> k)" for k
    using that o0 o1 o2 o3 by auto
  show ?thesis using run fr vals oth by blast
qed

lemma for_up4_total_idx:
  assumes "P i s"
    and "\<And>j u. i \<le> j \<Longrightarrow> j < n \<Longrightarrow> (j - i) mod 4 = 0 \<Longrightarrow> P j u \<Longrightarrow>
      \<exists>v. body j u = Some v \<and> P (j + 4) v"
  shows "\<exists>k t. for_up4 i n body s = Some (k, t) \<and> P k t \<and> i \<le> k \<and> (k - i) mod 4 = 0 \<and>
    (i < n \<longrightarrow> n \<le> k \<and> k < n + 4) \<and> (\<not> i < n \<longrightarrow> k = i)"
  using assms
proof (induction i n body s rule: for_up4.induct)
  case (1 i n body s)
  show ?case
  proof (cases "i < n")
    case False
    with "1.prems" show ?thesis by (simp add: for_up4_done)
  next
    case True
    from "1.prems"(2) [of i s] True "1.prems"(1) obtain s' where
      b: "body i s = Some s'" and p: "P (i + 4) s'" by auto
    have "\<exists>k t. for_up4 (i + 4) n body s' = Some (k, t) \<and> P k t \<and> i + 4 \<le> k \<and>
        (k - (i + 4)) mod 4 = 0 \<and> (i + 4 < n \<longrightarrow> n \<le> k \<and> k < n + 4) \<and> (\<not> i + 4 < n \<longrightarrow> k = i + 4)"
    proof (rule "1.IH" [OF True b p])
      fix j u
      assume j: "i + 4 \<le> j" "j < n" "(j - (i + 4)) mod 4 = 0" "P j u"
      have "(j - i) mod 4 = 0" using j(3) by presburger
      then show "\<exists>v. body j u = Some v \<and> P (j + 4) v" using "1.prems"(2) [of j u] j by simp
    qed
    then obtain k t where
      r: "for_up4 (i + 4) n body s' = Some (k, t)" "P k t" "i + 4 \<le> k" "(k - (i + 4)) mod 4 = 0"
        "i + 4 < n \<longrightarrow> n \<le> k \<and> k < n + 4" "\<not> i + 4 < n \<longrightarrow> k = i + 4"
      by (elim exE conjE) (rule that)
    have "(k - i) mod 4 = 0" using r(4) by presburger
    moreover have "n \<le> k \<and> k < n + 4" using r(3,5,6) True by auto
    ultimately show ?thesis using True b r by (auto simp: for_up4_step)
  qed
qed

lemma blur_line_spec:
  assumes A: "has_len h A nA" and B: "has_len h B nB"
    and r: "0 \<le> ro" "ro + w \<le> nA" and d: "0 \<le> d0" "d0 + w \<le> nB"
    and w: "4 \<le> w"
    and dj: "A \<noteq> B \<or> ro + w \<le> d0 \<or> d0 + w \<le> ro"
  shows "\<exists>h'. blur_line (Some A, ro) (Some B, d0) w h = Some h' \<and> frame {B} h h' \<and>
    (\<forall>i. 0 \<le> i \<and> i < w \<longrightarrow> cell h' B (d0 + i) = b1 w (\<lambda>m. cell h A (ro + m)) i) \<and>
    (\<forall>k. 0 \<le> k \<and> (k < d0 \<or> d0 + w \<le> k) \<longrightarrow> cell h' B k = cell h B k)"
proof -
  let ?f = "\<lambda>m. cell h A (ro + m)"
  define Inv where "Inv i u \<longleftrightarrow> frame {B} h u \<and>
      (\<forall>i'. 0 \<le> i' \<and> i' < i \<longrightarrow> cell u B (d0 + i') = b1 w ?f i') \<and>
      (\<forall>k. 0 \<le> k \<and> (k < d0 \<or> d0 + i \<le> k) \<longrightarrow> cell u B k = cell h B k)" for i u
  have invf: "frame {B} h u" if "Inv i u" for i u
    using that by (simp add: Inv_def)
  have invnew: "cell u B (d0 + i') = b1 w ?f i'" if "Inv i u" "0 \<le> i'" "i' < i" for i u i'
    using that by (simp add: Inv_def)
  have invold: "cell u B k = cell h B k" if "Inv i u" "0 \<le> k" "k < d0 \<or> d0 + i \<le> k" for i u k
    using that by (simp add: Inv_def)
  have lens: "has_len u A nA" "has_len u B nB" if "Inv i u" for i u
    using A B by (simp_all add: frame_has_len [OF invf [OF that]])
  have rowsame: "cell u A (ro + m) = ?f m" if "Inv i u" "i \<le> w" "0 \<le> m" "m < w" for i u m
  proof (cases "A = B")
    case False
    then show ?thesis using frame_cell [OF invf [OF that(1)], of A] by simp
  next
    case True
    then have "ro + m < d0 \<or> d0 + i \<le> ro + m" using dj that by auto
    then show ?thesis using invold [OF that(1), of "ro + m"] that(3) r(1) True by simp
  qed
  have step1: "\<exists>v. blur_px (Some A, ro) (Some B, d0) w j u = Some v \<and> Inv (j + 1) v"
    if j: "0 \<le> j" "j < w" and u: "Inv j u" for j u
  proof -
    from blur_px_spec [OF lens [OF u] r d j] obtain v where
      v: "blur_px (Some A, ro) (Some B, d0) w j u = Some v" "frame {B} u v"
        "cell v B (d0 + j) = b1 w (\<lambda>m. cell u A (ro + m)) j"
        "\<forall>k. 0 \<le> k \<and> k \<noteq> d0 + j \<longrightarrow> cell v B k = cell u B k"
      by blast
    have "b1 w (\<lambda>m. cell u A (ro + m)) j = b1 w ?f j"
      by (rule b1_cong) (use rowsame [OF u] j in auto)
    then have new: "cell v B (d0 + j) = b1 w ?f j" using v(3) by simp
    have "Inv (j + 1) v"
      unfolding Inv_def
    proof (intro conjI allI impI)
      show "frame {B} h v" using u v(2) by (auto simp: Inv_def intro: frame_trans)
    next
      fix i'
      assume i': "0 \<le> i' \<and> i' < j + 1"
      show "cell v B (d0 + i') = b1 w ?f i'"
      proof (cases "i' = j")
        case True
        then show ?thesis using new by simp
      next
        case False
        then have "cell v B (d0 + i') = cell u B (d0 + i')" using v(4) i' d(1) by simp
        then show ?thesis using invnew [OF u, of i'] i' False by simp
      qed
    next
      fix k
      assume k: "0 \<le> k \<and> (k < d0 \<or> d0 + (j + 1) \<le> k)"
      then have "cell v B k = cell u B k" using v(4) j by auto
      moreover have "cell u B k = cell h B k" by (rule invold [OF u]) (use k in auto)
      ultimately show "cell v B k = cell h B k" by simp
    qed
    then show ?thesis using v(1) by blast
  qed
  have step4: "\<exists>v. blur_px4 (Some A, ro) (Some B, d0) j u = Some v \<and> Inv (j + 4) v"
    if j: "1 \<le> j" "j + 4 \<le> w - 1" and u: "Inv j u" for j u
  proof -
    from blur_px4_spec [OF lens [OF u] r d j] obtain v where
      v: "blur_px4 (Some A, ro) (Some B, d0) j u = Some v" "frame {B} u v"
        "\<forall>k. 0 \<le> k \<and> k < 4 \<longrightarrow> cell v B (d0 + (j + k)) = b1 w (\<lambda>m. cell u A (ro + m)) (j + k)"
        "\<forall>k. 0 \<le> k \<and> (k < d0 + j \<or> d0 + j + 4 \<le> k) \<longrightarrow> cell v B k = cell u B k"
      by blast
    have same: "b1 w (\<lambda>m. cell u A (ro + m)) i = b1 w ?f i" if "0 \<le> i" "i < w" for i
      by (rule b1_cong) (use rowsame [OF u] j that in auto)
    have "Inv (j + 4) v"
      unfolding Inv_def
    proof (intro conjI allI impI)
      show "frame {B} h v" using u v(2) by (auto simp: Inv_def intro: frame_trans)
    next
      fix i'
      assume i': "0 \<le> i' \<and> i' < j + 4"
      show "cell v B (d0 + i') = b1 w ?f i'"
      proof (cases "i' < j")
        case True
        then have "cell v B (d0 + i') = cell u B (d0 + i')" using v(4) i' d(1) by simp
        then show ?thesis using invnew [OF u, of i'] i' True by simp
      next
        case False
        then have k: "0 \<le> i' - j \<and> i' - j < 4" using i' by simp
        have "cell v B (d0 + (j + (i' - j))) = b1 w (\<lambda>m. cell u A (ro + m)) (j + (i' - j))"
          using v(3) k by blast
        then have "cell v B (d0 + i') = b1 w (\<lambda>m. cell u A (ro + m)) i'" by simp
        then show ?thesis using same [of i'] i' j by simp
      qed
    next
      fix k
      assume k: "0 \<le> k \<and> (k < d0 \<or> d0 + (j + 4) \<le> k)"
      then have "cell v B k = cell u B k" using v(4) j by auto
      moreover have "cell u B k = cell h B k" by (rule invold [OF u]) (use k in auto)
      ultimately show "cell v B k = cell h B k" by simp
    qed
    then show ?thesis using v(1) by blast
  qed
  have i0: "Inv 0 h" by (auto simp: Inv_def frame_refl)
  have "\<exists>t. for_up 0 4 (blur_px (Some A, ro) (Some B, d0) w) h = Some (max 0 4, t) \<and> Inv (max 0 4) t"
    by (rule for_up_total_idx [where P = Inv, OF i0]) (use step1 w in auto)
  then obtain h1 where l1: "for_up 0 4 (blur_px (Some A, ro) (Some B, d0) w) h = Some (4, h1)"
    and i1: "Inv 4 h1" by auto
  let ?e = "(w - 1) AND NOT 3"
  have e0: "?e = (w - 1) - (w - 1) mod 4" by (rule and_not_3)
  have e: "?e mod 4 = 0" "?e \<le> w - 1"
    unfolding e0 by presburger+
  have "\<exists>k t. for_up4 4 ?e (blur_px4 (Some A, ro) (Some B, d0)) h1 = Some (k, t) \<and> Inv k t \<and> 4 \<le> k \<and>
      (k - 4) mod 4 = 0 \<and> (4 < ?e \<longrightarrow> ?e \<le> k \<and> k < ?e + 4) \<and> (\<not> 4 < ?e \<longrightarrow> k = 4)"
  proof (rule for_up4_total_idx [where P = Inv, OF i1])
    fix j u
    assume j: "4 \<le> j" "j < ?e" "(j - 4) mod 4 = 0" and u: "Inv j u"
    have "j + 4 \<le> ?e" using j e(1) by presburger
    then have "j + 4 \<le> w - 1" using e(2) by simp
    then show "\<exists>v. blur_px4 (Some A, ro) (Some B, d0) j u = Some v \<and> Inv (j + 4) v"
      using step4 [of j u] j u by simp
  qed
  then obtain i2 h2 where
    l2: "for_up4 4 ?e (blur_px4 (Some A, ro) (Some B, d0)) h1 = Some (i2, h2)"
    and i2: "Inv i2 h2" "4 \<le> i2" "(i2 - 4) mod 4 = 0"
      "4 < ?e \<longrightarrow> ?e \<le> i2 \<and> i2 < ?e + 4" "\<not> 4 < ?e \<longrightarrow> i2 = 4"
    by (elim exE conjE) (rule that)
  have "i2 = 4 \<or> i2 = ?e" using i2(3,4,5) e(1) by presburger
  then have le: "i2 \<le> w" using w e(2) by auto
  have "\<exists>t. for_up i2 w (blur_px (Some A, ro) (Some B, d0) w) h2 = Some (max i2 w, t) \<and> Inv (max i2 w) t"
    by (rule for_up_total_idx [where P = Inv, OF i2(1)]) (use step1 i2(2) in auto)
  then obtain h3 where l3: "for_up i2 w (blur_px (Some A, ro) (Some B, d0) w) h2 = Some (w, h3)"
    and i3: "Inv w h3" using le by (auto simp: max_def)
  have "blur_line (Some A, ro) (Some B, d0) w h = Some h3"
    using l1 l2 l3 by (simp add: blur_line_def)
  then show ?thesis using i3 by (auto simp: Inv_def)
qed

lemma b1_iter_cong:
  assumes "\<And>m. 0 \<le> m \<Longrightarrow> m < w \<Longrightarrow> g m = f m" "0 \<le> i" "i < w"
  shows "(b1 w ^^ n) g i = (b1 w ^^ n) f i"
  using assms(2,3)
proof (induction n arbitrary: i)
  case 0
  then show ?case using assms(1) by simp
next
  case (Suc n)
  have "b1 w ((b1 w ^^ n) g) i = b1 w ((b1 w ^^ n) f) i"
    by (rule b1_cong) (use Suc in auto)
  then show ?case by simp
qed

lemma square_row_spec:
  assumes A: "has_len h A nA" and B: "has_len h B nB"
    and r: "0 \<le> ro" "ro + w \<le> nA" and d: "0 \<le> d0" "d0 + w \<le> nB"
    and ne: "A \<noteq> B"
  shows "\<exists>h'. square_row (Some A, ro) (Some B, d0) w h = Some h' \<and> frame {B} h h' \<and>
    (\<forall>i. 0 \<le> i \<and> i < w \<longrightarrow> cell h' B (d0 + i) = cell h A (ro + i) * cell h A (ro + i)) \<and>
    (\<forall>k. 0 \<le> k \<and> (k < d0 \<or> d0 + w \<le> k) \<longrightarrow> cell h' B k = cell h B k)"
proof -
  define Inv where "Inv i u \<longleftrightarrow> frame {B} h u \<and>
      (\<forall>i'. 0 \<le> i' \<and> i' < i \<longrightarrow> cell u B (d0 + i') = cell h A (ro + i') * cell h A (ro + i')) \<and>
      (\<forall>k. 0 \<le> k \<and> (k < d0 \<or> d0 + i \<le> k) \<longrightarrow> cell u B k = cell h B k)" for i u
  have invf: "frame {B} h u" if "Inv i u" for i u
    using that by (simp add: Inv_def)
  have invnew: "cell u B (d0 + i') = cell h A (ro + i') * cell h A (ro + i')"
    if "Inv i u" "0 \<le> i'" "i' < i" for i u i'
    using that by (simp add: Inv_def)
  have invold: "cell u B k = cell h B k" if "Inv i u" "0 \<le> k" "k < d0 \<or> d0 + i \<le> k" for i u k
    using that by (simp add: Inv_def)
  let ?body = "\<lambda>i h. do { x \<leftarrow> rd (Some A, ro) i h; wr (Some B, d0) i (x * x) h }"
  have step: "\<exists>v. ?body j u = Some v \<and> Inv (j + 1) v" if j: "0 \<le> j" "j < w" and u: "Inv j u" for j u
  proof -
    have lA: "has_len u A nA" and lB: "has_len u B nB"
      using A B by (simp_all add: frame_has_len [OF invf [OF u]])
    have rdA: "rd (Some A, ro) j u = Some (cell u A (ro + j))"
      by (rule rd_cell [OF lA]) (use r j in auto)
    have cA: "cell u A (ro + j) = cell h A (ro + j)"
      using frame_cell [OF invf [OF u], of A] ne by simp
    let ?x = "cell h A (ro + j) * cell h A (ro + j)"
    from wr_cell [OF lB, of d0 j ?x] d j obtain v where
      v: "wr (Some B, d0) j ?x u = Some v" "frame {B} u v" "cell v B (d0 + j) = ?x"
        "\<forall>k. 0 \<le> k \<and> k \<noteq> d0 + j \<longrightarrow> cell v B k = cell u B k"
      by auto
    have "Inv (j + 1) v"
      unfolding Inv_def
    proof (intro conjI allI impI)
      show "frame {B} h v" using invf [OF u] v(2) by (rule frame_trans)
    next
      fix i'
      assume i': "0 \<le> i' \<and> i' < j + 1"
      show "cell v B (d0 + i') = cell h A (ro + i') * cell h A (ro + i')"
      proof (cases "i' = j")
        case True
        then show ?thesis using v(3) by simp
      next
        case False
        then have "cell v B (d0 + i') = cell u B (d0 + i')" using v(4) i' d(1) by simp
        then show ?thesis using invnew [OF u, of i'] i' False by simp
      qed
    next
      fix k
      assume k: "0 \<le> k \<and> (k < d0 \<or> d0 + (j + 1) \<le> k)"
      then have "cell v B k = cell u B k" using v(4) j by auto
      moreover have "cell u B k = cell h B k" by (rule invold [OF u]) (use k in auto)
      ultimately show "cell v B k = cell h B k" by simp
    qed
    then show ?thesis using rdA cA v(1) by simp
  qed
  have i0: "Inv 0 h" by (auto simp: Inv_def frame_refl)
  have "\<exists>t. for_up 0 w ?body h = Some (max 0 w, t) \<and> Inv (max 0 w) t"
    by (rule for_up_total_idx [where P = Inv, OF i0]) (use step in auto)
  then obtain t where t: "for_up 0 w ?body h = Some (max 0 w, t)" and it: "Inv (max 0 w) t" by blast
  have run: "square_row (Some A, ro) (Some B, d0) w h = Some t"
    using t by (simp add: square_row_def)
  have "cell t B (d0 + i) = cell h A (ro + i) * cell h A (ro + i)" if "0 \<le> i \<and> i < w" for i
    by (rule invnew [OF it]) (use that in auto)
  moreover have "cell t B k = cell h B k" if "0 \<le> k \<and> (k < d0 \<or> d0 + w \<le> k)" for k
    by (rule invold [OF it]) (use that in auto)
  ultimately show ?thesis using run invf [OF it] by blast
qed

lemma blur_runs_spec:
  assumes S: "has_len h S nS" and D: "has_len h D nD" and T: "has_len h Tm nT"
    and sz: "0 \<le> j" "j * w + w \<le> nS" "j * w + w \<le> nD" "2 * w \<le> nT"
    and ne: "Tm \<noteq> S" "Tm \<noteq> D"
    and w: "4 \<le> w" and runs: "2 \<le> runs" and cb: "cb_ok callback"
  shows "\<exists>h'. for_up 0 runs (blur_run (Some S, 0) (Some Tm, 0) (Some D, 0) w runs callback j) h
      = Some (runs, h') \<and>
    frame {Tm, D} h h' \<and>
    (\<forall>i. 0 \<le> i \<and> i < w \<longrightarrow>
       cell h' D (j * w + i) = (b1 w ^^ nat runs) (\<lambda>m. cb_fun callback (cell h S (j * w + m))) i) \<and>
    (\<forall>k. 0 \<le> k \<and> (k < j * w \<or> j * w + w \<le> k) \<longrightarrow> cell h' D k = cell h D k)"
proof -
  let ?g = "\<lambda>m. cb_fun callback (cell h S (j * w + m))"
  let ?run = "blur_run (Some S, 0) (Some Tm, 0) (Some D, 0) w runs callback j"
  define cur where "cur r = (if odd r then 0 else w)" for r :: int
  define R where "R r u \<longleftrightarrow> frame {Tm, D} h u \<and>
      (r < runs \<longrightarrow> (\<forall>k. 0 \<le> k \<longrightarrow> cell u D k = cell h D k)) \<and>
      (0 < r \<and> r < runs \<longrightarrow> (\<forall>i. 0 \<le> i \<and> i < w \<longrightarrow> cell u Tm (cur r + i) = (b1 w ^^ nat r) ?g i)) \<and>
      (r = runs \<longrightarrow> (\<forall>i. 0 \<le> i \<and> i < w \<longrightarrow> cell u D (j * w + i) = (b1 w ^^ nat runs) ?g i) \<and>
         (\<forall>k. 0 \<le> k \<and> (k < j * w \<or> j * w + w \<le> k) \<longrightarrow> cell u D k = cell h D k))" for r u
  have jw: "0 \<le> j * w" using sz(1) w by simp
  have Rf: "frame {Tm, D} h u" if "R r u" for r u
    using that by (simp add: R_def)
  have RD: "cell u D k = cell h D k" if "R r u" "r < runs" "0 \<le> k" for r u k
    using that by (simp add: R_def)
  have RT: "cell u Tm (cur r + i) = (b1 w ^^ nat r) ?g i" if "R r u" "0 < r" "r < runs" "0 \<le> i" "i < w" for r u i
    using that by (simp add: R_def)
  have RS: "cell u S k = cell h S k" if "R r u" "r < runs" "0 \<le> k" for r u k
  proof (cases "S = D")
    case True
    then show ?thesis using RD [OF that] by simp
  next
    case False
    then show ?thesis using frame_cell [OF Rf [OF that(1)], of S] ne by simp
  qed
  have lens: "has_len u S nS" "has_len u D nD" "has_len u Tm nT" if "R r u" for r u
    using S D T by (simp_all add: frame_has_len [OF Rf [OF that]])
  have sub: "frame {Tm, D} a b" if "frame {Tm} a b \<or> frame {D} a b" for a b
    using that by (auto intro: frame_mono)
  have step: "\<exists>v. ?run r u = Some v \<and> R (r + 1) v" if r: "0 \<le> r" "r < runs" and u: "R r u" for r u
  proof -
    note l = lens [OF u]
    consider (first) "r = 0" | (mid) "0 < r" "r < runs - 1" | (last) "0 < r" "r = runs - 1"
      using r by linarith
    then show ?thesis
    proof cases
      case first
      have src: "cell u S (j * w + m) = cell h S (j * w + m)" if "0 \<le> m" for m
        by (rule RS [OF u]) (use first runs jw that in auto)
      have "\<exists>v. ?run r u = Some v \<and> frame {Tm} u v \<and>
          (\<forall>i. 0 \<le> i \<and> i < w \<longrightarrow> cell v Tm (0 + i) = b1 w ?g i)"
      proof (cases callback)
        case None
        from blur_line_spec [OF l(1) l(3), of "j * w" w 0] jw sz w ne obtain v where
          v: "blur_line (Some S, j * w) (Some Tm, 0) w u = Some v" "frame {Tm} u v"
            "\<forall>i. 0 \<le> i \<and> i < w \<longrightarrow> cell v Tm (0 + i) = b1 w (\<lambda>m. cell u S (j * w + m)) i"
          by auto
        have "b1 w (\<lambda>m. cell u S (j * w + m)) i = b1 w ?g i" if "0 \<le> i" "i < w" for i
          by (rule b1_cong) (use src None that in \<open>auto simp: cb_fun_def\<close>)
        then have "\<forall>i. 0 \<le> i \<and> i < w \<longrightarrow> cell v Tm (0 + i) = b1 w ?g i" using v(3) by simp
        moreover have "?run r u = Some v"
          using v(1) first runs None by (simp add: blur_run_def Let_def padd_def)
        ultimately show ?thesis using v(2) by blast
      next
        case (Some c)
        then have c: "callback = Some square_row" using cb by (simp add: cb_ok_def)
        from square_row_spec [OF l(1) l(3), of "j * w" w w] jw sz w ne obtain u1 where
          u1: "square_row (Some S, j * w) (Some Tm, w) w u = Some u1" "frame {Tm} u u1"
            "\<forall>i. 0 \<le> i \<and> i < w \<longrightarrow> cell u1 Tm (w + i) = cell u S (j * w + i) * cell u S (j * w + i)"
          by auto
        have l1: "has_len u1 Tm nT" using l(3) by (simp add: frame_has_len [OF u1(2)])
        from blur_line_spec [OF l1 l1, of w w 0] sz w obtain v where
          v: "blur_line (Some Tm, w) (Some Tm, 0) w u1 = Some v" "frame {Tm} u1 v"
            "\<forall>i. 0 \<le> i \<and> i < w \<longrightarrow> cell v Tm (0 + i) = b1 w (\<lambda>m. cell u1 Tm (w + m)) i"
          by auto
        have "b1 w (\<lambda>m. cell u1 Tm (w + m)) i = b1 w ?g i" if "0 \<le> i" "i < w" for i
          by (rule b1_cong) (use src u1(3) c that in \<open>auto simp: cb_fun_def\<close>)
        then have "\<forall>i. 0 \<le> i \<and> i < w \<longrightarrow> cell v Tm (0 + i) = b1 w ?g i" using v(3) by simp
        moreover have "?run r u = Some v"
          using u1(1) v(1) first runs c by (simp add: blur_run_def Let_def padd_def)
        moreover have "frame {Tm} u v" using u1(2) v(2) by (rule frame_trans)
        ultimately show ?thesis by blast
      qed
      then obtain v where v: "?run r u = Some v" "frame {Tm} u v"
        "\<forall>i. 0 \<le> i \<and> i < w \<longrightarrow> cell v Tm (0 + i) = b1 w ?g i" by blast
      have "R (r + 1) v"
        unfolding R_def
      proof (intro conjI allI impI)
        show "frame {Tm, D} h v" using Rf [OF u] sub v(2) by (blast intro: frame_trans)
      next
        fix k :: int assume "r + 1 < runs" "0 \<le> k"
        then show "cell v D k = cell h D k"
          using frame_cell [OF v(2), of D k] ne RD [OF u, of k] r by simp
      next
        fix i :: int assume "0 < r + 1 \<and> r + 1 < runs" "0 \<le> i \<and> i < w"
        then show "cell v Tm (cur (r + 1) + i) = (b1 w ^^ nat (r + 1)) ?g i"
          using v(3) first by (simp add: cur_def)
      next
        fix i :: int assume "r + 1 = runs" then show "cell v D (j * w + i) = (b1 w ^^ nat runs) ?g i"
          using first runs by simp
      next
        fix k :: int assume "r + 1 = runs" then show "cell v D k = cell h D k"
          using first runs by simp
      qed
      then show ?thesis using v(1) by blast
    next
      case mid
      have od: "(r AND 1 \<noteq> 0) = odd r" by (rule and_1_odd)
      let ?ro = "cur r" and ?d0 = "cur (r + 1)"
      have rows: "0 \<le> ?ro" "?ro + w \<le> nT" "0 \<le> ?d0" "?d0 + w \<le> nT" "?ro + w \<le> ?d0 \<or> ?d0 + w \<le> ?ro"
        using w sz by (auto simp: cur_def)
      from blur_line_spec [OF l(3) l(3) rows(1,2,3,4) w] rows(5) obtain v where
        v: "blur_line (Some Tm, ?ro) (Some Tm, ?d0) w u = Some v" "frame {Tm} u v"
          "\<forall>i. 0 \<le> i \<and> i < w \<longrightarrow> cell v Tm (?d0 + i) = b1 w (\<lambda>m. cell u Tm (?ro + m)) i"
        by auto
      have run: "?run r u = Some v"
        using v(1) mid od by (cases callback) (auto simp: blur_run_def Let_def padd_def cur_def)
      have "b1 w (\<lambda>m. cell u Tm (?ro + m)) i = b1 w ((b1 w ^^ nat r) ?g) i" if "0 \<le> i" "i < w" for i
        by (rule b1_cong) (use RT [OF u] mid that in auto)
      moreover have sr: "nat (r + 1) = Suc (nat r)" using r by simp
      ultimately have new: "cell v Tm (?d0 + i) = (b1 w ^^ nat (r + 1)) ?g i" if "0 \<le> i" "i < w" for i
        using v(3) that unfolding sr by simp
      have "R (r + 1) v"
        unfolding R_def
      proof (intro conjI allI impI)
        show "frame {Tm, D} h v" using Rf [OF u] sub v(2) by (blast intro: frame_trans)
      next
        fix k :: int assume "r + 1 < runs" "0 \<le> k"
        then show "cell v D k = cell h D k"
          using frame_cell [OF v(2), of D k] ne RD [OF u, of k] r by simp
      next
        fix i :: int assume "0 < r + 1 \<and> r + 1 < runs" "0 \<le> i \<and> i < w"
        then show "cell v Tm (cur (r + 1) + i) = (b1 w ^^ nat (r + 1)) ?g i"
          using new by simp
      next
        fix i :: int assume "r + 1 = runs" then show "cell v D (j * w + i) = (b1 w ^^ nat runs) ?g i"
          using mid by simp
      next
        fix k :: int assume "r + 1 = runs" then show "cell v D k = cell h D k"
          using mid by simp
      qed
      then show ?thesis using run by blast
    next
      case last
      have od: "(r AND 1 \<noteq> 0) = odd r" by (rule and_1_odd)
      let ?ro = "cur r"
      have rows: "0 \<le> ?ro" "?ro + w \<le> nT" using w sz by (auto simp: cur_def)
      from blur_line_spec [OF l(3) l(2) rows jw sz(3) w] ne obtain v where
        v: "blur_line (Some Tm, ?ro) (Some D, j * w) w u = Some v" "frame {D} u v"
          "\<forall>i. 0 \<le> i \<and> i < w \<longrightarrow> cell v D (j * w + i) = b1 w (\<lambda>m. cell u Tm (?ro + m)) i"
          "\<forall>k. 0 \<le> k \<and> (k < j * w \<or> j * w + w \<le> k) \<longrightarrow> cell v D k = cell u D k"
        by auto
      have run: "?run r u = Some v"
        using v(1) last od by (cases callback) (auto simp: blur_run_def Let_def padd_def cur_def)
      have "b1 w (\<lambda>m. cell u Tm (?ro + m)) i = b1 w ((b1 w ^^ nat r) ?g) i" if "0 \<le> i" "i < w" for i
        by (rule b1_cong) (use RT [OF u] last r that in auto)
      moreover have sr: "nat (r + 1) = Suc (nat r)" using r by simp
      ultimately have new: "cell v D (j * w + i) = (b1 w ^^ nat (r + 1)) ?g i" if "0 \<le> i" "i < w" for i
        using v(3) that unfolding sr by simp
      have "R (r + 1) v"
        unfolding R_def
      proof (intro conjI allI impI)
        show "frame {Tm, D} h v" using Rf [OF u] sub v(2) by (blast intro: frame_trans)
      next
        fix k :: int assume "r + 1 < runs" then show "cell v D k = cell h D k" using last by simp
      next
        fix i :: int assume "0 < r + 1 \<and> r + 1 < runs"
        then show "cell v Tm (cur (r + 1) + i) = (b1 w ^^ nat (r + 1)) ?g i" using last by simp
      next
        fix i :: int assume "r + 1 = runs" "0 \<le> i \<and> i < w"
        then show "cell v D (j * w + i) = (b1 w ^^ nat runs) ?g i" using new [of i] by auto
      next
        fix k :: int assume "r + 1 = runs" "0 \<le> k \<and> (k < j * w \<or> j * w + w \<le> k)"
        then show "cell v D k = cell h D k" using v(4) RD [OF u r(2), of k] by simp
      qed
      then show ?thesis using run by blast
    qed
  qed
  have r0: "R 0 h" using runs by (simp add: R_def frame_refl)
  have "\<exists>t. for_up 0 runs ?run h = Some (max 0 runs, t) \<and> R (max 0 runs) t"
    by (rule for_up_total_idx [where P = R, OF r0]) (use step in auto)
  then obtain t where t: "for_up 0 runs ?run h = Some (runs, t)" and rt: "R runs t"
    using runs by (auto simp: max_def)
  show ?thesis using t rt by (auto simp: R_def)
qed

lemma row_bound:
  fixes j w hh :: int
  assumes "0 \<le> j" "j < hh" "0 \<le> w"
  shows "j * w + w \<le> w * hh"
proof -
  have "(j + 1) * w \<le> hh * w" using assms by (intro mult_right_mono) auto
  then show ?thesis by (simp add: algebra_simps)
qed

lemma idx_bound:
  fixes i j w hh :: int
  assumes "0 \<le> i" "i < w" "0 \<le> j" "j < hh"
  shows "0 \<le> j * w + i" "j * w + i < w * hh"
proof -
  show "0 \<le> j * w + i" using assms by simp
  have "j * w + w \<le> w * hh" using assms by (intro row_bound) auto
  then show "j * w + i < w * hh" using assms by simp
qed

lemma regular_1d_blur_spec:
  assumes S: "has_len h S (w * hh)" and D: "has_len h D (w * hh)" and T: "has_len h Tm (2 * w)"
    and ne: "Tm \<noteq> S" "Tm \<noteq> D"
    and w: "4 \<le> w" and runs: "2 \<le> runs" and cb: "cb_ok callback"
  shows "\<exists>h'. regular_1d_blur (Some S, 0) (Some Tm, 0) (Some D, 0) w hh runs callback h = Some h' \<and>
    frame {Tm, D} h h' \<and>
    (\<forall>j i. 0 \<le> j \<and> j < hh \<and> 0 \<le> i \<and> i < w \<longrightarrow>
       cell h' D (j * w + i) = (b1 w ^^ nat runs) (\<lambda>m. cb_fun callback (cell h S (j * w + m))) i)"
proof -
  let ?res = "\<lambda>j. (b1 w ^^ nat runs) (\<lambda>m. cb_fun callback (cell h S (j * w + m)))"
  let ?body = "\<lambda>j h. map_option snd
      (for_up 0 runs (blur_run (Some S, 0) (Some Tm, 0) (Some D, 0) w runs callback j) h)"
  define J where "J j u \<longleftrightarrow> frame {Tm, D} h u \<and>
      (\<forall>j' i. 0 \<le> j' \<and> j' < j \<and> 0 \<le> i \<and> i < w \<longrightarrow> cell u D (j' * w + i) = ?res j' i) \<and>
      (\<forall>k. 0 \<le> k \<and> j * w \<le> k \<longrightarrow> cell u D k = cell h D k)" for j u
  have Jf: "frame {Tm, D} h u" if "J j u" for j u
    using that by (simp add: J_def)
  have Jdone: "cell u D (j' * w + i) = ?res j' i" if "J j u" "0 \<le> j'" "j' < j" "0 \<le> i" "i < w" for j u j' i
    using that by (simp add: J_def)
  have Jrest: "cell u D k = cell h D k" if "J j u" "0 \<le> k" "j * w \<le> k" for j u k
    using that by (simp add: J_def)
  have step: "\<exists>v. ?body j u = Some v \<and> J (j + 1) v" if j: "0 \<le> j" "j < hh" and u: "J j u" for j u
  proof -
    have l: "has_len u S (w * hh)" "has_len u D (w * hh)" "has_len u Tm (2 * w)"
      using S D T by (simp_all add: frame_has_len [OF Jf [OF u]])
    have jw: "0 \<le> j * w" using j w by simp
    have rb: "j * w + w \<le> w * hh" using j w by (intro row_bound) auto
    from blur_runs_spec [OF l j(1) rb rb _ ne w runs cb] obtain v where
      v: "for_up 0 runs (blur_run (Some S, 0) (Some Tm, 0) (Some D, 0) w runs callback j) u = Some (runs, v)"
        "frame {Tm, D} u v"
        "\<forall>i. 0 \<le> i \<and> i < w \<longrightarrow>
          cell v D (j * w + i) = (b1 w ^^ nat runs) (\<lambda>m. cb_fun callback (cell u S (j * w + m))) i"
        "\<forall>k. 0 \<le> k \<and> (k < j * w \<or> j * w + w \<le> k) \<longrightarrow> cell v D k = cell u D k"
      by auto
    have src: "cell u S (j * w + m) = cell h S (j * w + m)" if "0 \<le> m" for m
    proof (cases "S = D")
      case True
      then show ?thesis using Jrest [OF u, of "j * w + m"] that jw by simp
    next
      case False
      then show ?thesis using frame_cell [OF Jf [OF u], of S] ne by simp
    qed
    have new: "cell v D (j * w + i) = ?res j i" if "0 \<le> i" "i < w" for i
    proof -
      have "(b1 w ^^ nat runs) (\<lambda>m. cb_fun callback (cell u S (j * w + m))) i = ?res j i"
        by (rule b1_iter_cong) (use src that in auto)
      then show ?thesis using v(3) that by simp
    qed
    have "J (j + 1) v"
      unfolding J_def
    proof (intro conjI allI impI)
      show "frame {Tm, D} h v" using Jf [OF u] v(2) by (rule frame_trans)
    next
      fix j' i
      assume a: "0 \<le> j' \<and> j' < j + 1 \<and> 0 \<le> i \<and> i < w"
      show "cell v D (j' * w + i) = ?res j' i"
      proof (cases "j' = j")
        case True
        then show ?thesis using new [of i] a by simp
      next
        case False
        then have lt: "j' < j" using a by simp
        have "j' * w + w \<le> w * j" using a lt w by (intro row_bound) auto
        then have "j' * w + i < j * w" using a by (simp add: mult.commute)
        moreover have "0 \<le> j' * w + i" using a w by simp
        ultimately have "cell v D (j' * w + i) = cell u D (j' * w + i)" using v(4) by simp
        then show ?thesis using Jdone [OF u, of j' i] a lt by simp
      qed
    next
      fix k
      assume k: "0 \<le> k \<and> (j + 1) * w \<le> k"
      then have k2: "j * w + w \<le> k" by (simp add: algebra_simps)
      then have "cell v D k = cell u D k" using v(4) k by simp
      moreover have "cell u D k = cell h D k" by (rule Jrest [OF u]) (use k k2 w in auto)
      ultimately show "cell v D k = cell h D k" by simp
    qed
    then show ?thesis using v(1) by simp
  qed
  have j0: "J 0 h" by (auto simp: J_def frame_refl)
  have "\<exists>t. for_up 0 hh ?body h = Some (max 0 hh, t) \<and> J (max 0 hh) t"
    by (rule for_up_total_idx [where P = J, OF j0]) (use step in auto)
  then obtain t where t: "for_up 0 hh ?body h = Some (max 0 hh, t)" and jt: "J (max 0 hh) t" by blast
  have "regular_1d_blur (Some S, 0) (Some Tm, 0) (Some D, 0) w hh runs callback h = Some t"
    using t by (simp add: regular_1d_blur_def)
  moreover have "cell t D (j * w + i) = ?res j i" if "0 \<le> j \<and> j < hh \<and> 0 \<le> i \<and> i < w" for j i
    by (rule Jdone [OF jt]) (use that in auto)
  ultimately show ?thesis using Jf [OF jt] by blast
qed

lemma idx_inj:
  fixes i j i' j' hh :: int
  assumes "0 \<le> j" "j < hh" "0 \<le> j'" "j' < hh" "i * hh + j = i' * hh + j'"
  shows "i = i' \<and> j = j'"
proof -
  have a: "(i * hh + j) div hh = i" using assms(1,2) by simp
  have b: "(i' * hh + j') div hh = i'" using assms(3,4) by simp
  have "i = i'" using a b unfolding assms(5) by simp
  then show ?thesis using assms(5) by simp
qed

lemma copied_mono:
  assumes "copied h u A B w hh dn"
    and "\<And>j i. 0 \<le> j \<Longrightarrow> j < hh \<Longrightarrow> 0 \<le> i \<Longrightarrow> i < w \<Longrightarrow> dn' j i \<Longrightarrow> dn j i"
  shows "copied h u A B w hh dn'"
  using assms unfolding copied_def by blast

lemma transpose_px_step:
  assumes A: "has_len h A (w * hh)" and B: "has_len h B (w * hh)" and ne: "A \<noteq> B"
    and i: "0 \<le> i" "i < w" and j: "0 \<le> j" "j < hh"
    and inv: "copied h u A B w hh dn"
  shows "\<exists>v. transpose_px (padd (Some A, 0) (j * w)) (Some B, 0) hh j i u = Some v \<and>
    copied h v A B w hh (\<lambda>j' i'. dn j' i' \<or> (j' = j \<and> i' = i))"
proof -
  have f: "frame {B} h u" using inv by (simp add: copied_def)
  have l: "has_len u A (w * hh)" "has_len u B (w * hh)"
    using A B by (simp_all add: frame_has_len [OF f])
  have b1: "0 \<le> j * w + i" "j * w + i < w * hh" using idx_bound [OF i j] by auto
  have b2: "0 \<le> 0 + (i * hh + j)" "0 + (i * hh + j) < w * hh"
    using idx_bound [OF j i] by (auto simp: mult.commute)
  have r: "rd (padd (Some A, 0) (j * w)) i u = Some (cell h A (j * w + i))"
    using rd_cell [OF l(1) b1] frame_cell [OF f, of A] ne by (simp add: padd_def)
  from wr_cell [OF l(2) b2, of "cell h A (j * w + i)"] obtain v where
    v: "wr (Some B, 0) (i * hh + j) (cell h A (j * w + i)) u = Some v" "frame {B} u v"
      "cell v B (i * hh + j) = cell h A (j * w + i)"
      "\<forall>k. 0 \<le> k \<and> k \<noteq> i * hh + j \<longrightarrow> cell v B k = cell u B k"
    by auto
  have "copied h v A B w hh (\<lambda>j' i'. dn j' i' \<or> (j' = j \<and> i' = i))"
    unfolding copied_def
  proof (intro conjI allI impI)
    show "frame {B} h v" using f v(2) by (rule frame_trans)
  next
    fix j' i'
    assume a: "0 \<le> j' \<and> j' < hh \<and> 0 \<le> i' \<and> i' < w \<and> (dn j' i' \<or> j' = j \<and> i' = i)"
    show "cell v B (i' * hh + j') = cell h A (j' * w + i')"
    proof (cases "j' = j \<and> i' = i")
      case True
      then show ?thesis using v(3) by simp
    next
      case False
      then have d: "dn j' i'" using a by blast
      have "i' * hh + j' \<noteq> i * hh + j" using idx_inj [of j' hh j i' i] a j False by blast
      moreover have "0 \<le> i' * hh + j'" using a j by simp
      ultimately have "cell v B (i' * hh + j') = cell u B (i' * hh + j')" using v(4) by simp
      then show ?thesis using inv a d by (simp add: copied_def)
    qed
  qed
  then show ?thesis using r v(1) by (simp add: transpose_px_def)
qed

lemma transpose_px4_step:
  assumes A: "has_len h A (w * hh)" and B: "has_len h B (w * hh)" and ne: "A \<noteq> B"
    and i: "0 \<le> i" "i < w" and j: "0 \<le> j" "j + 3 < hh"
    and inv: "copied h u A B w hh dn"
  shows "\<exists>v. transpose_px4 (Some A, 0) (Some B, 0) w hh j i u = Some v \<and>
    copied h v A B w hh (\<lambda>j' i'. dn j' i' \<or> (j \<le> j' \<and> j' < j + 4 \<and> i' = i))"
proof -
  from transpose_px_step [OF A B ne i _ _ inv, of "j + 0"] j obtain v0 where
    v0: "transpose_px (padd (Some A, 0) ((j + 0) * w)) (Some B, 0) hh (j + 0) i u = Some v0"
      "copied h v0 A B w hh (\<lambda>j' i'. dn j' i' \<or> (j' = j + 0 \<and> i' = i))" by auto
  from transpose_px_step [OF A B ne i _ _ v0(2), of "j + 1"] j obtain v1 where
    v1: "transpose_px (padd (Some A, 0) ((j + 1) * w)) (Some B, 0) hh (j + 1) i v0 = Some v1"
      "copied h v1 A B w hh (\<lambda>j' i'. (dn j' i' \<or> (j' = j + 0 \<and> i' = i)) \<or> (j' = j + 1 \<and> i' = i))" by auto
  from transpose_px_step [OF A B ne i _ _ v1(2), of "j + 2"] j obtain v2 where
    v2: "transpose_px (padd (Some A, 0) ((j + 2) * w)) (Some B, 0) hh (j + 2) i v1 = Some v2"
      "copied h v2 A B w hh (\<lambda>j' i'. ((dn j' i' \<or> (j' = j + 0 \<and> i' = i)) \<or> (j' = j + 1 \<and> i' = i)) \<or>
         (j' = j + 2 \<and> i' = i))" by auto
  from transpose_px_step [OF A B ne i _ _ v2(2), of "j + 3"] j obtain v3 where
    v3: "transpose_px (padd (Some A, 0) ((j + 3) * w)) (Some B, 0) hh (j + 3) i v2 = Some v3"
      "copied h v3 A B w hh (\<lambda>j' i'. (((dn j' i' \<or> (j' = j + 0 \<and> i' = i)) \<or> (j' = j + 1 \<and> i' = i)) \<or>
         (j' = j + 2 \<and> i' = i)) \<or> (j' = j + 3 \<and> i' = i))" by auto
  have "copied h v3 A B w hh (\<lambda>j' i'. dn j' i' \<or> (j \<le> j' \<and> j' < j + 4 \<and> i' = i))"
    by (rule copied_mono [OF v3(2)]) auto
  moreover have "transpose_px4 (Some A, 0) (Some B, 0) w hh j i u = Some v3"
    unfolding transpose_px4_def using v0(1) v1(1) v2(1) v3(1) by simp
  ultimately show ?thesis by blast
qed

lemma transpose_row:
  assumes A: "has_len h A (w * hh)" and B: "has_len h B (w * hh)" and ne: "A \<noteq> B"
    and j: "0 \<le> j" "j < hh"
    and inv: "copied h u A B w hh (\<lambda>j' i'. j' < j)"
  shows "\<exists>v. map_option snd (for_up 0 w (transpose_px (padd (Some A, 0) (j * w)) (Some B, 0) hh j) u) = Some v \<and>
    copied h v A B w hh (\<lambda>j' i'. j' < j + 1)"
proof -
  let ?P = "\<lambda>i u. copied h u A B w hh (\<lambda>j' i'. j' < j \<or> (j' = j \<and> i' < i))"
  have p0: "?P 0 u" by (rule copied_mono [OF inv]) auto
  have "\<exists>t. for_up 0 w (transpose_px (padd (Some A, 0) (j * w)) (Some B, 0) hh j) u = Some (max 0 w, t) \<and>
      ?P (max 0 w) t"
  proof (rule for_up_total_idx [where P = ?P, OF p0])
    fix i u'
    assume i: "0 \<le> i" "i < w" and p: "?P i u'"
    from transpose_px_step [OF A B ne i j p] obtain v where
      v: "transpose_px (padd (Some A, 0) (j * w)) (Some B, 0) hh j i u' = Some v"
        "copied h v A B w hh (\<lambda>j' i'. (j' < j \<or> (j' = j \<and> i' < i)) \<or> (j' = j \<and> i' = i))" by blast
    have "?P (i + 1) v" by (rule copied_mono [OF v(2)]) auto
    then show "\<exists>v. transpose_px (padd (Some A, 0) (j * w)) (Some B, 0) hh j i u' = Some v \<and> ?P (i + 1) v"
      using v(1) by blast
  qed
  then obtain t where t: "for_up 0 w (transpose_px (padd (Some A, 0) (j * w)) (Some B, 0) hh j) u = Some (max 0 w, t)"
    and pt: "?P (max 0 w) t" by blast
  have "copied h t A B w hh (\<lambda>j' i'. j' < j + 1)" by (rule copied_mono [OF pt]) auto
  then show ?thesis using t by simp
qed

lemma transpose_row4:
  assumes A: "has_len h A (w * hh)" and B: "has_len h B (w * hh)" and ne: "A \<noteq> B"
    and j: "0 \<le> j" "j + 3 < hh"
    and inv: "copied h u A B w hh (\<lambda>j' i'. j' < j)"
  shows "\<exists>v. map_option snd (for_up 0 w (transpose_px4 (Some A, 0) (Some B, 0) w hh j) u) = Some v \<and>
    copied h v A B w hh (\<lambda>j' i'. j' < j + 4)"
proof -
  let ?P = "\<lambda>i u. copied h u A B w hh (\<lambda>j' i'. j' < j \<or> (j' < j + 4 \<and> i' < i))"
  have p0: "?P 0 u" by (rule copied_mono [OF inv]) auto
  have "\<exists>t. for_up 0 w (transpose_px4 (Some A, 0) (Some B, 0) w hh j) u = Some (max 0 w, t) \<and>
      ?P (max 0 w) t"
  proof (rule for_up_total_idx [where P = ?P, OF p0])
    fix i u'
    assume i: "0 \<le> i" "i < w" and p: "?P i u'"
    from transpose_px4_step [OF A B ne i j p] obtain v where
      v: "transpose_px4 (Some A, 0) (Some B, 0) w hh j i u' = Some v"
        "copied h v A B w hh (\<lambda>j' i'. (j' < j \<or> (j' < j + 4 \<and> i' < i)) \<or> (j \<le> j' \<and> j' < j + 4 \<and> i' = i))"
      by blast
    have "?P (i + 1) v" by (rule copied_mono [OF v(2)]) auto
    then show "\<exists>v. transpose_px4 (Some A, 0) (Some B, 0) w hh j i u' = Some v \<and> ?P (i + 1) v"
      using v(1) by blast
  qed
  then obtain t where t: "for_up 0 w (transpose_px4 (Some A, 0) (Some B, 0) w hh j) u = Some (max 0 w, t)"
    and pt: "?P (max 0 w) t" by blast
  have "copied h t A B w hh (\<lambda>j' i'. j' < j + 4)" by (rule copied_mono [OF pt]) auto
  then show ?thesis using t by simp
qed

lemma transpose_spec:
  assumes A: "has_len h A (w * hh)" and B: "has_len h B (w * hh)" and ne: "A \<noteq> B" and hh: "0 \<le> hh"
  shows "\<exists>h'. transpose (Some A, 0) (Some B, 0) w hh h = Some h' \<and> frame {B} h h' \<and>
    (\<forall>i j. 0 \<le> i \<and> i < w \<and> 0 \<le> j \<and> j < hh \<longrightarrow> cell h' B (i * hh + j) = cell h A (j * w + i))"
proof -
  let ?P = "\<lambda>j u. 0 \<le> j \<and> copied h u A B w hh (\<lambda>j' i'. j' < j)"
  let ?b4 = "\<lambda>j h. map_option snd (for_up 0 w (transpose_px4 (Some A, 0) (Some B, 0) w hh j) h)"
  let ?b1 = "\<lambda>j h. map_option snd (for_up 0 w (transpose_px (padd (Some A, 0) (j * w)) (Some B, 0) hh j) h)"
  have p0: "?P 0 h" by (auto simp: copied_def frame_refl)
  have "\<exists>k t. for_up4 0 (hh - 4) ?b4 h = Some (k, t) \<and> ?P k t \<and> 0 \<le> k \<and> (k - 0) mod 4 = 0 \<and>
      (0 < hh - 4 \<longrightarrow> hh - 4 \<le> k \<and> k < hh - 4 + 4) \<and> (\<not> 0 < hh - 4 \<longrightarrow> k = 0)"
  proof (rule for_up4_total_idx [where P = ?P, OF p0])
    fix j u
    assume j: "0 \<le> j" "j < hh - 4" and p: "?P j u"
    have j3: "j + 3 < hh" using j by simp
    from p have c: "copied h u A B w hh (\<lambda>j' i'. j' < j)" by simp
    from transpose_row4 [OF A B ne j(1) j3 c] show "\<exists>v. ?b4 j u = Some v \<and> ?P (j + 4) v"
      using j by auto
  qed
  then obtain k t where t: "for_up4 0 (hh - 4) ?b4 h = Some (k, t)" and pk: "?P k t"
    and k: "0 < hh - 4 \<longrightarrow> k < hh" "\<not> 0 < hh - 4 \<longrightarrow> k = 0" by auto
  have kh: "k \<le> hh" using k hh by (cases "0 < hh - 4") auto
  have "\<exists>t'. for_up k hh ?b1 t = Some (max k hh, t') \<and> ?P (max k hh) t'"
  proof (rule for_up_total_idx [where P = ?P, OF pk])
    fix j u
    assume j: "k \<le> j" "j < hh" and p: "?P j u"
    from p have c: "copied h u A B w hh (\<lambda>j' i'. j' < j)" and j0: "0 \<le> j" by simp_all
    from transpose_row [OF A B ne j0 j(2) c] show "\<exists>v. ?b1 j u = Some v \<and> ?P (j + 1) v"
      using j0 by auto
  qed
  then obtain t' where t': "for_up k hh ?b1 t = Some (hh, t')" and c: "copied h t' A B w hh (\<lambda>j' i'. j' < hh)"
    using kh by (auto simp: max_def)
  have "transpose (Some A, 0) (Some B, 0) w hh h = Some t'"
    using t t' by (simp add: transpose_def)
  then show ?thesis using c unfolding copied_def by auto
qed

lemma cb_fun_None [simp]: "cb_fun None x = x"
  by (simp add: cb_fun_def)

lemma cb_fun_Some [simp]: "cb_fun (Some c) x = x * x"
  by (simp add: cb_fun_def)

lemma cb_ok_None [simp]: "cb_ok None"
  by (simp add: cb_ok_def)

lemma cb_ok_square [simp]: "cb_ok (Some square_row)"
  by (simp add: cb_ok_def)

lemma area_ge:
  fixes w hh :: int
  assumes "4 \<le> w" "4 \<le> hh"
  shows "2 * w \<le> w * hh" "2 * hh \<le> w * hh"
proof -
  have "w * 2 \<le> w * hh" using assms by (intro mult_left_mono) auto
  then show "2 * w \<le> w * hh" by simp
  have "2 * hh \<le> w * hh" using assms by (intro mult_right_mono) auto
  then show "2 * hh \<le> w * hh" by simp
qed

lemma blur_spec:
  assumes S: "has_len h S (w * hh)" and D: "has_len h D (w * hh)" and T: "has_len h Tm (w * hh)"
    and ne: "Tm \<noteq> S" "Tm \<noteq> D"
    and w: "4 \<le> w" and hh: "4 \<le> hh" and sz: "2 \<le> sz" and cb: "cb_ok callback"
  shows "\<exists>h'. blur (Some S, 0) (Some Tm, 0) (Some D, 0) w hh sz callback h = Some h' \<and>
    frame {Tm, D} h h' \<and>
    (\<forall>j i. 0 \<le> j \<and> j < hh \<and> 0 \<le> i \<and> i < w \<longrightarrow>
       cell h' D (j * w + i) =
         blur2 w hh (nat sz) (\<lambda>m m'. cb_fun callback (cell h S (m * w + m'))) j i)"
proof -
  let ?R = "\<lambda>j. (b1 w ^^ nat sz) (\<lambda>m. cb_fun callback (cell h S (j * w + m)))"
  have T2: "has_len h Tm (2 * w)" by (rule has_len_mono [OF T]) (rule area_ge [OF w hh])
  from regular_1d_blur_spec [OF S D T2 ne w sz cb] obtain h1 where
    h1: "regular_1d_blur (Some S, 0) (Some Tm, 0) (Some D, 0) w hh sz callback h = Some h1"
      "frame {Tm, D} h h1"
      "\<forall>j i. 0 \<le> j \<and> j < hh \<and> 0 \<le> i \<and> i < w \<longrightarrow> cell h1 D (j * w + i) = ?R j i"
    by blast
  have l1: "has_len h1 D (w * hh)" "has_len h1 Tm (w * hh)"
    using D T by (simp_all add: frame_has_len [OF h1(2)])
  have hh0: "0 \<le> hh" and w0: "0 \<le> w" using w hh by simp_all
  from transpose_spec [OF l1 ne(2) [symmetric] hh0] obtain h2 where
    h2: "transpose (Some D, 0) (Some Tm, 0) w hh h1 = Some h2" "frame {Tm} h1 h2"
      "\<forall>i j. 0 \<le> i \<and> i < w \<and> 0 \<le> j \<and> j < hh \<longrightarrow> cell h2 Tm (i * hh + j) = cell h1 D (j * w + i)"
    by blast
  have l2: "has_len h2 Tm (hh * w)" "has_len h2 D (hh * w)"
    using l1 by (simp_all add: frame_has_len [OF h2(2)] mult.commute)
  have D2: "has_len h2 D (2 * hh)"
    by (rule has_len_mono [OF l2(2)]) (use area_ge [OF w hh] in \<open>simp add: mult.commute\<close>)
  from regular_1d_blur_spec [OF l2(1) l2(1) D2 ne(2) [symmetric] ne(2) [symmetric] hh sz cb_ok_None] obtain h3 where
    h3: "regular_1d_blur (Some Tm, 0) (Some D, 0) (Some Tm, 0) hh w sz None h2 = Some h3"
      "frame {D, Tm} h2 h3"
      "\<forall>j i. 0 \<le> j \<and> j < w \<and> 0 \<le> i \<and> i < hh \<longrightarrow>
         cell h3 Tm (j * hh + i) = (b1 hh ^^ nat sz) (\<lambda>m. cb_fun None (cell h2 Tm (j * hh + m))) i"
    by blast
  have l3: "has_len h3 Tm (hh * w)" "has_len h3 D (hh * w)"
    using l2 by (simp_all add: frame_has_len [OF h3(2)])
  from transpose_spec [OF l3 ne(2) w0] obtain h4 where
    h4: "transpose (Some Tm, 0) (Some D, 0) hh w h3 = Some h4" "frame {D} h3 h4"
      "\<forall>i j. 0 \<le> i \<and> i < hh \<and> 0 \<le> j \<and> j < w \<longrightarrow> cell h4 D (i * w + j) = cell h3 Tm (j * hh + i)"
    by blast
  have run: "blur (Some S, 0) (Some Tm, 0) (Some D, 0) w hh sz callback h = Some h4"
    using h1(1) h2(1) h3(1) h4(1) by (simp add: blur_def)
  have f: "frame {Tm, D} h h4"
  proof -
    have "frame {Tm, D} h1 h2" by (rule frame_mono [OF h2(2)]) simp
    moreover have "frame {Tm, D} h2 h3" by (rule frame_mono [OF h3(2)]) auto
    moreover have "frame {Tm, D} h3 h4" by (rule frame_mono [OF h4(2)]) simp
    ultimately show ?thesis using h1(2) by (blast intro: frame_trans)
  qed
  have res: "cell h4 D (j * w + i) = blur2 w hh (nat sz) (\<lambda>m m'. cb_fun callback (cell h S (m * w + m'))) j i"
    if r: "0 \<le> j \<and> j < hh \<and> 0 \<le> i \<and> i < w" for j i
  proof -
    have "cell h4 D (j * w + i) = cell h3 Tm (i * hh + j)" using h4(3) r by simp
    also have "\<dots> = (b1 hh ^^ nat sz) (\<lambda>m. cell h2 Tm (i * hh + m)) j" using h3(3) r by simp
    also have "\<dots> = (b1 hh ^^ nat sz) (\<lambda>m. ?R m i) j"
    proof (rule b1_iter_cong)
      fix m
      assume "0 \<le> m" "m < hh"
      then show "cell h2 Tm (i * hh + m) = ?R m i" using h2(3) h1(3) r by simp
    qed (use r in auto)
    finally show ?thesis by (simp add: blur2_def)
  qed
  show ?thesis using run f res by blast
qed

section \<open>The structural similarity of a channel\<close>

lemma cell_chans_update [simp]: "cell (h\<lparr>chans := x\<rparr>) a k = cell h a k"
  by (simp add: cell_def)

lemma has_len_chans_update [simp]: "has_len (h\<lparr>chans := x\<rparr>) a n = has_len h a n"
  by (simp add: has_len_def)

lemma chan_upd_Some: "chans h c = Some r \<Longrightarrow> chan_upd c f h = Some (h\<lparr>chans := (chans h)(c \<mapsto> f r)\<rparr>)"
  by (simp add: chan_upd_def)

lemma mul_loop_spec:
  assumes A: "has_len h io n" and B: "has_len h im n"
  shows "\<exists>h'. for_up 0 n (mul_px (Some io, 0) (Some im, 0)) h = Some (max 0 n, h') \<and> frame {im} h h' \<and>
    (\<forall>k. 0 \<le> k \<and> k < n \<longrightarrow> cell h' im k = cell h im k * cell h io k)"
proof -
  define J where "J j u \<longleftrightarrow> frame {im} h u \<and>
      (\<forall>k. 0 \<le> k \<and> k < j \<longrightarrow> cell u im k = cell h im k * cell h io k) \<and>
      (\<forall>k. 0 \<le> k \<and> j \<le> k \<longrightarrow> cell u im k = cell h im k)" for j u
  have Jf: "frame {im} h u" if "J j u" for j u
    using that by (simp add: J_def)
  have Jdone: "cell u im k = cell h im k * cell h io k" if "J j u" "0 \<le> k" "k < j" for j u k
    using that by (simp add: J_def)
  have Jrest: "cell u im k = cell h im k" if "J j u" "0 \<le> k" "j \<le> k" for j u k
    using that by (simp add: J_def)
  have step: "\<exists>v. mul_px (Some io, 0) (Some im, 0) j u = Some v \<and> J (j + 1) v"
    if j: "0 \<le> j" "j < n" and u: "J j u" for j u
  proof -
    have l: "has_len u io n" "has_len u im n"
      using A B by (simp_all add: frame_has_len [OF Jf [OF u]])
    have b: "0 \<le> 0 + j" "0 + j < n" using j by simp_all
    have ra: "rd (Some im, 0) j u = Some (cell h im j)"
      using rd_cell [OF l(2) b] Jrest [OF u j(1)] by simp
    have cio: "cell u io j = cell h io j"
    proof (cases "io = im")
      case True
      then show ?thesis using Jrest [OF u j(1)] by simp
    next
      case False
      then show ?thesis using frame_cell [OF Jf [OF u], of io] by simp
    qed
    have rb: "rd (Some io, 0) j u = Some (cell h io j)"
      using rd_cell [OF l(1) b] cio by simp
    from wr_cell [OF l(2) b, of "cell h im j * cell h io j"] obtain v where
      v: "wr (Some im, 0) j (cell h im j * cell h io j) u = Some v" "frame {im} u v"
        "cell v im j = cell h im j * cell h io j"
        "\<forall>k. 0 \<le> k \<and> k \<noteq> j \<longrightarrow> cell v im k = cell u im k"
      by auto
    have "J (j + 1) v"
      unfolding J_def
    proof (intro conjI allI impI)
      show "frame {im} h v" using Jf [OF u] v(2) by (rule frame_trans)
    next
      fix k
      assume k: "0 \<le> k \<and> k < j + 1"
      show "cell v im k = cell h im k * cell h io k"
      proof (cases "k = j")
        case True
        then show ?thesis using v(3) by simp
      next
        case False
        then have "cell v im k = cell u im k" using v(4) k by simp
        then show ?thesis using Jdone [OF u, of k] k False by simp
      qed
    next
      fix k
      assume k: "0 \<le> k \<and> j + 1 \<le> k"
      then have "cell v im k = cell u im k" using v(4) by simp
      then show "cell v im k = cell h im k" using Jrest [OF u, of k] k by simp
    qed
    then show ?thesis using ra rb v(1) by (simp add: mul_px_def)
  qed
  have j0: "J 0 h" by (auto simp: J_def frame_refl)
  have "\<exists>t. for_up 0 n (mul_px (Some io, 0) (Some im, 0)) h = Some (max 0 n, t) \<and> J (max 0 n) t"
    by (rule for_up_total_idx [where P = J, OF j0]) (use step in auto)
  then obtain t where t: "for_up 0 n (mul_px (Some io, 0) (Some im, 0)) h = Some (max 0 n, t)"
    and jt: "J (max 0 n) t" by blast
  have "cell t im k = cell h im k * cell h io k" if "0 \<le> k \<and> k < n" for k
    by (rule Jdone [OF jt]) (use that in auto)
  then show ?thesis using t Jf [OF jt] by blast
qed

lemma get_img1_img2_blur_spec:
  assumes oc: "chans h original = Some oc" and mc: "chans h modified = Some mc"
    and ne: "original \<noteq> modified"
    and io: "img oc = Some io" and im: "img mc = Some im"
    and l: "has_len h io (width oc * height oc)" "has_len h im (width oc * height oc)"
      "has_len h t (width oc * height oc)"
    and t: "t \<noteq> im"
    and sz: "4 \<le> width oc" "4 \<le> height oc" "2 \<le> blur_size oc"
  shows "\<exists>h'. get_img1_img2_blur original modified (Some t, 0) h = Some (Some im, h') \<and>
    frame {t, im} (h\<lparr>chans := (chans h)(modified \<mapsto> mc\<lparr>img := None\<rparr>)\<rparr>) h' \<and>
    (\<forall>j i. 0 \<le> j \<and> j < height oc \<and> 0 \<le> i \<and> i < width oc \<longrightarrow>
       cell h' im (j * width oc + i) =
         blur2 (width oc) (height oc) (nat (blur_size oc))
           (\<lambda>m m'. cell h im (m * width oc + m') * cell h io (m * width oc + m')) j i)"
proof -
  let ?w = "width oc" and ?hh = "height oc"
  let ?h1 = "h\<lparr>chans := (chans h)(modified \<mapsto> mc\<lparr>img := None\<rparr>)\<rparr>"
  have u1: "chan_upd modified (\<lambda>r. r\<lparr>img := None\<rparr>) h = Some ?h1"
    using mc by (simp add: chan_upd_Some)
  have l1: "has_len ?h1 io (?w * ?hh)" "has_len ?h1 im (?w * ?hh)" "has_len ?h1 t (?w * ?hh)"
    using l by simp_all
  have n0: "0 \<le> ?w * ?hh" using sz by simp
  from mul_loop_spec [OF l1(1,2)] obtain h2 where
    h2: "for_up 0 (?w * ?hh) (mul_px (Some io, 0) (Some im, 0)) ?h1 = Some (?w * ?hh, h2)"
      "frame {im} ?h1 h2"
      "\<forall>k. 0 \<le> k \<and> k < ?w * ?hh \<longrightarrow> cell h2 im k = cell h im k * cell h io k"
    using n0 by (auto simp: max_def)
  have o2: "chans h2 original = Some oc" using h2(2) oc ne by (simp add: frame_def)
  have l2: "has_len h2 im (?w * ?hh)" "has_len h2 t (?w * ?hh)"
    using l1 by (simp_all add: frame_has_len [OF h2(2)])
  from blur_spec [OF l2(1) l2(1) l2(2) t t sz(1,2,3) cb_ok_None] obtain h3 where
    h3: "blur (Some im, 0) (Some t, 0) (Some im, 0) ?w ?hh (blur_size oc) None h2 = Some h3"
      "frame {t, im} h2 h3"
      "\<forall>j i. 0 \<le> j \<and> j < ?hh \<and> 0 \<le> i \<and> i < ?w \<longrightarrow>
         cell h3 im (j * ?w + i) =
           blur2 ?w ?hh (nat (blur_size oc)) (\<lambda>m m'. cb_fun None (cell h2 im (m * ?w + m'))) j i"
    by blast
  have run: "get_img1_img2_blur original modified (Some t, 0) h = Some (Some im, h3)"
    using oc mc u1 h2(1) o2 h3(1) io im by (simp add: get_img1_img2_blur_def ptr_of_def)
  have f: "frame {t, im} ?h1 h3"
    by (rule frame_trans [OF frame_mono [OF h2(2)] h3(2)]) simp
  have res: "cell h3 im (j * ?w + i) =
      blur2 ?w ?hh (nat (blur_size oc)) (\<lambda>m m'. cell h im (m * ?w + m') * cell h io (m * ?w + m')) j i"
    if r: "0 \<le> j \<and> j < ?hh \<and> 0 \<le> i \<and> i < ?w" for j i
  proof -
    have "cell h3 im (j * ?w + i) =
        blur2 ?w ?hh (nat (blur_size oc)) (\<lambda>m m'. cell h2 im (m * ?w + m')) j i"
      using h3(3) r by simp
    also have "\<dots> = blur2 ?w ?hh (nat (blur_size oc))
        (\<lambda>m m'. cell h im (m * ?w + m') * cell h io (m * ?w + m')) j i"
      unfolding blur2_def
    proof (rule b1_iter_cong)
      fix m
      assume m: "0 \<le> m" "m < ?hh"
      show "(b1 ?w ^^ nat (blur_size oc)) (\<lambda>m'. cell h2 im (m * ?w + m')) i =
          (b1 ?w ^^ nat (blur_size oc)) (\<lambda>m'. cell h im (m * ?w + m') * cell h io (m * ?w + m')) i"
      proof (rule b1_iter_cong)
        fix m'
        assume m': "0 \<le> m'" "m' < ?w"
        have "0 \<le> m * ?w + m'" "m * ?w + m' < ?w * ?hh" using idx_bound [OF m' m] by auto
        then show "cell h2 im (m * ?w + m') = cell h im (m * ?w + m') * cell h io (m * ?w + m')"
          using h2(3) by simp
      qed (use r in auto)
    qed (use r in auto)
    finally show ?thesis .
  qed
  show ?thesis using run f res by blast
qed

lemma free_Some:
  "has_len h a n \<Longrightarrow> free (Some a) h = Some (h\<lparr>bufs := (bufs h)(a := None)\<rparr>)"
  by (auto simp: free_def has_len_def split: option.splits)

lemma has_len_free_other:
  "a \<noteq> b \<Longrightarrow> has_len (h\<lparr>bufs := (bufs h)(a := None)\<rparr>) b n = has_len h b n"
  by (simp add: has_len_def)

lemma ssim_loop_spec:
  assumes l: "has_len h1 m1 n" "has_len h1 m2 n" "has_len h1 s1 n" "has_len h1 s2 n" "has_len h1 p n"
  shows "\<exists>h2. for_up 0 n
      (ssim_px (Some m1, 0) (Some m2, 0) (Some s1, 0) (Some s2, 0) (Some p, 0)
         (if smo then (Some m2, 0) else (None, 0)) (Fin 0.01 * Fin 0.01) (Fin 0.03 * Fin 0.03))
      (Fin 0, h1) =
    Some (max 0 n,
      (sum_list (map (\<lambda>k. ssim_formula (cell h1 m1 (int k)) (cell h1 m2 (int k)) (cell h1 s1 (int k))
         (cell h1 s2 (int k)) (cell h1 p (int k))) [0..<nat n]), h2)) \<and>
    frame {m2} h1 h2"
proof -
  let ?F = "\<lambda>k. ssim_formula (cell h1 m1 (int k)) (cell h1 m2 (int k)) (cell h1 s1 (int k))
         (cell h1 s2 (int k)) (cell h1 p (int k))"
  let ?body = "ssim_px (Some m1, 0) (Some m2, 0) (Some s1, 0) (Some s2, 0) (Some p, 0)
         (if smo then (Some m2, 0) else (None, 0)) (Fin 0.01 * Fin 0.01) (Fin 0.03 * Fin 0.03)"
  define Q where "Q j st \<longleftrightarrow> fst st = sum_list (map ?F [0..<nat j]) \<and> frame {m2} h1 (snd st) \<and>
      (\<forall>b k. 0 \<le> k \<and> j \<le> k \<longrightarrow> cell (snd st) b k = cell h1 b k)" for j st
  have Qs: "fst st = sum_list (map ?F [0..<nat j])" if "Q j st" for j st
    using that by (simp add: Q_def)
  have Qf: "frame {m2} h1 (snd st)" if "Q j st" for j st
    using that by (simp add: Q_def)
  have Qr: "cell (snd st) b k = cell h1 b k" if "Q j st" "0 \<le> k" "j \<le> k" for j st b k
    using that by (simp add: Q_def)
  have step: "\<exists>v. ?body j st = Some v \<and> Q (j + 1) v" if j: "0 \<le> j" "j < n" and q: "Q j st" for j st
  proof -
    let ?u = "snd st"
    have lu: "has_len ?u m1 n" "has_len ?u m2 n" "has_len ?u s1 n" "has_len ?u s2 n" "has_len ?u p n"
      using l by (simp_all add: frame_has_len [OF Qf [OF q]])
    have b: "0 \<le> 0 + j" "0 + j < n" using j by simp_all
    have r: "rd (Some m1, 0) j ?u = Some (cell h1 m1 j)" "rd (Some m2, 0) j ?u = Some (cell h1 m2 j)"
      "rd (Some s1, 0) j ?u = Some (cell h1 s1 j)" "rd (Some s2, 0) j ?u = Some (cell h1 s2 j)"
      "rd (Some p, 0) j ?u = Some (cell h1 p j)"
      using rd_cell [OF lu(1) b] rd_cell [OF lu(2) b] rd_cell [OF lu(3) b] rd_cell [OF lu(4) b]
        rd_cell [OF lu(5) b] Qr [OF q j(1)] by simp_all
    let ?x = "ssim_formula (cell h1 m1 j) (cell h1 m2 j) (cell h1 s1 j) (cell h1 s2 j) (cell h1 p j)"
    have nj: "[0..<nat (j + 1)] = [0..<nat j] @ [nat j]" using j by (simp add: nat_add_distrib)
    have acc: "fst st + ?x = sum_list (map ?F [0..<nat (j + 1)])"
      unfolding nj using Qs [OF q] j by simp
    show ?thesis
    proof (cases smo)
      case False
      have "?body j st = Some (fst st + ?x, ?u)"
        using False r by (simp add: ssim_px_def ssim_formula_def Let_def)
      moreover have "Q (j + 1) (fst st + ?x, ?u)"
        unfolding Q_def using acc Qf [OF q] Qr [OF q] by auto
      ultimately show ?thesis by blast
    next
      case True
      from wr_cell [OF lu(2) b, of ?x] obtain v where
        v: "wr (Some m2, 0) j ?x ?u = Some v" "frame {m2} ?u v"
          "\<forall>k. 0 \<le> k \<and> k \<noteq> j \<longrightarrow> cell v m2 k = cell ?u m2 k"
        by auto
      have "?body j st = Some (fst st + ?x, v)"
        using True r v(1) by (simp add: ssim_px_def ssim_formula_def Let_def)
      moreover have "Q (j + 1) (fst st + ?x, v)"
        unfolding Q_def
      proof (intro conjI allI impI)
        show "fst (fst st + ?x, v) = sum_list (map ?F [0..<nat (j + 1)])" using acc by simp
        show "frame {m2} h1 (snd (fst st + ?x, v))" using frame_trans [OF Qf [OF q] v(2)] by simp
      next
        fix b' k
        assume k: "0 \<le> k \<and> j + 1 \<le> k"
        have "cell v b' k = cell ?u b' k"
        proof (cases "b' = m2")
          case True
          then show ?thesis using v(3) k by simp
        next
          case False
          then show ?thesis using frame_cell [OF v(2), of b'] by simp
        qed
        then show "cell (snd (fst st + ?x, v)) b' k = cell h1 b' k" using Qr [OF q, of k b'] k by simp
      qed
      ultimately show ?thesis by blast
    qed
  qed
  have q0: "Q 0 (Fin 0, h1)" by (simp add: Q_def frame_refl zero_dbl_def)
  have "\<exists>t. for_up 0 n ?body (Fin 0, h1) = Some (max 0 n, t) \<and> Q (max 0 n) t"
    by (rule for_up_total_idx [where P = Q, OF q0]) (use step in auto)
  then obtain t where t: "for_up 0 n ?body (Fin 0, h1) = Some (max 0 n, t)" and qt: "Q (max 0 n) t"
    by blast
  have "nat (max 0 n) = nat n" by simp
  then have "fst t = sum_list (map ?F [0..<nat n])" using Qs [OF qt] by simp
  then have "for_up 0 n ?body (Fin 0, h1) = Some (max 0 n, (sum_list (map ?F [0..<nat n]), snd t))"
    using t by (cases t) simp
  then show ?thesis using Qf [OF qt] by blast
qed

lemma div_lt_rows:
  fixes k w hh :: int
  assumes "k < w * hh" "0 < w"
  shows "k div w < hh"
proof (rule ccontr)
  assume "\<not> k div w < hh"
  then have "w * hh \<le> w * (k div w)" using assms(2) by (intro mult_left_mono) auto
  moreover have "w * (k div w) + k mod w = k" by (rule mult_div_mod_eq)
  moreover have "0 \<le> k mod w" using assms(2) by simp
  ultimately show False using assms(1) by linarith
qed

lemma compare_channel_spec:
  assumes oc: "chans h original = Some oc" and mc: "chans h modified = Some mc"
    and ne: "original \<noteq> modified"
    and dims: "width mc = width oc" "height mc = height oc"
    and p: "img oc = Some io" "img mc = Some im" "mu oc = Some m1" "mu mc = Some m2"
      "img_sq_blur oc = Some s1" "img_sq_blur mc = Some s2"
    and l: "has_len h io (width oc * height oc)" "has_len h im (width oc * height oc)"
      "has_len h m1 (width oc * height oc)" "has_len h m2 (width oc * height oc)"
      "has_len h s1 (width oc * height oc)" "has_len h s2 (width oc * height oc)"
      "has_len h t (width oc * height oc)"
    and d: "distinct [t, im, m2, s2]" "m1 \<notin> {t, im}" "s1 \<notin> {t, im}"
    and sz: "4 \<le> width oc" "4 \<le> height oc" "2 \<le> blur_size oc"
  shows "\<exists>h'. dssim_compare_channel original modified (Some t, 0) smo h =
      Some (sum_list (map (\<lambda>k. ssim_formula (cell h m1 (int k)) (cell h m2 (int k)) (cell h s1 (int k))
                (cell h s2 (int k))
                (blur2 (width oc) (height oc) (nat (blur_size oc))
                   (\<lambda>m m'. cell h im (m * width oc + m') * cell h io (m * width oc + m'))
                   (int k div width oc) (int k mod width oc)))
              [0..<nat (width oc * height oc)]) / of_i (width oc * height oc),
            (if smo then Some (Some m2) else None), h') \<and>
      changed_in {modified} {t, im, m2, s2} h h' \<and>
      chans h' modified = Some (mc\<lparr>img := None, mu := None, img_sq_blur := None\<rparr>) \<and>
      (\<forall>k. has_len h' t k = has_len h t k)"
proof -
  let ?w = "width oc" and ?hh = "height oc"
  let ?n = "?w * ?hh"
  let ?h0 = "h\<lparr>chans := (chans h)(modified \<mapsto> mc\<lparr>img := None\<rparr>)\<rparr>"
  let ?X = "\<lambda>k. blur2 ?w ?hh (nat (blur_size oc))
      (\<lambda>m m'. cell h im (m * ?w + m') * cell h io (m * ?w + m')) (k div ?w) (k mod ?w)"
  from get_img1_img2_blur_spec [OF oc mc ne p(1,2) l(1,2,7) _ sz] d(1) obtain h1 where
    h1: "get_img1_img2_blur original modified (Some t, 0) h = Some (Some im, h1)"
      "frame {t, im} ?h0 h1"
      "\<forall>j i. 0 \<le> j \<and> j < ?hh \<and> 0 \<le> i \<and> i < ?w \<longrightarrow>
         cell h1 im (j * ?w + i) =
           blur2 ?w ?hh (nat (blur_size oc))
             (\<lambda>m m'. cell h im (m * ?w + m') * cell h io (m * ?w + m')) j i"
    by auto
  have c1: "chans h1 = (chans h)(modified \<mapsto> mc\<lparr>img := None\<rparr>)"
    using h1(2) by (simp add: frame_def)
  have keep: "cell h1 b k = cell h b k" if "b \<notin> {t, im}" for b k
    using frame_cell [OF h1(2) that] by simp
  have l1: "has_len h1 m1 ?n" "has_len h1 m2 ?n" "has_len h1 s1 ?n" "has_len h1 s2 ?n" "has_len h1 im ?n"
    using l by (simp_all add: frame_has_len [OF h1(2)])
  have cross: "cell h1 im k = ?X k" if k: "0 \<le> k" "k < ?n" for k
  proof -
    have w0: "0 < ?w" using sz by simp
    have "k div ?w < ?hh" using k w0 by (intro div_lt_rows) auto
    moreover have "0 \<le> k div ?w" using k w0 by (simp add: pos_imp_zdiv_nonneg_iff)
    moreover have "0 \<le> k mod ?w" "k mod ?w < ?w" using w0 by simp_all
    ultimately have "cell h1 im (k div ?w * ?w + k mod ?w) = ?X k" using h1(3) by blast
    then show ?thesis by simp
  qed
  let ?F1 = "\<lambda>k. ssim_formula (cell h1 m1 (int k)) (cell h1 m2 (int k)) (cell h1 s1 (int k))
      (cell h1 s2 (int k)) (cell h1 im (int k))"
  let ?F = "\<lambda>k. ssim_formula (cell h m1 (int k)) (cell h m2 (int k)) (cell h s1 (int k))
      (cell h s2 (int k)) (?X (int k))"
  from ssim_loop_spec [OF l1, of smo] obtain h2 where
    h2: "for_up 0 ?n
        (ssim_px (Some m1, 0) (Some m2, 0) (Some s1, 0) (Some s2, 0) (Some im, 0)
           (if smo then (Some m2, 0) else (None, 0)) (Fin 0.01 * Fin 0.01) (Fin 0.03 * Fin 0.03))
        (Fin 0, h1) = Some (max 0 ?n, (sum_list (map ?F1 [0..<nat ?n]), h2))"
      "frame {m2} h1 h2"
    by blast
  have "map ?F1 [0..<nat ?n] = map ?F [0..<nat ?n]"
  proof (rule map_cong [OF refl])
    fix k
    assume "k \<in> set [0..<nat ?n]"
    then have k: "0 \<le> int k" "int k < ?n" by auto
    have "cell h1 m1 (int k) = cell h m1 (int k)" "cell h1 m2 (int k) = cell h m2 (int k)"
      "cell h1 s1 (int k) = cell h s1 (int k)" "cell h1 s2 (int k) = cell h s2 (int k)"
      using d by (auto intro!: keep)
    then show "?F1 k = ?F k" using cross [OF k] by simp
  qed
  then have sum: "sum_list (map ?F1 [0..<nat ?n]) = sum_list (map ?F [0..<nat ?n])"
    by (rule arg_cong [where f = sum_list])
  have c2: "chans h2 = (chans h)(modified \<mapsto> mc\<lparr>img := None\<rparr>)"
    using h2(2) c1 by (simp add: frame_def)
  have l2: "has_len h2 m2 ?n" "has_len h2 s2 ?n" "has_len h2 im ?n"
    using l1 by (simp_all add: frame_has_len [OF h2(2)])
  have b2: "\<forall>b. b \<notin> {t, im, m2, s2} \<longrightarrow> bufs h2 b = bufs h b"
    using h1(2) h2(2) by (simp add: frame_def)
  define h3 where "h3 = (if smo then h2 else h2\<lparr>bufs := (bufs h2)(m2 := None)\<rparr>)"
  have s3: "(if smo then Some h2 else do { r \<leftarrow> chans h2 modified; free (mu r) h2 }) = Some h3"
    using free_Some [OF l2(1)] p by (simp add: h3_def c2)
  have l3: "has_len h3 s2 ?n" "has_len h3 im ?n"
    using l2 d(1) by (simp_all add: h3_def has_len_free_other)
  have c3: "chans h3 = (chans h)(modified \<mapsto> mc\<lparr>img := None\<rparr>)"
    using c2 by (simp add: h3_def)
  let ?h4 = "h3\<lparr>chans := (chans h3)(modified \<mapsto> mc\<lparr>img := None, mu := None\<rparr>)\<rparr>"
  have s4: "chan_upd modified (\<lambda>r. r\<lparr>mu := None\<rparr>) h3 = Some ?h4"
    by (simp add: chan_upd_def c3)
  let ?h5 = "?h4\<lparr>bufs := (bufs ?h4)(s2 := None)\<rparr>"
  have s5: "free (img_sq_blur mc) ?h4 = Some ?h5"
    using free_Some [of ?h4 s2 ?n] l3 p by simp
  let ?h6 = "?h5\<lparr>chans := (chans ?h5)(modified \<mapsto> mc\<lparr>img := None, mu := None, img_sq_blur := None\<rparr>)\<rparr>"
  have s6: "chan_upd modified (\<lambda>r. r\<lparr>img_sq_blur := None\<rparr>) ?h5 = Some ?h6"
    by (simp add: chan_upd_def)
  have l6: "has_len ?h6 im ?n" using l3(2) d(1) by (simp add: has_len_def)
  let ?h7 = "?h6\<lparr>bufs := (bufs ?h6)(im := None)\<rparr>"
  have s7: "free (Some im) ?h6 = Some ?h7" by (rule free_Some [OF l6])
  have n0: "max 0 ?n = ?n" using sz by simp
  have run: "dssim_compare_channel original modified (Some t, 0) smo h =
      Some (sum_list (map ?F [0..<nat ?n]) / of_i ?n, (if smo then Some (Some m2) else None), ?h7)"
  proof (cases smo)
    case True
    then show ?thesis
      unfolding dssim_compare_channel_def
      using oc mc dims h1(1) h2(1) s3 s4 s5 s6 s7 p sum n0 by (simp add: ptr_of_def c1)
  next
    case False
    then have f3: "free (Some m2) h2 = Some h3" using free_Some [OF l2(1)] by (simp add: h3_def)
    from False show ?thesis
      unfolding dssim_compare_channel_def
      using oc mc dims h1(1) h2(1) f3 s4 s5 s6 s7 p sum n0 by (simp add: ptr_of_def c1 c2)
  qed
  have "changed_in {modified} {t, im, m2, s2} h ?h7"
    using b2 c3 by (auto simp: changed_in_def h3_def)
  moreover have "chans ?h7 modified = Some (mc\<lparr>img := None, mu := None, img_sq_blur := None\<rparr>)"
    by simp
  moreover have "has_len ?h7 t k = has_len h t k" for k
  proof -
    have "has_len h2 t k = has_len h t k"
      using frame_has_len [OF h1(2), of t k] frame_has_len [OF h2(2), of t k] by simp
    then show ?thesis using d(1) by (simp add: has_len_def h3_def)
  qed
  ultimately show ?thesis using run by blast
qed

text \<open>
  C1. Two channels of the same width and height, at least 4 by 4, with blur size at least
  2, each with its three planes of \<open>width * height\<close> floats, and a scratch block of that
  size; the scratch block and the planes of the modified channel are distinct blocks, apart
  from the mean and the blurred square of the original. Then \<^verbatim>\<open>dssim_compare_channel\<close>
  returns, and its value is the sum over the \<open>width * height\<close> pixel offsets \<open>k\<close> of the
  formula of the specification, divided by \<open>width * height\<close>. In the formula \<open>mu1\<close>, \<open>mu2\<close>,
  \<open>img1_sq_blur\<close> and \<open>img2_sq_blur\<close> are the floats at \<open>k\<close> of the planes of the two
  channels, and \<open>img1_img2_blur\<close> is the blur of the product of the two images at row
  \<open>k div width\<close> and column \<open>k mod width\<close>; \<open>c1 = 0.0001\<close> and \<open>c2 = 0.0009\<close>.
\<close>

theorem compare_channel_mean_ssim:
  assumes "chans h original = Some oc" and "chans h modified = Some mc"
    and "original \<noteq> modified"
    and "width mc = width oc" and "height mc = height oc"
    and "img oc = Some io" and "img mc = Some im" and "mu oc = Some m1" and "mu mc = Some m2"
    and "img_sq_blur oc = Some s1" and "img_sq_blur mc = Some s2"
    and "has_len h io (width oc * height oc)" and "has_len h im (width oc * height oc)"
    and "has_len h m1 (width oc * height oc)" and "has_len h m2 (width oc * height oc)"
    and "has_len h s1 (width oc * height oc)" and "has_len h s2 (width oc * height oc)"
    and "has_len h t (width oc * height oc)"
    and "distinct [t, im, m2, s2]" and "m1 \<notin> {t, im}" and "s1 \<notin> {t, im}"
    and "4 \<le> width oc" and "4 \<le> height oc" and "2 \<le> blur_size oc"
  shows "\<exists>h'. dssim_compare_channel original modified (Some t, 0) ssim_map_out h =
      Some (sum_list (map (\<lambda>k. ssim_formula (cell h m1 (int k)) (cell h m2 (int k)) (cell h s1 (int k))
                (cell h s2 (int k))
                (blur2 (width oc) (height oc) (nat (blur_size oc))
                   (\<lambda>m m'. cell h im (m * width oc + m') * cell h io (m * width oc + m'))
                   (int k div width oc) (int k mod width oc)))
              [0..<nat (width oc * height oc)]) / of_i (width oc * height oc),
            (if ssim_map_out then Some (Some m2) else None), h')"
  using compare_channel_spec [OF assms, of ssim_map_out] by blast

theorem compare_channel_mean_ssim_witness:
  "\<exists>h'. dssim_compare_channel 0 1 (Some 30, 0) False heap_pair =
      Some (sum_list (map (\<lambda>k. ssim_formula (cell heap_pair 11 (int k)) (cell heap_pair 21 (int k))
                (cell heap_pair 12 (int k)) (cell heap_pair 22 (int k))
                (blur2 4 4 2
                   (\<lambda>m m'. cell heap_pair 20 (m * 4 + m') * cell heap_pair 10 (m * 4 + m'))
                   (int k div 4) (int k mod 4)))
              [0..<16]) / of_i 16, None, h')"
  using compare_channel_mean_ssim [of heap_pair 0 "plane_chan 4 4 10" 1 "plane_chan 4 4 20"
      10 20 11 21 12 22 30 False]
  by (simp add: heap_pair_def plane_chan_def has_len_def)

section \<open>The pyramid of a channel\<close>

lemma float_bytes_small:
  assumes "0 \<le> n" "n * 4 < 2 ^ 63"
  shows "float_bytes n = nat (n * 4)"
proof -
  have "n * 4 < (2::int) ^ 64" using assms(2) by simp
  then have "(n * 4) mod 2 ^ 64 = n * 4" using assms(1) by simp
  then show ?thesis by (simp add: float_bytes_def)
qed

lemma malloc_spec:
  assumes "0 \<le> n" "n * 4 < 2 ^ 63"
  shows "malloc (float_bytes n) h =
    (Some (fresh h),
     h\<lparr>bufs := (bufs h)(fresh h \<mapsto> map (junk h (fresh h)) [0..<nat n]), fresh := fresh h + 1\<rparr>)"
proof -
  have f: "float_bytes n = nat (n * 4)" by (rule float_bytes_small [OF assms])
  have "nat (n * 4) < 2 ^ 63"
  proof -
    have "int (nat (n * 4)) < int (2 ^ 63)" using assms by simp
    then show ?thesis by (simp only: of_nat_less_iff)
  qed
  moreover have "nat (n * 4) div 4 = nat n" using assms(1) by (simp add: nat_mult_distrib)
  ultimately show ?thesis by (simp add: malloc_def f)
qed

lemma small_bytes: "n < 2 ^ 31 \<Longrightarrow> n * 4 < (2::int) ^ 63"
  by simp

lemma cdiv_half: "0 \<le> a \<Longrightarrow> cdiv a 2 = a div 2"
  by (simp add: cdiv_def)

lemma subsampled_px_spec:
  assumes nc: "chans h new_chan = Some nc" and a2: "img nc = Some a2"
    and l: "has_len h a (w * hh)" "has_len h a2 (width nc * height nc)"
    and x: "0 \<le> x" "x < width nc" and y: "0 \<le> y" "y < height nc"
    and d: "2 * width nc \<le> w" "2 * height nc \<le> hh"
  shows "\<exists>h'. subsampled_px new_chan 0 (Some a, 0) w y x h = Some h' \<and> frame {a2} h h'"
proof -
  have x2: "0 \<le> x * 2" "x * 2 < w" "0 \<le> x * 2 + 1" "x * 2 + 1 < w" using x d by simp_all
  have y2: "0 \<le> y * 2" "y * 2 < hh" "0 \<le> y * 2 + 1" "y * 2 + 1 < hh" using y d by simp_all
  have r1: "rd (Some a, 0) (x * 2 + y * 2 * w) h = Some (cell h a (y * 2 * w + x * 2))"
    using rd_cell [OF l(1), of 0 "x * 2 + y * 2 * w"] idx_bound [OF x2(1,2) y2(1,2)]
    by (simp add: add.commute)
  have r2: "rd (Some a, 0) (x * 2 + 1 + y * 2 * w) h = Some (cell h a (y * 2 * w + (x * 2 + 1)))"
    using rd_cell [OF l(1), of 0 "x * 2 + 1 + y * 2 * w"] idx_bound [OF x2(3,4) y2(1,2)]
    by (simp add: add.commute)
  have r3: "rd (Some a, 0) (x * 2 + (y * 2 + 1) * w) h = Some (cell h a ((y * 2 + 1) * w + x * 2))"
    using rd_cell [OF l(1), of 0 "x * 2 + (y * 2 + 1) * w"] idx_bound [OF x2(1,2) y2(3,4)]
    by (simp add: add.commute)
  have r4: "rd (Some a, 0) (x * 2 + 1 + (y * 2 + 1) * w) h =
      Some (cell h a ((y * 2 + 1) * w + (x * 2 + 1)))"
    using rd_cell [OF l(1), of 0 "x * 2 + 1 + (y * 2 + 1) * w"] idx_bound [OF x2(3,4) y2(3,4)]
    by (simp add: add.commute)
  have b: "0 \<le> 0 + (x + (y + 0) * width nc)" "0 + (x + (y + 0) * width nc) < width nc * height nc"
    using idx_bound [OF x y] by (simp_all add: add.commute)
  from wr_cell [OF l(2) b] obtain h' where
    "wr (Some a2, 0) (x + (y + 0) * width nc)
       (Fin 0.25 * (cell h a (y * 2 * w + x * 2) + cell h a (y * 2 * w + (x * 2 + 1)) +
          cell h a ((y * 2 + 1) * w + x * 2) + cell h a ((y * 2 + 1) * w + (x * 2 + 1)))) h = Some h'"
    "frame {a2} h h'"
    by blast
  then show ?thesis
    unfolding subsampled_px_def using nc a2 r1 r2 r3 r4 by (simp add: ptr_of_def)
qed

lemma subsampled_copy_spec:
  assumes nc: "chans h new_chan = Some nc" and a2: "img nc = Some a2"
    and l: "has_len h a (w * hh)" "has_len h a2 (width nc * height nc)"
    and d: "2 * width nc \<le> w" "2 * height nc \<le> hh"
  shows "\<exists>h'. subsampled_copy new_chan 0 (height nc) (Some a, 0) w h = Some h' \<and> frame {a2} h h'"
proof -
  let ?P = "\<lambda>(k::int) u. frame {a2} h u"
  let ?row = "\<lambda>y h. do {
      nc \<leftarrow> chans h new_chan;
      map_option snd (for_up 0 (width nc) (subsampled_px new_chan 0 (Some a, 0) w y) h) }"
  have row: "\<exists>v. ?row y u = Some v \<and> frame {a2} h v" if y: "0 \<le> y" "y < height nc" and u: "frame {a2} h u"
    for y u
  proof -
    have cu: "chans u new_chan = Some nc" using u nc by (simp add: frame_def)
    have "\<exists>t. for_up 0 (width nc) (subsampled_px new_chan 0 (Some a, 0) w y) u =
        Some (max 0 (width nc), t) \<and> ?P (max 0 (width nc)) t"
    proof (rule for_up_total_idx [where P = ?P])
      show "?P 0 u" using u by simp
    next
      fix x u'
      assume x: "0 \<le> x" "x < width nc" and p: "?P x u'"
      then have f: "frame {a2} h u'" by simp
      have cu': "chans u' new_chan = Some nc" using f nc by (simp add: frame_def)
      have lu: "has_len u' a (w * hh)" "has_len u' a2 (width nc * height nc)"
        using l by (simp_all add: frame_has_len [OF f])
      from subsampled_px_spec [OF cu' a2 lu x y d] obtain v where
        "subsampled_px new_chan 0 (Some a, 0) w y x u' = Some v" "frame {a2} u' v" by blast
      then show "\<exists>v. subsampled_px new_chan 0 (Some a, 0) w y x u' = Some v \<and> ?P (x + 1) v"
        using frame_trans [OF f] by auto
    qed
    then show ?thesis using cu by auto
  qed
  have "\<exists>t. for_up 0 (height nc) ?row h = Some (max 0 (height nc), t) \<and> ?P (max 0 (height nc)) t"
    by (rule for_up_total_idx [where P = ?P]) (use row in \<open>auto simp: frame_refl\<close>)
  then show ?thesis by (auto simp: subsampled_copy_def)
qed

lemma has_len_alloc:
  "has_len (h\<lparr>bufs := (bufs h)(m \<mapsto> xs), fresh := f\<rparr>) x n =
     (if x = m then n \<le> int (length xs) else has_len h x n)"
  by (simp add: has_len_def)

lemma blur_empty: "blur src tmpp dst 0 0 sz callback h = Some h"
  by (simp add: blur_def regular_1d_blur_def transpose_def for_up_done for_up4_done)

lemma blur_total:
  assumes "has_len h S (w * hh)" and "has_len h D (w * hh)" and "has_len h Tm (w * hh)"
    and "Tm \<noteq> S" and "Tm \<noteq> D"
    and "(4 \<le> w \<and> 4 \<le> hh \<and> 2 \<le> sz) \<or> (w = 0 \<and> hh = 0)" and "cb_ok callback"
  shows "\<exists>h'. blur (Some S, 0) (Some Tm, 0) (Some D, 0) w hh sz callback h = Some h' \<and>
    frame {Tm, D} h h'"
proof (cases "w = 0 \<and> hh = 0")
  case True
  then show ?thesis by (simp add: blur_empty frame_refl)
next
  case False
  then have "4 \<le> w" "4 \<le> hh" "2 \<le> sz" using assms(6) by auto
  from blur_spec [OF assms(1-5) this assms(7)] show ?thesis by blast
qed

lemma preprocess_planes:
  assumes c1: "chans h1 chn = Some c1" and a: "img c1 = Some a"
    and l: "has_len h1 a (w * hh)" "has_len h1 t (w * hh)"
    and o: "a < fresh h1" "t < fresh h1" "t \<noteq> a"
    and sz: "(4 \<le> w \<and> 4 \<le> hh \<and> 2 \<le> blur_size c1) \<or> (w = 0 \<and> hh = 0)"
    and small: "w * hh < 2 ^ 31"
  shows "\<exists>h'.
    do {
      h2 \<leftarrow> (if is_chroma c1 then blur (ptr_of (img c1)) (Some t, 0) (ptr_of (img c1)) w hh 2 None h1
             else Some h1);
      n \<leftarrow> int_mul w hh;
      let (m, h3) = malloc (float_bytes n) h2;
      h4 \<leftarrow> chan_upd chn (\<lambda>r. r\<lparr>mu := m\<rparr>) h3;
      c4 \<leftarrow> chans h4 chn;
      h5 \<leftarrow> blur (ptr_of (img c4)) (Some t, 0) (ptr_of (mu c4)) w hh (blur_size c4) None h4;
      n' \<leftarrow> int_mul w hh;
      let (q, h6) = malloc (float_bytes n') h5;
      h7 \<leftarrow> chan_upd chn (\<lambda>r. r\<lparr>img_sq_blur := q\<rparr>) h6;
      c7 \<leftarrow> chans h7 chn;
      blur (ptr_of (img c7)) (Some t, 0) (ptr_of (img_sq_blur c7)) w hh (blur_size c7)
        (Some square_row) h7
    } = Some h' \<and>
    chans h' = (chans h1)(chn \<mapsto> c1\<lparr>mu := Some (fresh h1), img_sq_blur := Some (fresh h1 + 1)\<rparr>) \<and>
    fresh h' = fresh h1 + 2 \<and>
    (\<forall>x. x < fresh h1 \<longrightarrow> map_option length (bufs h' x) = map_option length (bufs h1 x)) \<and>
    (\<forall>x. x < fresh h1 \<and> x \<noteq> t \<and> x \<noteq> a \<longrightarrow> bufs h' x = bufs h1 x)"
proof -
  let ?n = "w * hh"
  have n0: "0 \<le> ?n" using sz by auto
  have n63: "?n * 4 < 2 ^ 63" by (rule small_bytes [OF small])
  have im: "int_mul w hh = Some ?n" using n0 small by (simp add: int_mul_def)
  have two: "(4 \<le> w \<and> 4 \<le> hh \<and> (2::int) \<le> 2) \<or> (w = 0 \<and> hh = 0)" using sz by auto
  \<comment> \<open>the blur of a chroma plane, in place\<close>
  obtain h2 where
    s2: "(if is_chroma c1 then blur (Some a, 0) (Some t, 0) (Some a, 0) w hh 2 None h1 else Some h1) = Some h2"
    and f2: "frame {t, a} h1 h2"
  proof (cases "is_chroma c1")
    case True
    from blur_total [OF l(1) l(1) l(2) o(3) o(3) two cb_ok_None] obtain h2 where
      "blur (Some a, 0) (Some t, 0) (Some a, 0) w hh 2 None h1 = Some h2" "frame {t, a} h1 h2"
      by blast
    then show ?thesis using True that by simp
  next
    case False
    then show ?thesis using that [of h1] by (simp add: frame_refl)
  qed
  have fr2: "fresh h2 = fresh h1" and ch2: "chans h2 = chans h1" using f2 by (simp_all add: frame_def)
  have l2: "has_len h2 a ?n" "has_len h2 t ?n" using l by (simp_all add: frame_has_len [OF f2])
  \<comment> \<open>the plane of the means\<close>
  let ?m = "fresh h1"
  let ?h3 = "h2\<lparr>bufs := (bufs h2)(?m \<mapsto> map (junk h2 ?m) [0..<nat ?n]), fresh := ?m + 1\<rparr>"
  have s3: "malloc (float_bytes ?n) h2 = (Some ?m, ?h3)"
    using malloc_spec [OF n0 n63, of h2] by (simp add: fr2)
  let ?c4 = "c1\<lparr>mu := Some ?m\<rparr>"
  let ?h4 = "?h3\<lparr>chans := (chans h1)(chn \<mapsto> ?c4)\<rparr>"
  have s4: "chan_upd chn (\<lambda>r. r\<lparr>mu := Some ?m\<rparr>) ?h3 = Some ?h4"
    using c1 by (simp add: chan_upd_def ch2)
  have l4: "has_len ?h4 a ?n" "has_len ?h4 t ?n" "has_len ?h4 ?m ?n"
    using l2 o n0 by (simp_all add: has_len_alloc)
  have tm: "t \<noteq> ?m" using o by simp
  from blur_total [OF l4(1) l4(3) l4(2) o(3) tm sz cb_ok_None] obtain h5 where
    s5: "blur (Some a, 0) (Some t, 0) (Some ?m, 0) w hh (blur_size c1) None ?h4 = Some h5"
    and f5: "frame {t, ?m} ?h4 h5"
    by blast
  have fr5: "fresh h5 = ?m + 1" and ch5: "chans h5 = (chans h1)(chn \<mapsto> ?c4)"
    using f5 by (simp_all add: frame_def)
  have l5: "has_len h5 a ?n" "has_len h5 t ?n" using l4 by (simp_all add: frame_has_len [OF f5])
  \<comment> \<open>the plane of the blurred squares\<close>
  let ?q = "fresh h1 + 1"
  let ?h6 = "h5\<lparr>bufs := (bufs h5)(?q \<mapsto> map (junk h5 ?q) [0..<nat ?n]), fresh := ?q + 1\<rparr>"
  have s6: "malloc (float_bytes ?n) h5 = (Some ?q, ?h6)"
    using malloc_spec [OF n0 n63, of h5] by (simp add: fr5)
  let ?c7 = "c1\<lparr>mu := Some ?m, img_sq_blur := Some ?q\<rparr>"
  let ?h7 = "?h6\<lparr>chans := (chans h1)(chn \<mapsto> ?c7)\<rparr>"
  have s7: "chan_upd chn (\<lambda>r. r\<lparr>img_sq_blur := Some ?q\<rparr>) ?h6 = Some ?h7"
    by (simp add: chan_upd_def ch5)
  have l7: "has_len ?h7 a ?n" "has_len ?h7 t ?n" "has_len ?h7 ?q ?n"
    using l5 o n0 by (simp_all add: has_len_alloc)
  have tq: "t \<noteq> ?q" using o by simp
  from blur_total [OF l7(1) l7(3) l7(2) o(3) tq sz cb_ok_square] obtain h8 where
    s8: "blur (Some a, 0) (Some t, 0) (Some ?q, 0) w hh (blur_size c1) (Some square_row) ?h7 = Some h8"
    and f8: "frame {t, ?q} ?h7 h8"
    by blast
  have run: "do {
      h2 \<leftarrow> (if is_chroma c1 then blur (ptr_of (img c1)) (Some t, 0) (ptr_of (img c1)) w hh 2 None h1
             else Some h1);
      n \<leftarrow> int_mul w hh;
      let (m, h3) = malloc (float_bytes n) h2;
      h4 \<leftarrow> chan_upd chn (\<lambda>r. r\<lparr>mu := m\<rparr>) h3;
      c4 \<leftarrow> chans h4 chn;
      h5 \<leftarrow> blur (ptr_of (img c4)) (Some t, 0) (ptr_of (mu c4)) w hh (blur_size c4) None h4;
      n' \<leftarrow> int_mul w hh;
      let (q, h6) = malloc (float_bytes n') h5;
      h7 \<leftarrow> chan_upd chn (\<lambda>r. r\<lparr>img_sq_blur := q\<rparr>) h6;
      c7 \<leftarrow> chans h7 chn;
      blur (ptr_of (img c7)) (Some t, 0) (ptr_of (img_sq_blur c7)) w hh (blur_size c7)
        (Some square_row) h7
    } = Some h8"
  proof (cases "is_chroma c1")
    case True
    then have "blur (Some a, 0) (Some t, 0) (Some a, 0) w hh 2 None h1 = Some h2" using s2 by simp
    then show ?thesis using True im s3 s4 s5 s6 s7 s8 a by (simp add: ptr_of_def)
  next
    case False
    then have "h2 = h1" using s2 by simp
    then show ?thesis using False im s3 s4 s5 s6 s7 s8 a by (simp add: ptr_of_def)
  qed
  have ch8: "chans h8 = (chans h1)(chn \<mapsto> ?c7)" using f8 by (simp add: frame_def)
  have fr8: "fresh h8 = fresh h1 + 2" using f8 by (simp add: frame_def)
  have len: "map_option length (bufs h8 x) = map_option length (bufs h1 x)" if "x < fresh h1" for x
  proof -
    have "map_option length (bufs h8 x) = map_option length (bufs ?h7 x)" using f8 by (simp add: frame_def)
    also have "\<dots> = map_option length (bufs h5 x)" using that by simp
    also have "\<dots> = map_option length (bufs ?h4 x)" using f5 by (simp add: frame_def)
    also have "\<dots> = map_option length (bufs h2 x)" using that by simp
    also have "\<dots> = map_option length (bufs h1 x)" using f2 by (simp add: frame_def)
    finally show ?thesis .
  qed
  have same: "bufs h8 x = bufs h1 x" if "x < fresh h1 \<and> x \<noteq> t \<and> x \<noteq> a" for x
  proof -
    have "bufs h8 x = bufs ?h7 x" using f8 that by (simp add: frame_def)
    also have "\<dots> = bufs h5 x" using that by simp
    also have "\<dots> = bufs ?h4 x" using f5 that by (simp add: frame_def)
    also have "\<dots> = bufs h2 x" using that by simp
    also have "\<dots> = bufs h1 x" using f2 that by (simp add: frame_def)
    finally show ?thesis .
  qed
  show ?thesis using run ch8 fr8 len same by blast
qed

lemma levels_cong:
  assumes "\<forall>x. F \<le> x \<longrightarrow> chans h' x = chans h x"
    and "\<forall>x c y. F \<le> x \<and> chans h x = Some c \<and> next_half c = Some y \<longrightarrow> F \<le> y"
    and "\<forall>x. p = Some x \<longrightarrow> F \<le> x"
  shows "levels k h' p = levels k h p"
  using assms(3)
proof (induction k arbitrary: p)
  case 0
  show ?case by simp
next
  case (Suc k)
  show ?case
  proof (cases p)
    case None
    then show ?thesis by simp
  next
    case (Some x)
    then have x: "F \<le> x" using Suc.prems by simp
    then have e: "chans h' x = chans h x" using assms(1) by simp
    show ?thesis
    proof (cases "chans h x")
      case None
      then show ?thesis using Some e by simp
    next
      case c: (Some c)
      have "levels k h' (next_half c) = levels k h (next_half c)"
        by (rule Suc.IH) (use assms(2) x c in blast)
      then show ?thesis using Some e c by simp
    qed
  qed
qed

lemma half_dims:
  fixes w hh :: int
  shows "map (\<lambda>s. (w div 2 ^ s, hh div 2 ^ s)) [0..<Suc n] =
    (w, hh) # map (\<lambda>s. (w div 2 div 2 ^ s, hh div 2 div 2 ^ s)) [0..<n]"
proof -
  have "[0..<Suc n] = 0 # map Suc [0..<n]" by (simp add: upt_conv_Cons map_Suc_upt del: upt_Suc)
  moreover have "w div 2 ^ Suc s = w div 2 div 2 ^ s" for w :: int and s
    by (simp add: zdiv_zmult2_eq)
  ultimately show ?thesis by (simp add: comp_def del: upt_Suc)
qed

lemma half_area:
  fixes w hh :: int
  assumes "0 \<le> w" "0 \<le> hh"
  shows "(w div 2) * (hh div 2) \<le> w * hh"
  using assms by (intro mult_mono) auto

lemma preprocess_total:
  assumes "chans h chn = Some c" and "img c = Some a" and "next_half c = None"
    and "has_len h a (width c * height c)" and "has_len h t (width c * height c)"
    and "a < fresh h" and "t < fresh h" and "chn < fresh h" and "t \<noteq> a"
    and "(4 * 2 ^ k \<le> width c \<and> 4 * 2 ^ k \<le> height c \<and> 2 \<le> blur_size c) \<or>
      (width c = 0 \<and> height c = 0)"
    and "width c * height c < 2 ^ 31" and "k = nat (n - 1)"
    and "\<forall>x. fresh h \<le> x \<longrightarrow> chans h x = None"
  shows "\<exists>h'. dssim_preprocess_channel chn (Some t, 0) n h = Some h' \<and>
    map snd (levels (k + 2) h' (Some chn)) =
      map (\<lambda>s. (width c div 2 ^ s, height c div 2 ^ s)) [0..<k + 1] \<and>
    (\<forall>x c' y. (x = chn \<or> fresh h \<le> x) \<and> chans h' x = Some c' \<and> next_half c' = Some y \<longrightarrow>
       fresh h \<le> y) \<and>
    fresh h \<le> fresh h' \<and>
    (\<forall>x. x < fresh h \<and> x \<noteq> chn \<longrightarrow> chans h' x = chans h x) \<and>
    (\<forall>x. x < fresh h \<longrightarrow> map_option length (bufs h' x) = map_option length (bufs h x)) \<and>
    (\<forall>x. x < fresh h \<and> x \<noteq> t \<and> x \<noteq> a \<longrightarrow> bufs h' x = bufs h x)"
  using assms
proof (induction k arbitrary: n chn h c a)
  case 0
  let ?w = "width c" and ?hh = "height c"
  have n: "\<not> n > 1" using "0.prems"(12) by simp
  have sz: "(4 \<le> ?w \<and> 4 \<le> ?hh \<and> 2 \<le> blur_size c) \<or> (?w = 0 \<and> ?hh = 0)"
    using "0.prems"(10) by simp
  from preprocess_planes [OF "0.prems"(1,2,4,5,6,7,9) sz "0.prems"(11)] obtain h' where
    run: "do {
        h2 \<leftarrow> (if is_chroma c then blur (ptr_of (img c)) (Some t, 0) (ptr_of (img c)) ?w ?hh 2 None h
               else Some h);
        n \<leftarrow> int_mul ?w ?hh;
      let (m, h3) = malloc (float_bytes n) h2;
        h4 \<leftarrow> chan_upd chn (\<lambda>r. r\<lparr>mu := m\<rparr>) h3;
        c4 \<leftarrow> chans h4 chn;
        h5 \<leftarrow> blur (ptr_of (img c4)) (Some t, 0) (ptr_of (mu c4)) ?w ?hh (blur_size c4) None h4;
        n' \<leftarrow> int_mul ?w ?hh;
      let (q, h6) = malloc (float_bytes n') h5;
        h7 \<leftarrow> chan_upd chn (\<lambda>r. r\<lparr>img_sq_blur := q\<rparr>) h6;
        c7 \<leftarrow> chans h7 chn;
        blur (ptr_of (img c7)) (Some t, 0) (ptr_of (img_sq_blur c7)) ?w ?hh (blur_size c7)
          (Some square_row) h7
      } = Some h'"
    and ch: "chans h' = (chans h)(chn \<mapsto> c\<lparr>mu := Some (fresh h), img_sq_blur := Some (fresh h + 1)\<rparr>)"
    and fr: "fresh h' = fresh h + 2"
    and len: "\<forall>x. x < fresh h \<longrightarrow> map_option length (bufs h' x) = map_option length (bufs h x)"
    and same: "\<forall>x. x < fresh h \<and> x \<noteq> t \<and> x \<noteq> a \<longrightarrow> bufs h' x = bufs h x"
    by blast
  have "dssim_preprocess_channel chn (Some t, 0) n h = Some h'"
    using run n "0.prems"(1) by (simp add: dssim_preprocess_channel.simps [of chn _ n h])
  moreover have "map snd (levels (0 + 2) h' (Some chn)) =
      map (\<lambda>s. (width c div 2 ^ s, height c div 2 ^ s)) [0..<0 + 1]"
    using ch "0.prems"(3) by (simp add: numeral_2_eq_2)
  moreover have "\<forall>x c' y. (x = chn \<or> fresh h \<le> x) \<and> chans h' x = Some c' \<and> next_half c' = Some y \<longrightarrow>
       fresh h \<le> y"
    using ch "0.prems"(3,13) by auto
  moreover have "fresh h \<le> fresh h'" using fr by simp
  moreover have "\<forall>x. x < fresh h \<and> x \<noteq> chn \<longrightarrow> chans h' x = chans h x" using ch by simp
  ultimately show ?case using len same by blast
next
  case (Suc k)
  let ?w = "width c" and ?hh = "height c"
  let ?w2 = "?w div 2" and ?h2 = "?hh div 2"
  have n: "n > 1" and nk: "k = nat (n - 1 - 1)" using Suc.prems(12) by simp_all
  have p4: "4 \<le> 4 * (2::int) ^ Suc k"
  proof -
    have "(1::int) \<le> 2 ^ Suc k" by (rule one_le_power) simp
    then have "4 * 1 \<le> 4 * (2::int) ^ Suc k" by (intro mult_left_mono) auto
    then show ?thesis by simp
  qed
  have sz: "(4 \<le> ?w \<and> 4 \<le> ?hh \<and> 2 \<le> blur_size c) \<or> (?w = 0 \<and> ?hh = 0)"
    using Suc.prems(10) p4 by linarith
  have pos: "0 \<le> ?w" "0 \<le> ?hh" using sz by auto
  have sz2: "(4 * 2 ^ k \<le> ?w2 \<and> 4 * 2 ^ k \<le> ?h2 \<and> 2 \<le> blur_size c) \<or> (?w2 = 0 \<and> ?h2 = 0)"
    using Suc.prems(10) by auto
  have pos2: "0 \<le> ?w2" "0 \<le> ?h2" using pos by simp_all
  have ar: "?w2 * ?h2 \<le> ?w * ?hh" by (rule half_area) (use pos in auto)
  have n2: "0 \<le> ?w2 * ?h2" using pos2 by simp
  have small2: "?w2 * ?h2 < 2 ^ 31" using ar Suc.prems(11) by linarith
  have n63: "?w2 * ?h2 * 4 < 2 ^ 63" by (rule small_bytes [OF small2])
  have im2: "int_mul ?w2 ?h2 = Some (?w2 * ?h2)" using n2 small2 by (simp add: int_mul_def)
  \<comment> \<open>the next level is allocated and linked\<close>
  let ?nw = "fresh h" and ?a2 = "fresh h + 1"
  let ?nc = "\<lparr>width = ?w2, height = ?h2, img = Some ?a2, mu = None, img_sq_blur = None,
      next_half = None, blur_size = blur_size c, is_chroma = is_chroma c\<rparr>"
  let ?c' = "c\<lparr>next_half := Some ?nw\<rparr>"
  let ?ha = "h\<lparr>fresh := ?nw + 1,
      bufs := (bufs h)(?a2 \<mapsto> map (junk h ?a2) [0..<nat (?w2 * ?h2)]), fresh := ?a2 + 1,
      chans := (chans h)(?nw \<mapsto> ?nc)\<rparr>"
  have cr: "create_chan (cdiv ?w 2) (cdiv ?hh 2) (blur_size c) (is_chroma c) h = Some (?nw, ?ha)"
    using malloc_spec [OF n2 n63, of "h\<lparr>fresh := ?nw + 1\<rparr>"] pos im2
    by (simp add: create_chan_def cdiv_half Let_def)
  let ?hb = "?ha\<lparr>chans := (chans ?ha)(chn \<mapsto> ?c')\<rparr>"
  have cn: "chn \<noteq> ?nw" using Suc.prems(8) by simp
  have up: "chan_upd chn (\<lambda>r. r\<lparr>next_half := Some ?nw\<rparr>) ?ha = Some ?hb"
    using Suc.prems(1) cn by (simp add: chan_upd_def)
  have cb: "chans ?hb ?nw = Some ?nc" "chans ?hb chn = Some ?c'" using cn by simp_all
  have lb: "has_len ?hb a (?w * ?hh)" "has_len ?hb ?a2 (width ?nc * height ?nc)" "has_len ?hb t (?w * ?hh)"
    using Suc.prems(4,5,6,7) n2 by (simp_all add: has_len_def)
  have d2: "2 * width ?nc \<le> ?w" "2 * height ?nc \<le> ?hh" by simp_all
  from subsampled_copy_spec [OF cb(1) _ lb(1,2) d2] obtain hc where
    sc: "subsampled_copy ?nw 0 ?h2 (Some a, 0) ?w ?hb = Some hc" and fc: "frame {?a2} ?hb hc"
    by auto
  have cc: "chans hc = chans ?hb" and frc: "fresh hc = fresh h + 2" using fc by (simp_all add: frame_def)
  have lc: "has_len hc ?a2 (width ?nc * height ?nc)" "has_len hc t (width ?nc * height ?nc)"
    "has_len hc a (?w * ?hh)" "has_len hc t (?w * ?hh)"
    using lb has_len_mono [OF lb(3) ar] by (simp_all add: frame_has_len [OF fc])
  \<comment> \<open>the levels below\<close>
  have "\<exists>h1. dssim_preprocess_channel ?nw (Some t, 0) (n - 1) hc = Some h1 \<and>
    map snd (levels (k + 2) h1 (Some ?nw)) =
      map (\<lambda>s. (width ?nc div 2 ^ s, height ?nc div 2 ^ s)) [0..<k + 1] \<and>
    (\<forall>x c' y. (x = ?nw \<or> fresh hc \<le> x) \<and> chans h1 x = Some c' \<and> next_half c' = Some y \<longrightarrow>
       fresh hc \<le> y) \<and>
    fresh hc \<le> fresh h1 \<and>
    (\<forall>x. x < fresh hc \<and> x \<noteq> ?nw \<longrightarrow> chans h1 x = chans hc x) \<and>
    (\<forall>x. x < fresh hc \<longrightarrow> map_option length (bufs h1 x) = map_option length (bufs hc x)) \<and>
    (\<forall>x. x < fresh hc \<and> x \<noteq> t \<and> x \<noteq> ?a2 \<longrightarrow> bufs h1 x = bufs hc x)"
  proof (rule Suc.IH [OF _ _ _ lc(1,2)])
    show "chans hc ?nw = Some ?nc" using cb(1) cc by simp
    show "?a2 < fresh hc" "t < fresh hc" "?nw < fresh hc" "t \<noteq> ?a2"
      using frc Suc.prems(7) by simp_all
    show "(4 * 2 ^ k \<le> width ?nc \<and> 4 * 2 ^ k \<le> height ?nc \<and> 2 \<le> blur_size ?nc) \<or>
        (width ?nc = 0 \<and> height ?nc = 0)" using sz2 by simp
    show "width ?nc * height ?nc < 2 ^ 31" using small2 by simp
    show "k = nat (n - 1 - 1)" by (rule nk)
    show "\<forall>x. fresh hc \<le> x \<longrightarrow> chans hc x = None" using cc frc Suc.prems(8,13) by simp
  qed simp_all
  then obtain h1 where
    r1: "dssim_preprocess_channel ?nw (Some t, 0) (n - 1) hc = Some h1"
    and lv1: "map snd (levels (k + 2) h1 (Some ?nw)) = map (\<lambda>s. (?w2 div 2 ^ s, ?h2 div 2 ^ s)) [0..<k + 1]"
    and ad1: "\<forall>x c' y. (x = ?nw \<or> fresh hc \<le> x) \<and> chans h1 x = Some c' \<and> next_half c' = Some y \<longrightarrow>
       fresh hc \<le> y"
    and fr1: "fresh hc \<le> fresh h1"
    and ch1: "\<forall>x. x < fresh hc \<and> x \<noteq> ?nw \<longrightarrow> chans h1 x = chans hc x"
    and len1: "\<forall>x. x < fresh hc \<longrightarrow> map_option length (bufs h1 x) = map_option length (bufs hc x)"
    and same1: "\<forall>x. x < fresh hc \<and> x \<noteq> t \<and> x \<noteq> ?a2 \<longrightarrow> bufs h1 x = bufs hc x"
    by auto
  have c1: "chans h1 chn = Some ?c'" using ch1 cc cb(2) cn Suc.prems(8) frc by simp
  have keep_len: "has_len h1 x m = has_len hc x m" if "x < fresh hc" for x m
  proof -
    have "map_option length (bufs h1 x) = map_option length (bufs hc x)" using len1 that by simp
    then show ?thesis by (cases "bufs h1 x"; cases "bufs hc x"; simp add: has_len_def)
  qed
  have l1: "has_len h1 a (?w * ?hh)" "has_len h1 t (?w * ?hh)"
    using lc(3,4) keep_len Suc.prems(6,7) frc by simp_all
  have o1: "a < fresh h1" "t < fresh h1" using Suc.prems(6,7) fr1 frc by simp_all
  \<comment> \<open>the planes of this level\<close>
  from preprocess_planes [OF c1 _ l1 o1 Suc.prems(9) _ Suc.prems(11)] Suc.prems(2) sz obtain h' where
    run: "do {
        h2 \<leftarrow> (if is_chroma ?c' then blur (ptr_of (img ?c')) (Some t, 0) (ptr_of (img ?c')) ?w ?hh 2 None h1
               else Some h1);
        n \<leftarrow> int_mul ?w ?hh;
      let (m, h3) = malloc (float_bytes n) h2;
        h4 \<leftarrow> chan_upd chn (\<lambda>r. r\<lparr>mu := m\<rparr>) h3;
        c4 \<leftarrow> chans h4 chn;
        h5 \<leftarrow> blur (ptr_of (img c4)) (Some t, 0) (ptr_of (mu c4)) ?w ?hh (blur_size c4) None h4;
        n' \<leftarrow> int_mul ?w ?hh;
      let (q, h6) = malloc (float_bytes n') h5;
        h7 \<leftarrow> chan_upd chn (\<lambda>r. r\<lparr>img_sq_blur := q\<rparr>) h6;
        c7 \<leftarrow> chans h7 chn;
        blur (ptr_of (img c7)) (Some t, 0) (ptr_of (img_sq_blur c7)) ?w ?hh (blur_size c7)
          (Some square_row) h7
      } = Some h'"
    and ch: "chans h' = (chans h1)(chn \<mapsto> ?c'\<lparr>mu := Some (fresh h1), img_sq_blur := Some (fresh h1 + 1)\<rparr>)"
    and fr: "fresh h' = fresh h1 + 2"
    and len: "\<forall>x. x < fresh h1 \<longrightarrow> map_option length (bufs h' x) = map_option length (bufs h1 x)"
    and same: "\<forall>x. x < fresh h1 \<and> x \<noteq> t \<and> x \<noteq> a \<longrightarrow> bufs h' x = bufs h1 x"
    by auto
  have pre: "dssim_preprocess_channel chn (Some t, 0) n h = Some h'"
    using run n Suc.prems(1,2) cr up cb sc r1 c1
    by (simp add: dssim_preprocess_channel.simps [of chn _ n h] ptr_of_def)
  have mid: "chans h1 ?a2 = None"
  proof -
    have "chans h1 ?a2 = chans hc ?a2" using ch1 frc by simp
    also have "\<dots> = None" using cc cn Suc.prems(8,13) by simp
    finally show ?thesis .
  qed
  have ptr1: "fresh h \<le> y" if "fresh h \<le> x \<and> chans h1 x = Some c' \<and> next_half c' = Some y" for x c' y
  proof -
    have "x \<noteq> ?a2" using that mid by auto
    then have "x = ?nw \<or> fresh hc \<le> x" using that frc by auto
    then have "fresh hc \<le> y" using ad1 that by blast
    then show ?thesis using frc by simp
  qed
  have below: "levels (k + 2) h' (Some ?nw) = levels (k + 2) h1 (Some ?nw)"
  proof (rule levels_cong [where F = "fresh h"])
    show "\<forall>x. fresh h \<le> x \<longrightarrow> chans h' x = chans h1 x" using ch Suc.prems(8) by simp
    show "\<forall>x c y. fresh h \<le> x \<and> chans h1 x = Some c \<and> next_half c = Some y \<longrightarrow> fresh h \<le> y"
      using ptr1 by blast
  qed simp
  have lv: "levels (Suc k + 2) h' (Some chn) = (chn, ?w, ?hh) # levels (k + 2) h1 (Some ?nw)"
    using ch below by simp
  have dims: "map snd (levels (Suc k + 2) h' (Some chn)) =
      map (\<lambda>s. (?w div 2 ^ s, ?hh div 2 ^ s)) [0..<Suc k + 1]"
    unfolding lv using lv1 half_dims [of ?w ?hh "k + 1"] by simp
  have addrs: "\<forall>x c' y. (x = chn \<or> fresh h \<le> x) \<and> chans h' x = Some c' \<and> next_half c' = Some y \<longrightarrow>
       fresh h \<le> y"
  proof (intro allI impI)
    fix x c' y
    assume x: "(x = chn \<or> fresh h \<le> x) \<and> chans h' x = Some c' \<and> next_half c' = Some y"
    show "fresh h \<le> y"
    proof (cases "x = chn")
      case True
      then show ?thesis using x ch by auto
    next
      case False
      then have "chans h1 x = Some c'" using x ch by simp
      then show ?thesis using ptr1 [of x c' y] x False by simp
    qed
  qed
  have fresh: "fresh h \<le> fresh h'" using fr fr1 frc by simp
  have chans: "chans h' x = chans h x" if "x < fresh h \<and> x \<noteq> chn" for x
  proof -
    have "chans h' x = chans h1 x" using ch that by simp
    also have "\<dots> = chans hc x" using ch1 that frc by simp
    also have "\<dots> = chans h x" using cc that by simp
    finally show ?thesis .
  qed
  have lens: "map_option length (bufs h' x) = map_option length (bufs h x)" if "x < fresh h" for x
  proof -
    have "map_option length (bufs h' x) = map_option length (bufs h1 x)" using len that fr1 frc by simp
    also have "\<dots> = map_option length (bufs hc x)" using len1 that frc by simp
    also have "\<dots> = map_option length (bufs ?hb x)" using fc by (simp add: frame_def)
    also have "\<dots> = map_option length (bufs h x)" using that by simp
    finally show ?thesis .
  qed
  have sames: "bufs h' x = bufs h x" if "x < fresh h \<and> x \<noteq> t \<and> x \<noteq> a" for x
  proof -
    have "bufs h' x = bufs h1 x" using same that fr1 frc by simp
    also have "\<dots> = bufs hc x" using same1 that frc by simp
    also have "\<dots> = bufs ?hb x" using fc that by (simp add: frame_def)
    also have "\<dots> = bufs h x" using that by simp
    finally show ?thesis .
  qed
  show ?case using pre dims addrs fresh chans lens sames by blast
qed

lemma blur_line_narrow:
  assumes "bufs h a = Some [x]" "bufs h b = Some ys" "0 < length ys" "a \<noteq> b"
  shows "blur_line (Some a, 0) (Some b, 0) 1 h = None"
proof -
  have 1: "blur_px (Some a, 0) (Some b, 0) 1 0 h = Some (h\<lparr>bufs := (bufs h)(b \<mapsto> ys[0 := (x + x + x) / Fin 3])\<rparr>)"
    using assms by (simp add: blur_px_def rd_def wr_def arr_get_def arr_set_def)
  have 2: "blur_px (Some a, 0) (Some b, 0) 1 1 h' = None" if "bufs h' a = Some [x]" for h'
    using that by (simp add: blur_px_def rd_def arr_get_def)
  have "bufs (h\<lparr>bufs := (bufs h)(b \<mapsto> ys[0 := (x + x + x) / Fin 3])\<rparr>) a = Some [x]"
    using assms(1,4) by simp
  then have "for_up 0 4 (blur_px (Some a, 0) (Some b, 0) 1) h = None"
    using 1 2 by (simp add: for_up_step)
  then show ?thesis by (simp add: blur_line_def)
qed

lemma blur_narrow:
  assumes "bufs h a = Some [x]" "bufs h b = Some ys" "0 < length ys" "a \<noteq> b" "1 < sz"
  shows "blur (Some a, 0) (Some b, 0) dst 1 1 sz None h = None"
proof -
  have "blur_run (Some a, 0) (Some b, 0) dst 1 sz None 0 0 h = None"
    using blur_line_narrow [OF assms(1-4)] assms(5) by (simp add: blur_run_def padd_def)
  then have "for_up 0 sz (blur_run (Some a, 0) (Some b, 0) dst 1 sz None 0) h = None"
    using assms(5) by (simp add: for_up_step)
  then have "regular_1d_blur (Some a, 0) (Some b, 0) dst 1 1 sz None h = None"
    by (simp add: regular_1d_blur_def for_up_step)
  then show ?thesis by (simp add: blur_def)
qed

text \<open>
  A channel narrower than four pixels. The first loop of \<^verbatim>\<open>regular_1d_blur\<close> runs
  \<open>i = 0, \<dots>, 3\<close> whatever the width, so for a channel of 1 by 1 pixels and one scale it
  reads \<^verbatim>\<open>row[1]\<close> of a row of one float: the call has no result.
\<close>

lemma preprocess_1x1: "dssim_preprocess_channel 0 (Some 30, 0) 1 heap_1x1 = None"
proof -
  let ?h4 = "heap_1x1\<lparr>bufs := (bufs heap_1x1)(40 \<mapsto> [Fin 0]), fresh := 41,
      chans := (chans heap_1x1)(0 \<mapsto> (fresh_chan 1 1 10)\<lparr>mu := Some 40\<rparr>)\<rparr>"
  have m: "malloc (float_bytes (1 * 1)) heap_1x1 =
      (Some 40, heap_1x1\<lparr>bufs := (bufs heap_1x1)(40 \<mapsto> [Fin 0]), fresh := 41\<rparr>)"
    using malloc_spec [of 1 heap_1x1] by (simp add: heap_1x1_def)
  have b: "blur (Some 10, 0) (Some 30, 0) (Some 40, 0) 1 1 2 None ?h4 = None"
    by (rule blur_narrow [where x = "Fin 1" and ys = "[Fin 0]"]) (simp_all add: heap_1x1_def)
  have c: "chans heap_1x1 0 = Some (fresh_chan 1 1 10)" by (simp add: heap_1x1_def)
  show ?thesis
    using m b c
    by (simp add: dssim_preprocess_channel.simps [of 0 _ 1 heap_1x1] fresh_chan_def chan_upd_def ptr_of_def
        int_mul_def)
qed

lemma preprocess_0x0:
  "map_option (\<lambda>h'. map snd (levels 3 h' (Some 0))) (dssim_preprocess_channel 0 (Some 30, 0) 2 heap_0x0) =
     Some [(0, 0), (0, 0)]"
proof -
  have m: "malloc (float_bytes 0) h = (Some (fresh h), h\<lparr>bufs := (bufs h)(fresh h \<mapsto> []), fresh := fresh h + 1\<rparr>)"
    for h
    using malloc_spec [of 0 h] by simp
  have one: "dssim_preprocess_channel x (Some 30, 0) 1 h =
      Some (h\<lparr>bufs := (bufs h)(fresh h \<mapsto> [], fresh h + 1 \<mapsto> []), fresh := fresh h + 2,
              chans := (chans h)(x \<mapsto> c\<lparr>mu := Some (fresh h), img_sq_blur := Some (fresh h + 1)\<rparr>)\<rparr>)"
    if "chans h x = Some c" "width c = 0" "height c = 0" "\<not> is_chroma c" for x h c
    using that by (simp add: dssim_preprocess_channel.simps [of x _ 1 h] m blur_empty chan_upd_def int_mul_def)
  let ?nc = "\<lparr>width = 0, height = 0, img = Some 41, mu = None, img_sq_blur = None,
      next_half = None, blur_size = 2, is_chroma = False\<rparr>"
  let ?hc = "heap_0x0\<lparr>bufs := (bufs heap_0x0)(41 \<mapsto> []), fresh := 42,
      chans := (chans heap_0x0)(40 \<mapsto> ?nc, 0 \<mapsto> (fresh_chan 0 0 10)\<lparr>next_half := Some 40\<rparr>)\<rparr>"
  have cr: "create_chan (cdiv 0 2) (cdiv 0 2) 2 False heap_0x0 =
      Some (40, heap_0x0\<lparr>bufs := (bufs heap_0x0)(41 \<mapsto> []), fresh := 42,
        chans := (chans heap_0x0)(40 \<mapsto> ?nc)\<rparr>)"
    using m [of "heap_0x0\<lparr>fresh := 41\<rparr>"] by (simp add: create_chan_def cdiv_def heap_0x0_def int_mul_def)
  have sc: "subsampled_copy 40 0 0 p 0 h = Some h" for p h
    by (simp add: subsampled_copy_def for_up_done)
  have rec: "dssim_preprocess_channel 40 (Some 30, 0) 1 ?hc =
      Some (?hc\<lparr>bufs := (bufs ?hc)(42 \<mapsto> [], 43 \<mapsto> []), fresh := 44,
              chans := (chans ?hc)(40 \<mapsto> ?nc\<lparr>mu := Some 42, img_sq_blur := Some 43\<rparr>)\<rparr>)"
    using one [of ?hc 40 ?nc] by simp
  have c: "chans heap_0x0 0 = Some (fresh_chan 0 0 10)" by (simp add: heap_0x0_def)
  show ?thesis
    using cr sc rec c
    by (simp add: dssim_preprocess_channel.simps [of 0 _ 2 heap_0x0] fresh_chan_def chan_upd_def
        ptr_of_def m blur_empty numeral_3_eq_3 int_mul_def)
qed

text \<open>
  Claim C6, as the code has it. A channel of \<open>W\<close> by \<open>H\<close> pixels as \<^verbatim>\<open>create_chan\<close> leaves it
  (the product \<open>W * H\<close> an \<^verbatim>\<open>int\<close>), preprocessed for \<open>n\<close> scales with a scratch block of
  \<open>W * H\<close> floats. \<^verbatim>\<open>dssim_preprocess_channel\<close> never ends the pyramid before the last scale:
  the pyramid it leaves has exactly \<open>max 1 n\<close> levels, the level \<open>s\<close> of \<open>W div 2 ^ s\<close> by
  \<open>H div 2 ^ s\<close> pixels, and reading one level further finds nothing. The call returns, so
  every access to an array was in range. This holds for every channel whose last level is
  at least 4 by 4 pixels (\<open>4 * 2 ^ (n - 1) \<le> W\<close> and \<open>\<le> H\<close>, blur size at least 2), and for
  the channel of 0 by 0 pixels, whose levels are all of 0 by 0 pixels and are all built.
  Channels with a level of one to three pixels in a direction are left out.
\<close>

theorem preprocess_builds_pyramid:
  assumes "chans h chn = Some c" and "img c = Some a" and "next_half c = None"
    and "has_len h a (width c * height c)" and "has_len h t (width c * height c)"
    and "a < fresh h" and "t < fresh h" and "chn < fresh h" and "t \<noteq> a"
    and "\<forall>x. fresh h \<le> x \<longrightarrow> chans h x = None"
    and "(4 * 2 ^ nat (n - 1) \<le> width c \<and> 4 * 2 ^ nat (n - 1) \<le> height c \<and> 2 \<le> blur_size c) \<or>
      (width c = 0 \<and> height c = 0)"
    and "width c * height c < 2 ^ 31"
  shows "\<exists>h'. dssim_preprocess_channel chn (Some t, 0) n h = Some h' \<and>
    map snd (levels (nat (max 1 n) + 1) h' (Some chn)) =
      map (\<lambda>s. (width c div 2 ^ s, height c div 2 ^ s)) [0..<nat (max 1 n)]"
proof -
  have e: "nat (max 1 n) = nat (n - 1) + 1" by simp
  from preprocess_total [OF assms(1-9,11,12) refl assms(10)] show ?thesis
    unfolding e by (auto simp: numeral_2_eq_2)
qed

theorem preprocess_builds_pyramid_witness:
  "\<exists>h'. dssim_preprocess_channel 0 (Some 30, 0) 2 heap_8x8 = Some h' \<and>
     map snd (levels 3 h' (Some 0)) = [(8, 8), (4, 4)]"
  using preprocess_builds_pyramid [of heap_8x8 0 "fresh_chan 8 8 10" 10 30 2]
  by (simp add: heap_8x8_def fresh_chan_def has_len_def numeral_2_eq_2 numeral_3_eq_3)

text \<open>
  Claim C6 as written fails: the pyramid is not cut short at a dimension of zero. A
  channel of 0 by 0 pixels preprocessed for two scales gets its second level, of 0 by 0
  pixels.
\<close>

theorem pyramid_not_cut_short_counterexample:
  "map_option (\<lambda>h'. map snd (levels 3 h' (Some 0))) (dssim_preprocess_channel 0 (Some 30, 0) 2 heap_0x0) =
     Some [(0, 0), (0, 0)]"
  by (rule preprocess_0x0)

section \<open>An image against its clone\<close>

lemma fin_b1:
  assumes "\<And>m. 0 \<le> m \<Longrightarrow> m < w \<Longrightarrow> f m = Fin (g m)" "0 \<le> i" "i < w"
  shows "b1 w f i = Fin (b1 w g i)"
proof -
  have "f (max 0 (i - 1)) = Fin (g (max 0 (i - 1)))" "f i = Fin (g i)"
    "f (min (w - 1) (i + 1)) = Fin (g (min (w - 1) (i + 1)))"
    using assms by auto
  then show ?thesis by (simp add: b1_def one_dbl_def)
qed

lemma fin_b1_iter:
  assumes "\<And>m. 0 \<le> m \<Longrightarrow> m < w \<Longrightarrow> f m = Fin (g m)" "0 \<le> i" "i < w"
  shows "(b1 w ^^ n) f i = Fin ((b1 w ^^ n) g i)"
  using assms(2,3)
proof (induction n arbitrary: i)
  case 0
  then show ?case using assms(1) by simp
next
  case (Suc n)
  have "b1 w ((b1 w ^^ n) f) i = Fin (b1 w ((b1 w ^^ n) g) i)"
    by (rule fin_b1) (use Suc in auto)
  then show ?case by simp
qed

lemma fin_blur2:
  assumes "\<And>m m'. 0 \<le> m \<Longrightarrow> m < hh \<Longrightarrow> 0 \<le> m' \<Longrightarrow> m' < w \<Longrightarrow> f m m' = Fin (g m m')"
    and "0 \<le> j" "j < hh" "0 \<le> i" "i < w"
  shows "blur2 w hh n f j i = Fin (blur2 w hh n g j i)"
  unfolding blur2_def
proof (rule fin_b1_iter)
  fix m
  assume "0 \<le> m" "m < hh"
  then show "(b1 w ^^ n) (f m) i = Fin ((b1 w ^^ n) (g m) i)"
    using assms by (intro fin_b1_iter) auto
qed (use assms in auto)

lemma blur2_cong:
  assumes "\<And>m m'. 0 \<le> m \<Longrightarrow> m < hh \<Longrightarrow> 0 \<le> m' \<Longrightarrow> m' < w \<Longrightarrow> f m m' = g m m'"
    and "0 \<le> j" "j < hh" "0 \<le> i" "i < w"
  shows "blur2 w hh n f j i = blur2 w hh n g j i"
  unfolding blur2_def
proof (rule b1_iter_cong)
  fix m
  assume "0 \<le> m" "m < hh"
  then show "(b1 w ^^ n) (f m) i = (b1 w ^^ n) (g m) i"
    using assms by (intro b1_iter_cong) auto
qed (use assms in auto)

lemma mean3_square:
  fixes a b c :: real
  shows "((a + b + c) / 3)\<^sup>2 \<le> (a\<^sup>2 + b\<^sup>2 + c\<^sup>2) / 3"
proof -
  have "0 \<le> (a - b)\<^sup>2 + (b - c)\<^sup>2 + (a - c)\<^sup>2" by simp
  then have "(a + b + c)\<^sup>2 \<le> 3 * (a\<^sup>2 + b\<^sup>2 + c\<^sup>2)"
    by (simp add: power2_eq_square algebra_simps)
  then show ?thesis by (simp add: power_divide)
qed

lemma jensen_b1:
  fixes g G :: "int \<Rightarrow> real"
  assumes "\<And>m. 0 \<le> m \<Longrightarrow> m < w \<Longrightarrow> (g m)\<^sup>2 \<le> G m" "0 \<le> i" "i < w"
  shows "(b1 w g i)\<^sup>2 \<le> b1 w G i"
proof -
  let ?a = "max 0 (i - 1)" and ?c = "min (w - 1) (i + 1)"
  have "(g ?a)\<^sup>2 \<le> G ?a" "(g i)\<^sup>2 \<le> G i" "(g ?c)\<^sup>2 \<le> G ?c" using assms by auto
  then have "((g ?a)\<^sup>2 + (g i)\<^sup>2 + (g ?c)\<^sup>2) / 3 \<le> (G ?a + G i + G ?c) / 3" by simp
  then show ?thesis using mean3_square [of "g ?a" "g i" "g ?c"] by (simp add: b1_def)
qed

lemma jensen_b1_iter:
  fixes g G :: "int \<Rightarrow> real"
  assumes "\<And>m. 0 \<le> m \<Longrightarrow> m < w \<Longrightarrow> (g m)\<^sup>2 \<le> G m" "0 \<le> i" "i < w"
  shows "((b1 w ^^ n) g i)\<^sup>2 \<le> (b1 w ^^ n) G i"
  using assms(2,3)
proof (induction n arbitrary: i)
  case 0
  then show ?case using assms(1) by simp
next
  case (Suc n)
  have "(b1 w ((b1 w ^^ n) g) i)\<^sup>2 \<le> b1 w ((b1 w ^^ n) G) i"
    by (rule jensen_b1) (use Suc in auto)
  then show ?case by simp
qed

lemma jensen_blur2:
  fixes g :: "int \<Rightarrow> int \<Rightarrow> real"
  assumes "0 \<le> j" "j < hh" "0 \<le> i" "i < w"
  shows "(blur2 w hh n g j i)\<^sup>2 \<le> blur2 w hh n (\<lambda>m m'. g m m' * g m m') j i"
  unfolding blur2_def
proof (rule jensen_b1_iter)
  fix m :: int
  show "((b1 w ^^ n) (g m) i)\<^sup>2 \<le> (b1 w ^^ n) (\<lambda>m'. g m m' * g m m') i"
    by (rule jensen_b1_iter) (use assms in \<open>auto simp: power2_eq_square\<close>)
qed (use assms in auto)

lemma ssim_formula_same:
  assumes "y\<^sup>2 \<le> x"
  shows "ssim_formula (Fin y) (Fin y) (Fin x) (Fin x) (Fin x) = Fin 1"
proof -
  have a: "0 < 2 * (y * y) + 1 / 10000" using zero_le_square [of y] by linarith
  have b: "0 < 2 * (x - y * y) + 9 / 10000" using assms by (simp add: power2_eq_square)
  have "(2 * (y * y) + 1 / 10000) * (2 * (x - y * y) + 9 / 10000) \<noteq> 0" using a b by simp
  then show ?thesis
    by (simp add: ssim_formula_def Let_def minus_dbl_def algebra_simps)
qed

lemma sum_list_ones:
  assumes "\<And>x. x \<in> set xs \<Longrightarrow> f x = Fin 1"
  shows "sum_list (map f xs) = Fin (real (length xs))"
  using assms
proof (induction xs)
  case Nil
  show ?case by (simp add: zero_dbl_def)
next
  case (Cons a xs)
  then show ?case by simp
qed

lemma level_okD:
  assumes "level_ok h c"
  obtains a m q where "img c = Some a" "mu c = Some m" "img_sq_blur c = Some q"
    "planes3 c = [a, m, q]"
    "4 \<le> width c" "4 \<le> height c" "2 \<le> blur_size c"
    "has_len h a (width c * height c)" "has_len h m (width c * height c)"
    "has_len h q (width c * height c)"
    "\<And>k. 0 \<le> k \<Longrightarrow> k < width c * height c \<Longrightarrow> is_fin (cell h a k)"
    "\<And>j i. 0 \<le> j \<Longrightarrow> j < height c \<Longrightarrow> 0 \<le> i \<Longrightarrow> i < width c \<Longrightarrow>
       cell h m (j * width c + i) =
         blur2 (width c) (height c) (nat (blur_size c)) (\<lambda>r s. cell h a (r * width c + s)) j i"
    "\<And>j i. 0 \<le> j \<Longrightarrow> j < height c \<Longrightarrow> 0 \<le> i \<Longrightarrow> i < width c \<Longrightarrow>
       cell h q (j * width c + i) =
         blur2 (width c) (height c) (nat (blur_size c))
           (\<lambda>r s. cell h a (r * width c + s) * cell h a (r * width c + s)) j i"
proof -
  from assms obtain a m q where p: "img c = Some a" "mu c = Some m" "img_sq_blur c = Some q"
    by (auto simp: level_ok_def split: option.splits)
  show ?thesis
    by (rule that [OF p]) (use assms p in \<open>auto simp: level_ok_def planes3_def\<close>)
qed

lemma count_over_count: "0 < n \<Longrightarrow> Fin (real (length [0..<nat n])) / of_i n = Fin 1"
  by (simp add: of_i_def)

lemma twin_level_one:
  assumes oc: "chans h oa = Some oc" and mc: "chans h ma = Some mc" and ne: "oa \<noteq> ma"
    and lo: "level_ok h oc" and lm: "level_ok h mc" and sp: "same_pixels h oc mc"
    and d: "distinct (planes3 oc @ planes3 mc)" and t: "t \<notin> set (planes3 oc @ planes3 mc)"
    and lt: "has_len h t N" "width oc * height oc \<le> N"
  shows "\<exists>h'. dssim_compare_channel oa ma (Some t, 0) False h = Some (Fin 1, None, h') \<and>
    changed_in {ma} (insert t (set (planes3 mc))) h h' \<and>
    chans h' ma = Some (mc\<lparr>img := None, mu := None, img_sq_blur := None\<rparr>) \<and>
    (\<forall>k. has_len h' t k = has_len h t k)"
proof -
  let ?w = "width oc" and ?hh = "height oc" and ?bs = "nat (blur_size oc)"
  let ?n = "?w * ?hh"
  from lo obtain io m1 s1 where
    o: "img oc = Some io" "mu oc = Some m1" "img_sq_blur oc = Some s1" "planes3 oc = [io, m1, s1]"
      "4 \<le> ?w" "4 \<le> ?hh" "2 \<le> blur_size oc"
      "has_len h io ?n" "has_len h m1 ?n" "has_len h s1 ?n"
    and ofin: "\<And>k. 0 \<le> k \<Longrightarrow> k < ?n \<Longrightarrow> is_fin (cell h io k)"
    and omu: "\<And>j i. 0 \<le> j \<Longrightarrow> j < ?hh \<Longrightarrow> 0 \<le> i \<Longrightarrow> i < ?w \<Longrightarrow>
       cell h m1 (j * ?w + i) = blur2 ?w ?hh ?bs (\<lambda>r s. cell h io (r * ?w + s)) j i"
    and osq: "\<And>j i. 0 \<le> j \<Longrightarrow> j < ?hh \<Longrightarrow> 0 \<le> i \<Longrightarrow> i < ?w \<Longrightarrow>
       cell h s1 (j * ?w + i) =
         blur2 ?w ?hh ?bs (\<lambda>r s. cell h io (r * ?w + s) * cell h io (r * ?w + s)) j i"
    by (rule level_okD) blast
  have dm: "width mc = ?w" "height mc = ?hh" "blur_size mc = blur_size oc"
    using sp by (simp_all add: same_pixels_def)
  from lm obtain im m2 s2 where
    m: "img mc = Some im" "mu mc = Some m2" "img_sq_blur mc = Some s2" "planes3 mc = [im, m2, s2]"
      "has_len h im ?n" "has_len h m2 ?n" "has_len h s2 ?n"
    and mmu: "\<And>j i. 0 \<le> j \<Longrightarrow> j < ?hh \<Longrightarrow> 0 \<le> i \<Longrightarrow> i < ?w \<Longrightarrow>
       cell h m2 (j * ?w + i) = blur2 ?w ?hh ?bs (\<lambda>r s. cell h im (r * ?w + s)) j i"
    and msq: "\<And>j i. 0 \<le> j \<Longrightarrow> j < ?hh \<Longrightarrow> 0 \<le> i \<Longrightarrow> i < ?w \<Longrightarrow>
       cell h s2 (j * ?w + i) =
         blur2 ?w ?hh ?bs (\<lambda>r s. cell h im (r * ?w + s) * cell h im (r * ?w + s)) j i"
    by (rule level_okD) (simp add: dm)
  have same: "cell h im k = cell h io k" if "0 \<le> k" "k < ?n" for k
    using sp o(1) m(1) that by (simp add: same_pixels_def)
  have ltn: "has_len h t ?n" by (rule has_len_mono [OF lt])
  have dist: "distinct [t, im, m2, s2]" "m1 \<notin> {t, im}" "s1 \<notin> {t, im}"
    using d t o(4) m(4) by auto
  from compare_channel_spec [OF oc mc ne dm(1,2) o(1) m(1) o(2) m(2) o(3) m(3) o(8) m(5) o(9) m(6) o(10)
      m(7) ltn dist o(5,6,7), of False]
  obtain h' where
    run: "dssim_compare_channel oa ma (Some t, 0) False h =
      Some (sum_list (map (\<lambda>k. ssim_formula (cell h m1 (int k)) (cell h m2 (int k)) (cell h s1 (int k))
                (cell h s2 (int k))
                (blur2 ?w ?hh ?bs (\<lambda>m m'. cell h im (m * ?w + m') * cell h io (m * ?w + m'))
                   (int k div ?w) (int k mod ?w)))
              [0..<nat ?n]) / of_i ?n, None, h')"
    and ch: "changed_in {ma} {t, im, m2, s2} h h'"
    and cm: "chans h' ma = Some (mc\<lparr>img := None, mu := None, img_sq_blur := None\<rparr>)"
    and tl: "\<forall>k. has_len h' t k = has_len h t k"
    by auto
  define g where "g r s = (case cell h io (r * ?w + s) of Fin x \<Rightarrow> x | _ \<Rightarrow> 0)" for r s
  have gf: "cell h io (r * ?w + s) = Fin (g r s)" if "0 \<le> r" "r < ?hh" "0 \<le> s" "s < ?w" for r s
  proof -
    have "is_fin (cell h io (r * ?w + s))" using idx_bound [OF that(3,4,1,2)] by (intro ofin) auto
    then show ?thesis by (cases "cell h io (r * ?w + s)") (simp_all add: g_def is_fin_def)
  qed
  have gm: "cell h im (r * ?w + s) = Fin (g r s)" if "0 \<le> r" "r < ?hh" "0 \<le> s" "s < ?w" for r s
    using same [of "r * ?w + s"] idx_bound [OF that(3,4,1,2)] gf [OF that] by simp
  have w0: "0 < ?w" using o(5) by simp
  have one: "ssim_formula (cell h m1 (int k)) (cell h m2 (int k)) (cell h s1 (int k)) (cell h s2 (int k))
      (blur2 ?w ?hh ?bs (\<lambda>m m'. cell h im (m * ?w + m') * cell h io (m * ?w + m'))
         (int k div ?w) (int k mod ?w)) = Fin 1"
    if "k \<in> set [0..<nat ?n]" for k
  proof -
    let ?j = "int k div ?w" and ?i = "int k mod ?w"
    have k: "0 \<le> int k" "int k < ?n" using that by auto
    have r: "0 \<le> ?j" "?j < ?hh" "0 \<le> ?i" "?i < ?w"
      using k w0 div_lt_rows [OF k(2) w0] by (simp_all add: pos_imp_zdiv_nonneg_iff)
    have e: "?j * ?w + ?i = int k" by simp
    let ?y = "blur2 ?w ?hh ?bs g ?j ?i" and ?x = "blur2 ?w ?hh ?bs (\<lambda>r s. g r s * g r s) ?j ?i"
    have "cell h m1 (?j * ?w + ?i) = Fin ?y"
      unfolding omu [OF r] by (rule fin_blur2) (use gf r in auto)
    then have a1: "cell h m1 (int k) = Fin ?y" unfolding e .
    have "cell h m2 (?j * ?w + ?i) = Fin ?y"
      unfolding mmu [OF r] by (rule fin_blur2) (use gm r in auto)
    then have a2: "cell h m2 (int k) = Fin ?y" unfolding e .
    have "cell h s1 (?j * ?w + ?i) = Fin ?x"
      unfolding osq [OF r] by (rule fin_blur2) (use gf r in auto)
    then have a3: "cell h s1 (int k) = Fin ?x" unfolding e .
    have "cell h s2 (?j * ?w + ?i) = Fin ?x"
      unfolding msq [OF r] by (rule fin_blur2) (use gm r in auto)
    then have a4: "cell h s2 (int k) = Fin ?x" unfolding e .
    have a5: "blur2 ?w ?hh ?bs (\<lambda>m m'. cell h im (m * ?w + m') * cell h io (m * ?w + m')) ?j ?i = Fin ?x"
      by (rule fin_blur2) (use gf gm r in auto)
    have "?y\<^sup>2 \<le> ?x" by (rule jensen_blur2 [OF r])
    then show ?thesis unfolding a1 a2 a3 a4 a5 by (rule ssim_formula_same)
  qed
  have n0: "0 < ?n" using o(5,6) by simp
  have "sum_list (map (\<lambda>k. ssim_formula (cell h m1 (int k)) (cell h m2 (int k)) (cell h s1 (int k))
                (cell h s2 (int k))
                (blur2 ?w ?hh ?bs (\<lambda>m m'. cell h im (m * ?w + m') * cell h io (m * ?w + m'))
                   (int k div ?w) (int k mod ?w)))
              [0..<nat ?n]) = Fin (real (length [0..<nat ?n]))"
    by (rule sum_list_ones) (rule one)
  moreover have "Fin (real (length [0..<nat ?n])) / of_i ?n = Fin 1"
    by (rule count_over_count [OF n0])
  ultimately have v: "dssim_compare_channel oa ma (Some t, 0) False h = Some (Fin 1, None, h')"
    using run by simp
  have "changed_in {ma} (insert t (set (planes3 mc))) h h'" using ch m(4) by simp
  then show ?thesis using v cm tl by blast
qed

lemma twins_SucD:
  assumes "twins (Suc k) h N C B po pm = Some R"
  obtains oa ma oc mc where "po = Some oa" "pm = Some ma" "chans h oa = Some oc" "chans h ma = Some mc"
    "oa \<noteq> ma" "oa \<notin> C" "ma \<notin> C" "level_ok h oc" "level_ok h mc" "same_pixels h oc mc"
    "width oc * height oc \<le> N" "distinct (planes3 oc @ planes3 mc)"
    "set (planes3 oc @ planes3 mc) \<inter> B = {}"
    "if next_half oc = None \<or> next_half mc = None then R = (insert ma C, set (planes3 mc) \<union> B)
     else twins k h N (insert ma C) (set (planes3 mc) \<union> B) (next_half oc) (next_half mc) = Some R"
proof -
  from assms obtain oa ma where p: "po = Some oa" "pm = Some ma"
    by (cases po; cases pm) simp_all
  from assms p obtain oc mc where c: "chans h oa = Some oc" "chans h ma = Some mc"
    by (cases "chans h oa"; cases "chans h ma") simp_all
  have g: "oa \<noteq> ma \<and> oa \<notin> C \<and> ma \<notin> C \<and> level_ok h oc \<and> level_ok h mc \<and>
      same_pixels h oc mc \<and> width oc * height oc \<le> N \<and>
      distinct (planes3 oc @ planes3 mc) \<and> set (planes3 oc @ planes3 mc) \<inter> B = {}"
    using assms p c by (simp split: if_splits)
  have r: "if next_half oc = None \<or> next_half mc = None then R = (insert ma C, set (planes3 mc) \<union> B)
     else twins k h N (insert ma C) (set (planes3 mc) \<union> B) (next_half oc) (next_half mc) = Some R"
    using assms p c g by (auto split: if_splits)
  show ?thesis by (rule that [OF p c]) (use g r in blast)+
qed

lemma twins_grows:
  "twins k h N C B po pm = Some R \<Longrightarrow> C \<subseteq> fst R \<and> B \<subseteq> snd R"
proof (induction k arbitrary: C B po pm)
  case 0
  then show ?case by auto
next
  case (Suc k)
  from Suc.prems obtain oa ma oc mc where
    f: "po = Some oa" "pm = Some ma" "chans h oa = Some oc" "chans h ma = Some mc"
      "oa \<noteq> ma" "oa \<notin> C" "ma \<notin> C" "level_ok h oc" "level_ok h mc" "same_pixels h oc mc"
      "width oc * height oc \<le> N" "distinct (planes3 oc @ planes3 mc)"
      "set (planes3 oc @ planes3 mc) \<inter> B = {}"
    and r: "if next_half oc = None \<or> next_half mc = None then R = (insert ma C, set (planes3 mc) \<union> B)
     else twins k h N (insert ma C) (set (planes3 mc) \<union> B) (next_half oc) (next_half mc) = Some R"
    by (rule twins_SucD)
  show ?case
  proof (cases "next_half oc = None \<or> next_half mc = None")
    case True
    then show ?thesis using r by auto
  next
    case False
    then have "twins k h N (insert ma C) (set (planes3 mc) \<union> B) (next_half oc) (next_half mc) = Some R"
      using r by simp
    from Suc.IH [OF this] show ?thesis by auto
  qed
qed

lemma changed_in_mono: "changed_in C B h h' \<Longrightarrow> C \<subseteq> C' \<Longrightarrow> B \<subseteq> B' \<Longrightarrow> changed_in C' B' h h'"
  by (auto simp: changed_in_def)

lemma level_ok_cong:
  assumes "\<forall>b \<in> set (planes3 c). bufs h' b = bufs h b"
  shows "level_ok h' c = level_ok h c"
proof (cases "\<exists>a m q. img c = Some a \<and> mu c = Some m \<and> img_sq_blur c = Some q")
  case True
  then obtain a m q where p: "img c = Some a" "mu c = Some m" "img_sq_blur c = Some q" by blast
  then have "bufs h' a = bufs h a" "bufs h' m = bufs h m" "bufs h' q = bufs h q"
    using assms by (simp_all add: planes3_def)
  then have "has_len h' a = has_len h a" "has_len h' m = has_len h m" "has_len h' q = has_len h q"
    "cell h' a = cell h a" "cell h' m = cell h m" "cell h' q = cell h q"
    by (simp_all add: has_len_def cell_def fun_eq_iff)
  then show ?thesis using p by (simp add: level_ok_def)
next
  case False
  then show ?thesis by (auto simp: level_ok_def split: option.splits)
qed

lemma same_pixels_cong:
  assumes "\<forall>b. img oc = Some b \<or> img mc = Some b \<longrightarrow> bufs h' b = bufs h b"
  shows "same_pixels h' oc mc = same_pixels h oc mc"
proof (cases "\<exists>a b. img oc = Some a \<and> img mc = Some b")
  case True
  then obtain a b where p: "img oc = Some a" "img mc = Some b" by blast
  then have "cell h' a = cell h a" "cell h' b = cell h b"
    using assms by (simp_all add: cell_def fun_eq_iff)
  then show ?thesis using p by (simp add: same_pixels_def)
next
  case False
  then show ?thesis by (auto simp: same_pixels_def split: option.splits)
qed

lemma twins_preserved:
  "twins k h N C B po pm = Some R \<Longrightarrow> changed_in C B h h' \<Longrightarrow> twins k h' N C B po pm = Some R"
proof (induction k arbitrary: C B po pm)
  case 0
  then show ?case by simp
next
  case (Suc k)
  from Suc.prems(1) obtain oa ma oc mc where
    f: "po = Some oa" "pm = Some ma" "chans h oa = Some oc" "chans h ma = Some mc"
      "oa \<noteq> ma" "oa \<notin> C" "ma \<notin> C" "level_ok h oc" "level_ok h mc" "same_pixels h oc mc"
      "width oc * height oc \<le> N" "distinct (planes3 oc @ planes3 mc)"
      "set (planes3 oc @ planes3 mc) \<inter> B = {}"
    and r: "if next_half oc = None \<or> next_half mc = None then R = (insert ma C, set (planes3 mc) \<union> B)
     else twins k h N (insert ma C) (set (planes3 mc) \<union> B) (next_half oc) (next_half mc) = Some R"
    by (rule twins_SucD)
  have c: "chans h' oa = Some oc" "chans h' ma = Some mc"
    using Suc.prems(2) f by (simp_all add: changed_in_def)
  have b: "\<forall>b \<in> set (planes3 oc @ planes3 mc). bufs h' b = bufs h b"
    using Suc.prems(2) f(13) by (auto simp: changed_in_def)
  have lo: "level_ok h' oc" "level_ok h' mc"
    using f(8,9) b level_ok_cong [of oc h' h] level_ok_cong [of mc h' h] by auto
  from f(8) obtain io where io: "img oc = Some io" "io \<in> set (planes3 oc)"
    by (rule level_okD) simp
  from f(9) obtain im where im: "img mc = Some im" "im \<in> set (planes3 mc)"
    by (rule level_okD) simp
  have sp: "same_pixels h' oc mc"
    using f(10) same_pixels_cong [of oc mc h' h] b io im by auto
  show ?case
  proof (cases "next_half oc = None \<or> next_half mc = None")
    case True
    then show ?thesis using f c lo sp r by simp
  next
    case False
    then have "twins k h N (insert ma C) (set (planes3 mc) \<union> B) (next_half oc) (next_half mc) = Some R"
      using r by simp
    moreover have "changed_in (insert ma C) (set (planes3 mc) \<union> B) h h'"
      by (rule changed_in_mono [OF Suc.prems(2)]) auto
    ultimately have "twins k h' N (insert ma C) (set (planes3 mc) \<union> B) (next_half oc) (next_half mc) = Some R"
      by (rule Suc.IH)
    then show ?thesis using f c lo sp False by (simp del: not_None_eq)
  qed
qed

lemma scale_loop_twins:
  assumes sw: "\<forall>s. 0 \<le> s \<and> s < num_scales attr \<longrightarrow> (\<exists>x. 0 < x \<and> arr_get (scale_weights attr) s = Some (Fin x))"
    and cw: "\<exists>x. 0 < x \<and> color_weight attr = Fin x"
  shows "twins k h N C B po pm = Some R \<Longrightarrow> k = nat (num_scales attr - n) \<Longrightarrow> 0 \<le> n \<Longrightarrow> t \<in> B \<Longrightarrow>
    has_len h t N \<Longrightarrow> 0 \<le> x \<Longrightarrow>
    \<exists>y h'. scale_loop attr (Some t, 0) False ch n po pm (Fin x, Fin x, mo, h) = Some (Fin y, Fin y, mo, h') \<and>
      x \<le> y \<and> (0 < k \<longrightarrow> x < y) \<and> changed_in (fst R) (snd R) h h' \<and> has_len h' t N"
proof (induction k arbitrary: n h C B po pm x)
  case 0
  then have "\<not> n < num_scales attr" by simp
  then have "scale_loop attr (Some t, 0) False ch n po pm (Fin x, Fin x, mo, h) = Some (Fin x, Fin x, mo, h)"
    by (rule scale_loop_exit)
  then show ?case using "0.prems" by (auto simp: changed_in_refl)
next
  case (Suc k)
  have n: "n < num_scales attr" and k: "k = nat (num_scales attr - (n + 1))" using Suc.prems(2) by simp_all
  from Suc.prems(1) obtain oa ma oc mc where
    f: "po = Some oa" "pm = Some ma" "chans h oa = Some oc" "chans h ma = Some mc"
      "oa \<noteq> ma" "oa \<notin> C" "ma \<notin> C" "level_ok h oc" "level_ok h mc" "same_pixels h oc mc"
      "width oc * height oc \<le> N" "distinct (planes3 oc @ planes3 mc)"
      "set (planes3 oc @ planes3 mc) \<inter> B = {}"
    and r: "if next_half oc = None \<or> next_half mc = None then R = (insert ma C, set (planes3 mc) \<union> B)
     else twins k h N (insert ma C) (set (planes3 mc) \<union> B) (next_half oc) (next_half mc) = Some R"
    by (rule twins_SucD)
  have tp: "t \<notin> set (planes3 oc @ planes3 mc)" using f(13) Suc.prems(4) by auto
  from twin_level_one [OF f(3,4,5,8,9,10,12) tp Suc.prems(5) f(11)] obtain h1 where
    cmp: "dssim_compare_channel oa ma (Some t, 0) False h = Some (Fin 1, None, h1)"
    and ch: "changed_in {ma} (insert t (set (planes3 mc))) h h1"
    and cm: "chans h1 ma = Some (mc\<lparr>img := None, mu := None, img_sq_blur := None\<rparr>)"
    and tl: "\<forall>k. has_len h1 t k = has_len h t k"
    by blast
  have co: "chans h1 oa = Some oc" using ch f(3,5) by (simp add: changed_in_def)
  from sw n Suc.prems(3) obtain s where s: "0 < s" "arr_get (scale_weights attr) n = Some (Fin s)"
    by blast
  from cw obtain c where c: "0 < c" "color_weight attr = Fin c" by blast
  define w where "w = (if is_chroma oc then c else 1) * s"
  have w0: "0 < w" using s c by (simp add: w_def)
  have wo: "weight_of attr (is_chroma oc) (Fin s) = Fin w"
    using c by (simp add: weight_of_def w_def)
  have st: "scale_step attr (Some t, 0) False ch n po pm mo h =
      Some (Fin w, Fin 1, mo, h1, next_half oc, next_half mc)"
    using f(1,2,3) s(2) cmp co cm by (simp add: scale_step_def chan_at_def wo)
  note u = scale_loop_unfold [of attr "(Some t, 0)" False ch n po pm "Fin x" "Fin x" mo h]
  have acc: "Fin x + Fin w * Fin 1 = Fin (x + w)" "Fin x + Fin w = Fin (x + w)" by simp_all
  have l1: "has_len h1 t N" using tl Suc.prems(5) by simp
  have ch1: "changed_in (insert ma C) (set (planes3 mc) \<union> B) h h1"
    by (rule changed_in_mono [OF ch]) (use Suc.prems(4) in auto)
  show ?case
  proof (cases "next_half oc = None \<or> next_half mc = None")
    case True
    then have "scale_loop attr (Some t, 0) False ch n po pm (Fin x, Fin x, mo, h) =
        Some (Fin (x + w), Fin (x + w), mo, h1)"
      unfolding u using n st acc by simp
    moreover have "R = (insert ma C, set (planes3 mc) \<union> B)" using r True by simp
    ultimately show ?thesis using w0 l1 ch1 by auto
  next
    case False
    then have e: "scale_loop attr (Some t, 0) False ch n po pm (Fin x, Fin x, mo, h) =
        scale_loop attr (Some t, 0) False ch (n + 1) (next_half oc) (next_half mc) (Fin (x + w), Fin (x + w), mo, h1)"
      unfolding u using n st acc by (simp del: not_None_eq)
    have "twins k h N (insert ma C) (set (planes3 mc) \<union> B) (next_half oc) (next_half mc) = Some R"
      using r False by simp
    then have tw1: "twins k h1 N (insert ma C) (set (planes3 mc) \<union> B) (next_half oc) (next_half mc) = Some R"
      using ch1 by (rule twins_preserved)
    have "\<exists>y h'. scale_loop attr (Some t, 0) False ch (n + 1) (next_half oc) (next_half mc)
        (Fin (x + w), Fin (x + w), mo, h1) = Some (Fin y, Fin y, mo, h') \<and>
      x + w \<le> y \<and> (0 < k \<longrightarrow> x + w < y) \<and> changed_in (fst R) (snd R) h1 h' \<and> has_len h' t N"
      by (rule Suc.IH [OF tw1 k _ _ l1]) (use Suc.prems w0 in auto)
    then obtain y h' where
      y: "scale_loop attr (Some t, 0) False ch (n + 1) (next_half oc) (next_half mc)
        (Fin (x + w), Fin (x + w), mo, h1) = Some (Fin y, Fin y, mo, h')"
        "x + w \<le> y" "changed_in (fst R) (snd R) h1 h'" "has_len h' t N"
      by blast
    have g: "insert ma C \<subseteq> fst R \<and> set (planes3 mc) \<union> B \<subseteq> snd R" using tw1 by (rule twins_grows)
    have "changed_in (fst R) (snd R) h h1" by (rule changed_in_mono [OF ch1]) (use g in auto)
    then have "changed_in (fst R) (snd R) h h'" using y(3) by (rule changed_in_trans)
    then show ?thesis using e y w0 by auto
  qed
qed

lemma twin_chans_preserved:
  "twin_chans K h N C B ps = Some R \<Longrightarrow> changed_in C B h h' \<Longrightarrow> twin_chans K h' N C B ps = Some R"
proof (induction ps arbitrary: C B)
  case Nil
  then show ?case by simp
next
  case (Cons p ps)
  from Cons.prems(1) obtain R1 where
    r1: "twins K h N C B (fst p) (snd p) = Some R1" and
    r2: "twin_chans K h N (fst R1) (snd R1) ps = Some R"
    by (auto split: option.splits)
  have a: "twins K h' N C B (fst p) (snd p) = Some R1" using r1 Cons.prems(2) by (rule twins_preserved)
  have "changed_in (fst R1) (snd R1) h h'"
    by (rule changed_in_mono [OF Cons.prems(2)]) (use twins_grows [OF r1] in auto)
  with r2 have "twin_chans K h' N (fst R1) (snd R1) ps = Some R" by (rule Cons.IH)
  then show ?case using a by simp
qed

lemma dssim_get_tmp_block:
  assumes n: "0 \<le> N" "N * 4 < 2 ^ 63"
    and t: "case tmp attr of None \<Rightarrow> True
      | Some b \<Rightarrow> if float_bytes N \<le> tmp_size attr then has_len h b N else bufs h b \<noteq> None"
  shows "\<exists>t attr1 h1. dssim_get_tmp attr (float_bytes N) h = Some (Some t, attr1, h1) \<and>
    t \<in> insert (fresh h) (set_option (tmp attr)) \<and> has_len h1 t N \<and>
    changed_in {} (insert (fresh h) (set_option (tmp attr))) h h1 \<and>
    scale_weights attr1 = scale_weights attr \<and> num_scales attr1 = num_scales attr \<and>
    color_weight attr1 = color_weight attr"
proof (cases "tmp attr")
  case None
  let ?h1 = "h\<lparr>bufs := (bufs h)(fresh h \<mapsto> map (junk h (fresh h)) [0..<nat N]), fresh := fresh h + 1\<rparr>"
  have "dssim_get_tmp attr (float_bytes N) h =
      Some (Some (fresh h), attr\<lparr>tmp := Some (fresh h), tmp_size := float_bytes N\<rparr>, ?h1)"
    using None malloc_spec [OF n, of h] by (simp add: dssim_get_tmp_def)
  moreover have "has_len ?h1 (fresh h) N" using n(1) by (simp add: has_len_def)
  moreover have "changed_in {} (insert (fresh h) (set_option (tmp attr))) h ?h1"
    by (simp add: changed_in_def)
  ultimately show ?thesis by simp
next
  case (Some b)
  show ?thesis
  proof (cases "float_bytes N \<le> tmp_size attr")
    case True
    then have "dssim_get_tmp attr (float_bytes N) h = Some (Some b, attr, h)"
      using Some by (simp add: dssim_get_tmp_def)
    moreover have "has_len h b N" using t Some True by simp
    ultimately show ?thesis using Some by (simp add: changed_in_refl)
  next
    case False
    let ?h0 = "h\<lparr>bufs := (bufs h)(b := None)\<rparr>"
    let ?h1 = "?h0\<lparr>bufs := (bufs ?h0)(fresh h \<mapsto> map (junk h (fresh h)) [0..<nat N]), fresh := fresh h + 1\<rparr>"
    have "bufs h b \<noteq> None" using t Some False by simp
    then have fr: "free (Some b) h = Some ?h0" by (auto simp: free_def)
    have "dssim_get_tmp attr (float_bytes N) h =
        Some (Some (fresh h), attr\<lparr>tmp := Some (fresh h), tmp_size := float_bytes N\<rparr>, ?h1)"
      using Some False fr malloc_spec [OF n, of ?h0] by (simp add: dssim_get_tmp_def)
    moreover have "has_len ?h1 (fresh h) N" using n(1) by (simp add: has_len_def)
    moreover have "changed_in {} (insert (fresh h) (set_option (tmp attr))) h ?h1"
      using Some by (simp add: changed_in_def)
    ultimately show ?thesis by simp
  qed
qed

lemma channel_loop_twins:
  assumes sw: "\<forall>s. 0 \<le> s \<and> s < num_scales attr \<longrightarrow> (\<exists>x. 0 < x \<and> arr_get (scale_weights attr) s = Some (Fin x))"
    and cw: "\<exists>x. 0 < x \<and> color_weight attr = Fin x"
    and ns: "1 \<le> num_scales attr"
    and len: "nch \<le> int (length (chan oi))" "nch \<le> int (length (chan mi))"
    and tw: "twin_chans (nat (num_scales attr)) h N C B (take (nat nch) (zip (chan oi) (chan mi))) = Some R"
    and t: "t \<in> B" "has_len h t N"
  shows "\<exists>y h'. for_up 0 nch
      (\<lambda>ch st. do {
         original \<leftarrow> arr_get (chan oi) ch;
         modified \<leftarrow> arr_get (chan mi) ch;
         scale_loop attr (Some t, 0) False ch 0 original modified st
       })
      (Fin 0, Fin 0, None, h) = Some (max 0 nch, (Fin y, Fin y, None, h')) \<and> 0 \<le> y \<and> (0 < nch \<longrightarrow> 0 < y)"
proof -
  let ?K = "nat (num_scales attr)"
  let ?ps = "take (nat nch) (zip (chan oi) (chan mi))"
  let ?body = "\<lambda>ch st. do {
         original \<leftarrow> arr_get (chan oi) ch;
         modified \<leftarrow> arr_get (chan mi) ch;
         scale_loop attr (Some t, 0) False ch 0 original modified st
       }"
  define P where "P j st \<longleftrightarrow> (\<exists>x u C' B' R'. st = (Fin x, Fin x, None, u) \<and> 0 \<le> x \<and> (0 < j \<longrightarrow> 0 < x) \<and>
      twin_chans ?K u N C' B' (drop (nat j) ?ps) = Some R' \<and> t \<in> B' \<and> has_len u t N)"
    for j and st :: "dbl \<times> dbl \<times> addr option option \<times> heap"
  have PI: "P j (Fin x, Fin x, None, u)"
    if "0 \<le> x" "0 < j \<longrightarrow> 0 < x" "twin_chans ?K u N C' B' (drop (nat j) ?ps) = Some R'" "t \<in> B'"
      "has_len u t N" for j x u C' B' R'
    unfolding P_def using that by blast
  have p0: "P 0 (Fin 0, Fin 0, None, h)"
    by (rule PI [where C' = C and B' = B and R' = R]) (use tw t in simp_all)
  have step: "\<exists>v. ?body j st = Some v \<and> P (j + 1) v" if j: "0 \<le> j" "j < nch" and p: "P j st" for j st
  proof -
    from p obtain x u C' B' R' where
      st: "st = (Fin x, Fin x, None, u)" and x: "0 \<le> x"
      and tc: "twin_chans ?K u N C' B' (drop (nat j) ?ps) = Some R'"
      and tu: "t \<in> B'" "has_len u t N"
      unfolding P_def by blast
    have jn: "nat j < nat nch" "nat j < length (chan oi)" "nat j < length (chan mi)"
      using j len by linarith+
    have jl: "nat j < length ?ps" using jn by simp
    have nth: "?ps ! nat j = (chan oi ! nat j, chan mi ! nat j)" using jn by simp
    have dr: "drop (nat j) ?ps = (chan oi ! nat j, chan mi ! nat j) # drop (nat (j + 1)) ?ps"
      using Cons_nth_drop_Suc [OF jl] nth j by (simp add: nat_add_distrib)
    from tc obtain R1 where
      r1: "twins ?K u N C' B' (chan oi ! nat j) (chan mi ! nat j) = Some R1"
      and r2: "twin_chans ?K u N (fst R1) (snd R1) (drop (nat (j + 1)) ?ps) = Some R'"
      unfolding dr by (auto split: option.splits)
    have k: "?K = nat (num_scales attr - 0)" by simp
    from scale_loop_twins [OF sw cw r1 k _ tu x, of j None] obtain y h' where
      run: "scale_loop attr (Some t, 0) False j 0 (chan oi ! nat j) (chan mi ! nat j) (Fin x, Fin x, None, u) =
        Some (Fin y, Fin y, None, h')"
      and y: "x \<le> y" "0 < ?K \<longrightarrow> x < y"
      and ch: "changed_in (fst R1) (snd R1) u h'" and l': "has_len h' t N"
      by auto
    have g: "arr_get (chan oi) j = Some (chan oi ! nat j)" "arr_get (chan mi) j = Some (chan mi ! nat j)"
      using j jn by (simp_all add: arr_get_def)
    have "?body j st = Some (Fin y, Fin y, None, h')" using g run st by simp
    moreover have "P (j + 1) (Fin y, Fin y, None, h')"
    proof -
      have "twin_chans ?K h' N (fst R1) (snd R1) (drop (nat (j + 1)) ?ps) = Some R'"
        using r2 ch by (rule twin_chans_preserved)
      moreover have "t \<in> snd R1" using twins_grows [OF r1] tu(1) by auto
      moreover have "0 < y" using y ns x by simp
      ultimately show ?thesis using l' by (intro PI) auto
    qed
    ultimately show ?thesis by blast
  qed
  have "\<exists>r. for_up 0 nch ?body (Fin 0, Fin 0, None, h) = Some (max 0 nch, r) \<and> P (max 0 nch) r"
    by (rule for_up_total_idx [where P = P, OF p0]) (use step in auto)
  then obtain r where r: "for_up 0 nch ?body (Fin 0, Fin 0, None, h) = Some (max 0 nch, r)"
    and pr: "P (max 0 nch) r" by blast
  from pr obtain y h' where "r = (Fin y, Fin y, None, h')" "0 \<le> y" "0 < max 0 nch \<longrightarrow> 0 < y"
    unfolding P_def by blast
  then show ?thesis using r by auto
qed

lemma real_b1_const: "b1 w (\<lambda>_. c :: real) = (\<lambda>_. c)"
  by (simp add: b1_def fun_eq_iff)

lemma real_b1_iter_const: "(b1 w ^^ n) (\<lambda>_. c :: real) = (\<lambda>_. c)"
  by (induction n) (simp_all add: real_b1_const)

lemma blur2_const:
  assumes "\<And>m m'. 0 \<le> m \<Longrightarrow> m < hh \<Longrightarrow> 0 \<le> m' \<Longrightarrow> m' < w \<Longrightarrow> f m m' = Fin c"
    and "0 \<le> j" "j < hh" "0 \<le> i" "i < w"
  shows "blur2 w hh n f j i = Fin c"
proof -
  have "blur2 w hh n f j i = Fin (blur2 w hh n (\<lambda>_ _. c) j i)"
    by (rule fin_blur2) (use assms in auto)
  then show ?thesis by (simp add: blur2_def real_b1_iter_const)
qed

lemma heap_pair_cell:
  assumes "a \<in> {10, 11, 12, 20, 21, 22}" "0 \<le> k" "k < 16"
  shows "cell heap_pair a k = Fin 1"
proof -
  have "nat k < 16" using assms(2,3) by simp
  then show ?thesis using assms(1) by (auto simp: cell_def heap_pair_def)
qed

lemma heap_pair_level_ok:
  assumes "a = 10 \<or> a = 20"
  shows "level_ok heap_pair (plane_chan 4 4 a)"
proof -
  have l: "has_len heap_pair a 16" "has_len heap_pair (a + 1) 16" "has_len heap_pair (a + 2) 16"
    using assms by (auto simp: has_len_def heap_pair_def)
  have f: "is_fin (cell heap_pair a k)" if "0 \<le> k" "k < 16" for k
    using heap_pair_cell [of a k] that assms by (auto simp: is_fin_def)
  have ix: "0 \<le> j * 4 + i \<and> j * 4 + i < 16" if "0 \<le> j" "j < 4" "0 \<le> i" "i < 4" for j i :: int
    using that by simp
  have b: "blur2 4 4 2 (\<lambda>r s. cell heap_pair a (r * 4 + s)) j i = Fin 1"
    "blur2 4 4 2 (\<lambda>r s. cell heap_pair a (r * 4 + s) * cell heap_pair a (r * 4 + s)) j i = Fin 1"
    if "0 \<le> j" "j < 4" "0 \<le> i" "i < 4" for j i
  proof -
    have c: "cell heap_pair a (m * 4 + m') = Fin 1" if "0 \<le> m" "m < 4" "0 \<le> m'" "m' < 4" for m m'
      using heap_pair_cell [of a "m * 4 + m'"] ix [OF that] assms by auto
    show "blur2 4 4 2 (\<lambda>r s. cell heap_pair a (r * 4 + s)) j i = Fin 1"
      by (rule blur2_const) (use c that in auto)
    show "blur2 4 4 2 (\<lambda>r s. cell heap_pair a (r * 4 + s) * cell heap_pair a (r * 4 + s)) j i = Fin 1"
      by (rule blur2_const) (use c that in auto)
  qed
  have m: "cell heap_pair (a + 1) (j * 4 + i) = Fin 1" "cell heap_pair (a + 2) (j * 4 + i) = Fin 1"
    if "0 \<le> j" "j < 4" "0 \<le> i" "i < 4" for j i
    using heap_pair_cell [of "a + 1" "j * 4 + i"] heap_pair_cell [of "a + 2" "j * 4 + i"] ix [OF that] assms
    by auto
  show ?thesis
    unfolding level_ok_def using l f b m by (simp add: plane_chan_def)
qed

lemma heap_pair_twins:
  "twins (Suc k) heap_pair 16 {} {40} (Some 0) (Some 1) = Some ({1}, {20, 21, 22, 40})"
proof -
  have c: "chans heap_pair 0 = Some (plane_chan 4 4 10)" "chans heap_pair 1 = Some (plane_chan 4 4 20)"
    by (simp_all add: heap_pair_def)
  have lo: "level_ok heap_pair (plane_chan 4 4 10)" "level_ok heap_pair (plane_chan 4 4 20)"
    by (rule heap_pair_level_ok, simp)+
  have sp: "same_pixels heap_pair (plane_chan 4 4 10) (plane_chan 4 4 20)"
    using heap_pair_cell [of 10] heap_pair_cell [of 20] by (simp add: same_pixels_def plane_chan_def)
  have p: "planes3 (plane_chan 4 4 10) = [10, 11, 12]" "planes3 (plane_chan 4 4 20) = [20, 21, 22]"
    by (simp_all add: planes3_def plane_chan_def)
  have d: "width (plane_chan 4 4 10) * height (plane_chan 4 4 10) \<le> 16"
    "next_half (plane_chan 4 4 10) = None"
    by (simp_all add: plane_chan_def)
  show ?thesis using c lo sp p d by auto
qed

lemma compare_twins:
  assumes c0: "arr_get (chan oi) 0 = Some (Some o0)" "chans h o0 = Some oc0"
    and tw: "twin_chans (nat (num_scales attr)) h (width oc0 * height oc0) {}
        (insert (fresh h) (set_option (tmp attr))) (chan_pairs oi mi) = Some R"
    and nch: "1 \<le> min (channels oi) (channels mi)"
      "min (channels oi) (channels mi) \<le> int (length (chan oi))"
      "min (channels oi) (channels mi) \<le> int (length (chan mi))"
    and ns: "1 \<le> num_scales attr"
    and sw: "\<forall>s. 0 \<le> s \<and> s < num_scales attr \<longrightarrow> (\<exists>x. 0 < x \<and> arr_get (scale_weights attr) s = Some (Fin x))"
    and cw: "\<exists>x. 0 < x \<and> color_weight attr = Fin x"
    and tmp: "case tmp attr of None \<Rightarrow> True
      | Some b \<Rightarrow> if float_bytes (width oc0 * height oc0) \<le> tmp_size attr
                  then has_len h b (width oc0 * height oc0) else bufs h b \<noteq> None"
    and small: "width oc0 * height oc0 * 4 < 2 ^ 63"
  shows "\<exists>attr' h'. dssim_compare attr oi mi False h = Some (Fin 0, None, attr', h')"
proof -
  let ?N = "width oc0 * height oc0"
  let ?nch = "min (channels oi) (channels mi)"
  let ?B0 = "insert (fresh h) (set_option (tmp attr))"
  let ?ps = "take (nat ?nch) (zip (chan oi) (chan mi))"
  have tw': "twin_chans (nat (num_scales attr)) h ?N {} ?B0 ?ps = Some R"
    using tw by (simp add: chan_pairs_def)
  \<comment> \<open>the first channel is at least 4 by 4\<close>
  have n0: "0 \<le> ?N"
  proof -
    have l: "0 < length (chan oi)" "0 < length (chan mi)" "0 < nat ?nch" using nch by linarith+
    then obtain a as b bs where e: "chan oi = a # as" "chan mi = b # bs"
      by (cases "chan oi"; cases "chan mi") auto
    obtain n' where n': "nat ?nch = Suc n'" using l(3) by (cases "nat ?nch") auto
    obtain k where k: "nat (num_scales attr) = Suc k" using ns by (cases "nat (num_scales attr)") auto
    have a: "a = Some o0" using c0(1) e by (simp add: arr_get_def)
    have ps: "?ps = (Some o0, b) # take n' (zip as bs)" unfolding n' e a by simp
    from tw' obtain R1 where "twins (Suc k) h ?N {} ?B0 (Some o0) b = Some R1"
      unfolding ps k by (auto split: option.splits)
    then obtain oa oc where "Some o0 = Some oa" "chans h oa = Some oc" "level_ok h oc"
      by (rule twins_SucD)
    then have "level_ok h oc0" using c0(2) by simp
    then have "4 \<le> width oc0" "4 \<le> height oc0" by (auto elim: level_okD)
    then show ?thesis by simp
  qed
  from dssim_get_tmp_block [OF n0 small tmp] obtain t attr1 h1 where
    g: "dssim_get_tmp attr (float_bytes ?N) h = Some (Some t, attr1, h1)"
    and t: "t \<in> ?B0" "has_len h1 t ?N"
    and ch: "changed_in {} ?B0 h h1"
    and a1: "scale_weights attr1 = scale_weights attr" "num_scales attr1 = num_scales attr"
      "color_weight attr1 = color_weight attr"
    by blast
  have tw1: "twin_chans (nat (num_scales attr1)) h1 ?N {} ?B0 ?ps = Some R"
    unfolding a1 using tw' ch by (rule twin_chans_preserved)
  have sw1: "\<forall>s. 0 \<le> s \<and> s < num_scales attr1 \<longrightarrow>
      (\<exists>x. 0 < x \<and> arr_get (scale_weights attr1) s = Some (Fin x))"
    unfolding a1 by (rule sw)
  have cw1: "\<exists>x. 0 < x \<and> color_weight attr1 = Fin x" unfolding a1 by (rule cw)
  have ns1: "1 \<le> num_scales attr1" unfolding a1 by (rule ns)
  from channel_loop_twins [OF sw1 cw1 ns1 nch(2,3) tw1 t] obtain y h2 where
    loop: "for_up 0 ?nch
      (\<lambda>ch st. do {
         original \<leftarrow> arr_get (chan oi) ch;
         modified \<leftarrow> arr_get (chan mi) ch;
         scale_loop attr1 (Some t, 0) False ch 0 original modified st
       })
      (Fin 0, Fin 0, None, h1) = Some (max 0 ?nch, (Fin y, Fin y, None, h2))"
    and y: "0 < ?nch \<longrightarrow> 0 < y"
    by blast
  have y0: "0 < y" using y nch(1) by simp
  have v: "Fin 1 / (Fin y / Fin y) - Fin 1 = Fin 0" using y0 by (simp add: minus_dbl_def)
  have "dssim_compare attr oi mi False h = Some (Fin 0, None, attr1, h2)"
    unfolding dssim_compare_def using c0 g loop v by (simp add: chan_at_def ptr_of_def)
  then show ?thesis by blast
qed

lemma heap_pair_twin_chans:
  "twin_chans (nat (num_scales attr_default)) heap_pair
      (width (plane_chan 4 4 10) * height (plane_chan 4 4 10)) {}
      (insert (fresh heap_pair) (set_option (tmp attr_default))) (chan_pairs (image_of 0) (image_of 1)) \<noteq> None"
  using heap_pair_twins [of 3]
  by (simp add: attr_default_def attr0_def plane_chan_def chan_pairs_def image_of_def heap_pair_def
      eval_nat_numeral)

lemma attr_default_weights:
  "\<forall>s. 0 \<le> s \<and> s < num_scales attr_default \<longrightarrow>
      (\<exists>x. 0 < x \<and> arr_get (scale_weights attr_default) s = Some (Fin x))"
proof (intro allI impI)
  fix s :: int
  assume "0 \<le> s \<and> s < num_scales attr_default"
  then have "0 \<le> s" "s < 4" by (simp_all add: attr_default_def attr0_def)
  then consider "s = 0" | "s = 1" | "s = 2" | "s = 3" by linarith
  then show "\<exists>x. 0 < x \<and> arr_get (scale_weights attr_default) s = Some (Fin x)"
  proof cases
    case 1
    then show ?thesis
      by (intro exI [of _ "448 / 8668"]) (simp add: attr_default_def attr0_def arr_get_def)
  next
    case 2
    then show ?thesis
      by (intro exI [of _ "2856 / 8668"]) (simp add: attr_default_def attr0_def arr_get_def)
  next
    case 3
    then show ?thesis
      by (intro exI [of _ "3001 / 8668"]) (simp add: attr_default_def attr0_def arr_get_def)
  next
    case 4
    then show ?thesis
      by (intro exI [of _ "2363 / 8668"]) (simp add: attr_default_def attr0_def arr_get_def)
  qed
qed

lemma attr_default_color: "\<exists>x. 0 < x \<and> color_weight attr_default = Fin x"
  by (intro exI [of _ "0.95"]) (simp add: attr_default_def attr0_def)

lemma heap_pair_compare:
  "\<exists>attr' h'. dssim_compare attr_default (image_of 0) (image_of 1) False heap_pair = Some (Fin 0, None, attr', h')"
proof -
  from heap_pair_twin_chans obtain R where
    tw: "twin_chans (nat (num_scales attr_default)) heap_pair
      (width (plane_chan 4 4 10) * height (plane_chan 4 4 10)) {}
      (insert (fresh heap_pair) (set_option (tmp attr_default))) (chan_pairs (image_of 0) (image_of 1)) = Some R"
    by blast
  show ?thesis
    by (rule compare_twins [of "image_of 0" 0 heap_pair "plane_chan 4 4 10" attr_default "image_of 1" R,
          OF _ _ tw _ _ _ _ attr_default_weights attr_default_color])
      (simp_all add: image_of_def heap_pair_def arr_get_def attr_default_def attr0_def plane_chan_def)
qed

text \<open>
  C5, as the code has it. Two images whose channels are twin pyramids: channel by channel
  and level by level the same dimensions, at least 4 by 4, the same finite pixels, and for
  each the means and the blurred squares that \<^verbatim>\<open>dssim_preprocess_channel\<close> computes, every
  plane in a block of its own, apart from the scratch block. With at least one scale and
  one channel, positive weights, and the scratch block of the bundle either large enough
  for the first channel or to be allocated, \<^verbatim>\<open>dssim_compare\<close> without a map returns 0:
  every pixel has the index 1, so the two sums are the same positive number \<open>y\<close>, and
  \<open>1 / (y / y) - 1 = 0\<close>.
\<close>

theorem compare_clone_is_zero:
  assumes "arr_get (chan original_image) 0 = Some (Some o0)" and "chans h o0 = Some oc0"
    and "twin_chans (nat (num_scales attr)) h (width oc0 * height oc0) {}
        (insert (fresh h) (set_option (tmp attr))) (chan_pairs original_image modified_image) \<noteq> None"
    and "1 \<le> min (channels original_image) (channels modified_image)"
    and "min (channels original_image) (channels modified_image) \<le> int (length (chan original_image))"
    and "min (channels original_image) (channels modified_image) \<le> int (length (chan modified_image))"
    and "1 \<le> num_scales attr"
    and "\<forall>s. 0 \<le> s \<and> s < num_scales attr \<longrightarrow> (\<exists>x. 0 < x \<and> arr_get (scale_weights attr) s = Some (Fin x))"
    and "\<exists>x. 0 < x \<and> color_weight attr = Fin x"
    and "case tmp attr of None \<Rightarrow> True
      | Some b \<Rightarrow> if float_bytes (width oc0 * height oc0) \<le> tmp_size attr
                  then has_len h b (width oc0 * height oc0) else bufs h b \<noteq> None"
    and "width oc0 * height oc0 * 4 < 2 ^ 63"
  shows "\<exists>attr' h'. dssim_compare attr original_image modified_image False h = Some (Fin 0, None, attr', h')"
proof -
  from assms(3) obtain R where
    "twin_chans (nat (num_scales attr)) h (width oc0 * height oc0) {}
        (insert (fresh h) (set_option (tmp attr))) (chan_pairs original_image modified_image) = Some R"
    by blast
  from compare_twins [OF assms(1,2) this assms(4-11)] show ?thesis .
qed

theorem compare_clone_is_zero_witness:
  "\<exists>attr' h'. dssim_compare attr_default (image_of 0) (image_of 1) False heap_pair = Some (Fin 0, None, attr', h')"
  by (rule compare_clone_is_zero [of "image_of 0" 0 heap_pair "plane_chan 4 4 10" attr_default "image_of 1",
        OF _ _ heap_pair_twin_chans _ _ _ _ attr_default_weights attr_default_color])
    (simp_all add: image_of_def heap_pair_def arr_get_def attr_default_def attr0_def plane_chan_def)

text \<open>
  Claim C5 as written fails for a bundle of no scales, which \<^verbatim>\<open>dssim_set_scales\<close> accepts:
  no sub-measure is compared, both sums stay 0, and a 4 by 4 image against its clone gives
  \<open>1 / (0 / 0) - 1\<close>, which is not a number.
\<close>

theorem clone_no_scales_counterexample:
  "Option.bind (dssim_set_scales attr_default 0 None)
     (\<lambda>attr. map_option fst (dssim_compare attr (image_of 0) (image_of 1) False heap_pair)) = Some NaN"
proof -
  have a: "dssim_set_scales attr_default 0 None = Some (attr_default\<lparr>num_scales := 0\<rparr>)"
    by (simp add: dssim_set_scales_def Let_def MAX_SCALES_def for_up_done)
  have m: "malloc (float_bytes (4 * 4)) heap_pair =
      (Some 40, heap_pair\<lparr>bufs := (bufs heap_pair)(40 \<mapsto> map (junk heap_pair 40) [0..<nat (4 * 4)]),
         fresh := 41\<rparr>)"
    using malloc_spec [of "4 * 4" heap_pair] by (simp add: heap_pair_def)
  have t: "tmp (attr_default\<lparr>num_scales := 0\<rparr>) = None" by (simp add: attr_default_def attr0_def)
  have c: "chans heap_pair 0 = Some (plane_chan 4 4 10)" by (simp add: heap_pair_def)
  have "map_option fst (dssim_compare (attr_default\<lparr>num_scales := 0\<rparr>) (image_of 0) (image_of 1) False heap_pair) =
      Some NaN"
    using m t c
    by (simp add: dssim_compare_def dssim_get_tmp_def image_of_def arr_get_def chan_at_def plane_chan_def
        for_up_step for_up_done scale_loop_exit minus_dbl_def)
  then show ?thesis using a by simp
qed

text \<open>
  The original of a comparison that runs through: two 4 by 4 images under the default
  bundle.
\<close>

theorem compare_leaves_original_witness:
  "\<exists>v mo attr' h'.
     dssim_compare attr_default (image_of 0) (image_of 1) False heap_pair = Some (v, mo, attr', h') \<and>
     region_closed {1} {20, 21, 22} heap_pair \<and>
     region_closed {0} {10, 11, 12} heap_pair \<and>
     image_snapshot 5 h' (image_of 0) = image_snapshot 5 heap_pair (image_of 0)"
proof -
  from heap_pair_compare obtain attr' h' where
    r: "dssim_compare attr_default (image_of 0) (image_of 1) False heap_pair = Some (Fin 0, None, attr', h')"
    by blast
  have m: "region_closed {1} {20, 21, 22} heap_pair"
    by (simp add: region_closed_def heap_pair_def plane_chan_def)
  have o: "region_closed {0} {10, 11, 12} heap_pair"
    by (simp add: region_closed_def heap_pair_def plane_chan_def)
  have "image_snapshot 5 h' (image_of 0) = image_snapshot 5 heap_pair (image_of 0)"
    using compare_leaves_original [OF r m _ _ o, of 5]
    by (simp add: image_of_def attr_default_def attr0_def heap_pair_def)
  then show ?thesis using r m o by blast
qed

section \<open>The range of the colour conversion\<close>

text \<open>
  \<^verbatim>\<open>rgb_to_lab\<close> over the real numbers. The three sums \<^verbatim>\<open>fx\<close>, \<^verbatim>\<open>fy\<close>, \<^verbatim>\<open>fz\<close> of table values
  between 0 and 1 lie between 0 and 1, and the two chroma values are in range when the
  difference of two values of the curve \<open>lab_f\<close> is: a difference of two cube roots \<open>p - q\<close>,
  which is bounded through the cubes. The sums obey two linear inequalities, \<open>c * p\<^sup>3 \<le> q\<^sup>3\<close>
  (the ratio of the two sums is least at one primary colour) and \<open>e + s * p\<^sup>3 \<le> q\<^sup>3\<close> (the
  next edge of the gamut); the first settles every \<open>p\<close> up to a point \<open>p0\<close>, the second the
  rest.
\<close>

lemma cube_powr:
  fixes t :: real
  assumes "0 < t"
  shows "0 < t powr (1 / 3)" "(t powr (1 / 3)) ^ 3 = t"
proof -
  show "0 < t powr (1 / 3)" using assms by simp
  have "(t powr (1 / 3)) ^ 3 = (t powr (1 / 3)) powr (real 3)"
    using assms by (simp only: powr_realpow [OF \<open>0 < t powr (1 / 3)\<close>])
  also have "\<dots> = t powr ((1 / 3) * real 3)" by (simp only: powr_powr)
  also have "\<dots> = t" using assms by simp
  finally show "(t powr (1 / 3)) ^ 3 = t" .
qed

lemma cube_gap:
  fixes p q :: real
  assumes p: "0 \<le> p" "p \<le> 1" and q: "0 \<le> q"
    and d: "0 < d" "d < p0"
    and c: "(1 - d / p0) ^ 3 \<le> c"
    and l1: "c * p ^ 3 \<le> q ^ 3"
    and l2: "e + s * p ^ 3 \<le> q ^ 3"
    and poly: "\<And>p. p0 \<le> p \<Longrightarrow> p \<le> 1 \<Longrightarrow> (p - d) ^ 3 \<le> e + s * p ^ 3"
  shows "p - q \<le> d"
proof (cases "p \<le> d")
  case True
  then show ?thesis using q by simp
next
  case False
  then have pd: "0 \<le> p - d" by simp
  have "(p - d) ^ 3 \<le> q ^ 3"
  proof (cases "p \<le> p0")
    case True
    have p0: "0 < p0" using d by simp
    have "d / p0 * p \<le> d / p0 * p0" using True d p0 by (intro mult_left_mono) simp_all
    then have "d / p0 * p \<le> d" using p0 by simp
    then have le: "p - d \<le> (1 - d / p0) * p" by (simp add: algebra_simps)
    have "(p - d) ^ 3 \<le> ((1 - d / p0) * p) ^ 3" by (rule power_mono [OF le pd])
    also have "\<dots> = (1 - d / p0) ^ 3 * p ^ 3" by (simp add: power_mult_distrib)
    also have "\<dots> \<le> c * p ^ 3" using c p by (intro mult_right_mono) simp_all
    also have "\<dots> \<le> q ^ 3" by (rule l1)
    finally show ?thesis .
  next
    case False
    then have "(p - d) ^ 3 \<le> e + s * p ^ 3" using poly [of p] p by simp
    then show ?thesis using l2 by simp
  qed
  then have "p - d \<le> q" using q power_le_imp_le_base [of "p - d" 2 q] by (simp add: numeral_3_eq_3)
  then show ?thesis by simp
qed

lemma poly_tight:
  fixes p :: real
  assumes "1 \<le> s" "0 \<le> d" "d \<le> p0" "p0 \<le> p" "(p0 - d) ^ 3 \<le> e + s * p0 ^ 3"
  shows "(p - d) ^ 3 \<le> e + s * p ^ 3"
proof -
  have id: "p ^ 3 - p0 ^ 3 - ((p - d) ^ 3 - (p0 - d) ^ 3) = 3 * d * ((p - p0) * (p + p0 - d))"
    by (simp add: power3_eq_cube algebra_simps)
  have "0 \<le> (p - p0) * (p + p0 - d)" using assms by (intro mult_nonneg_nonneg) simp_all
  moreover have "0 \<le> 3 * d" using assms(2) by simp
  ultimately have "0 \<le> 3 * d * ((p - p0) * (p + p0 - d))" by (rule mult_nonneg_nonneg [rotated])
  then have a: "(p - d) ^ 3 - (p0 - d) ^ 3 \<le> p ^ 3 - p0 ^ 3" using id by linarith
  have p0: "0 \<le> p0" using assms by simp
  have "p0 ^ 3 \<le> p ^ 3" by (rule power_mono [OF assms(4) p0])
  then have "0 \<le> (s - 1) * (p ^ 3 - p0 ^ 3)" using assms(1) by (intro mult_nonneg_nonneg) simp_all
  then have b: "p ^ 3 - p0 ^ 3 \<le> s * (p ^ 3 - p0 ^ 3)" by (simp add: algebra_simps)
  have "s * (p ^ 3 - p0 ^ 3) = s * p ^ 3 - s * p0 ^ 3" by (simp add: algebra_simps)
  then show ?thesis using a b assms(5) by linarith
qed

lemma poly_crude:
  fixes p :: real
  assumes "0 \<le> s" "d \<le> p0" "p0 \<le> p" "p \<le> 1" "0 \<le> p0" "(1 - d) ^ 3 \<le> e + s * p0 ^ 3"
  shows "(p - d) ^ 3 \<le> e + s * p ^ 3"
proof -
  have "(p - d) ^ 3 \<le> (1 - d) ^ 3" by (rule power_mono) (use assms in simp_all)
  moreover have "p0 ^ 3 \<le> p ^ 3" by (rule power_mono [OF assms(3,5)])
  then have "s * p0 ^ 3 \<le> s * p ^ 3" using assms(1) by (intro mult_left_mono) simp_all
  ultimately show ?thesis using assms(6) by linarith
qed

lemma lab_f_facts:
  fixes t :: real
  assumes "0 \<le> t"
  shows "\<exists>u. 0 \<le> u \<and> u ^ 3 = t \<and> 0 \<le> lab_f t \<and> u - 4 / 29 \<le> lab_f t \<and>
    (lab_f t \<le> 2 / 29 \<or> lab_f t = u - 4 / 29)"
proof -
  obtain u where u: "0 \<le> u" "u ^ 3 = t" "0 < t \<Longrightarrow> u = t powr (1 / 3)"
  proof (cases "t = 0")
    case True
    then show ?thesis using that [of 0] by simp
  next
    case False
    then have "0 < t" using assms by simp
    then show ?thesis using that [of "t powr (1 / 3)"] cube_powr [of t] by simp
  qed
  show ?thesis
  proof (cases "216 / 24389 < t")
    case True
    then have pos: "0 < t" by simp
    have f: "lab_f t = u - 4 / 29" using True u(3) [OF pos] by (simp add: lab_f_def)
    have "(6 / 29) ^ 3 < u ^ 3" using True u(2) by (simp add: power3_eq_cube)
    then have "6 / 29 < u" using u(1) power_less_imp_less_base [of "6 / 29" 3 u] by simp
    then show ?thesis using f u by (intro exI [of _ u]) simp
  next
    case False
    then have f: "lab_f t = 24389 / 27 / 116 * u ^ 3" using u(2) by (simp add: lab_f_def)
    have id: "24389 / 27 / 116 * u ^ 3 - u + 4 / 29 = 841 / 108 * ((u - 6 / 29) ^ 2 * (u + 12 / 29))"
      by (simp add: power2_eq_square power3_eq_cube field_simps)
    have "0 \<le> (u - 6 / 29) ^ 2 * (u + 12 / 29)" using u(1) by (intro mult_nonneg_nonneg) simp_all
    then have low: "u - 4 / 29 \<le> lab_f t" using id f by simp
    have "lab_f t \<le> 24389 / 27 / 116 * (216 / 24389)" using False u(2) f by simp
    then have up: "lab_f t \<le> 2 / 29" by simp
    have "0 \<le> 24389 / 27 / 116 * u ^ 3" using u(1) by (intro mult_nonneg_nonneg) simp_all
    then have "0 \<le> lab_f t" by (simp only: f)
    then show ?thesis using low up u by (intro exI [of _ u]) simp
  qed
qed

lemma lab_f_gap:
  fixes P Q :: real
  assumes P: "0 \<le> P" "P \<le> 1" and Q: "0 \<le> Q"
    and d: "2 / 29 \<le> d" "d < p0"
    and c: "(1 - d / p0) ^ 3 \<le> c"
    and l1: "c * P \<le> Q" and l2: "e + s * P \<le> Q"
    and poly: "\<And>p. p0 \<le> p \<Longrightarrow> p \<le> 1 \<Longrightarrow> (p - d) ^ 3 \<le> e + s * p ^ 3"
  shows "lab_f P - lab_f Q \<le> d"
proof -
  from lab_f_facts [OF P(1)] obtain u where
    u: "0 \<le> u" "u ^ 3 = P" "lab_f P \<le> 2 / 29 \<or> lab_f P = u - 4 / 29" by blast
  from lab_f_facts [OF Q] obtain v where
    v: "0 \<le> v" "v ^ 3 = Q" "0 \<le> lab_f Q" "v - 4 / 29 \<le> lab_f Q" by blast
  from u(3) show ?thesis
  proof
    assume "lab_f P \<le> 2 / 29"
    then show ?thesis using v(3) d(1) by linarith
  next
    assume f: "lab_f P = u - 4 / 29"
    have "u ^ 3 \<le> 1 ^ 3" using u(2) P(2) by simp
    then have u1: "u \<le> 1" using power_le_imp_le_base [of u 2 1] by (simp add: numeral_3_eq_3)
    have d0: "0 < d" using d(1) by simp
    have "u - v \<le> d"
      by (rule cube_gap [OF u(1) u1 v(1) d0 d(2) c _ _ poly]) (use l1 l2 u(2) v(2) in simp_all)
    then show ?thesis using f v(4) by linarith
  qed
qed

lemma lab_f_unit:
  fixes t :: real
  assumes "0 \<le> t" "t \<le> 1"
  shows "0 \<le> lab_f t" "lab_f t \<le> 25 / 29"
proof -
  from lab_f_facts [OF assms(1)] obtain u where
    u: "0 \<le> u" "u ^ 3 = t" "0 \<le> lab_f t" "lab_f t \<le> 2 / 29 \<or> lab_f t = u - 4 / 29" by blast
  show "0 \<le> lab_f t" by (rule u(3))
  have "u ^ 3 \<le> 1 ^ 3" using u(2) assms(2) by simp
  then have u1: "u \<le> 1" using power_le_imp_le_base [of u 2 1] by (simp add: numeral_3_eq_3)
  from u(4) show "lab_f t \<le> 25 / 29" using u1 by auto
qed

lemma lab_range:
  fixes r g b :: real
  assumes r: "0 \<le> r" "r \<le> 1" and g: "0 \<le> g" "g \<le> 1" and b: "0 \<le> b" "b \<le> 1"
  defines "x \<equiv> (r * 0.4124 + g * 0.3576 + b * 0.1805) / 0.9505"
    and "y \<equiv> (r * 0.2126 + g * 0.7152 + b * 0.0722) / 1.0"
    and "z \<equiv> (r * 0.0193 + g * 0.1192 + b * 0.9505) / 1.089"
  shows "0 \<le> lab_f y * 1.16" "lab_f y * 1.16 \<le> 1"
    "0 \<le> 86.2 / 220.0 + 500.0 / 220.0 * (lab_f x - lab_f y)"
    "86.2 / 220.0 + 500.0 / 220.0 * (lab_f x - lab_f y) \<le> 1"
    "0 \<le> 107.9 / 220.0 + 200.0 / 220.0 * (lab_f y - lab_f z)"
    "107.9 / 220.0 + 200.0 / 220.0 * (lab_f y - lab_f z) \<le> 1"
proof -
  have x: "0 \<le> x" "x \<le> 1" and y: "0 \<le> y" "y \<le> 1" and z: "0 \<le> z" "z \<le> 1"
    using r g b unfolding x_def y_def z_def by simp_all
  have ly: "0 \<le> lab_f y" "lab_f y \<le> 25 / 29" by (rule lab_f_unit [OF y])+
  show "0 \<le> lab_f y * 1.16" using ly(1) by simp
  show "lab_f y * 1.16 \<le> 1" using ly(2) by simp
  \<comment> \<open>the first chroma, from below: green\<close>
  have g1: "lab_f y - lab_f x \<le> 0.1724"
  proof (rule lab_f_gap [OF y x(1), where ?p0.0 = "0.8943" and c = "1000 / 1901"
        and s = "4124000 / 2020763" and e = "- 10946136 / 10103815"])
    show "1000 / 1901 * y \<le> x" using r g b unfolding x_def y_def by simp
    show "- 10946136 / 10103815 + 4124000 / 2020763 * y \<le> x" using r g b unfolding x_def y_def by (simp add: field_simps)
    show "(p - 0.1724) ^ 3 \<le> - 10946136 / 10103815 + 4124000 / 2020763 * p ^ 3"
      if "0.8943 \<le> p" "p \<le> 1" for p :: real
      by (rule poly_tight [where ?p0.0 = "0.8943"]) (use that in \<open>simp_all add: power3_eq_cube\<close>)
  qed (simp_all add: power3_eq_cube)
  show "0 \<le> 86.2 / 220.0 + 500.0 / 220.0 * (lab_f x - lab_f y)" using g1 by (simp add: field_simps)
  \<comment> \<open>the first chroma, from above: blue\<close>
  have g2: "lab_f x - lab_f y \<le> 0.2676"
  proof (rule lab_f_gap [OF x y(1), where ?p0.0 = "0.97" and c = "1901 / 5000"
        and s = "2020763 / 4124000" and e = "- 429951 / 20620000"])
    show "1901 / 5000 * x \<le> y" using r g b unfolding x_def y_def by simp
    show "- 429951 / 20620000 + 2020763 / 4124000 * x \<le> y" using r g b unfolding x_def y_def by (simp add: field_simps)
    show "(p - 0.2676) ^ 3 \<le> - 429951 / 20620000 + 2020763 / 4124000 * p ^ 3"
      if "0.97 \<le> p" "p \<le> 1" for p :: real
      by (rule poly_crude [where ?p0.0 = "0.97"]) (use that in \<open>simp_all add: power3_eq_cube\<close>)
  qed (simp_all add: power3_eq_cube)
  show "86.2 / 220.0 + 500.0 / 220.0 * (lab_f x - lab_f y) \<le> 1" using g2 by (simp add: field_simps)
  \<comment> \<open>the second chroma, from below: blue\<close>
  have g3: "lab_f z - lab_f y \<le> 0.5395"
  proof (rule lab_f_gap [OF z y(1), where ?p0.0 = "0.956" and c = "393129 / 4752500"
        and s = "3267 / 500" and e = "- 14077 / 2500"])
    show "393129 / 4752500 * z \<le> y" using r g b unfolding z_def y_def by simp
    show "- 14077 / 2500 + 3267 / 500 * z \<le> y" using r g b unfolding z_def y_def by (simp add: field_simps)
    show "(p - 0.5395) ^ 3 \<le> - 14077 / 2500 + 3267 / 500 * p ^ 3"
      if "0.956 \<le> p" "p \<le> 1" for p :: real
      by (rule poly_tight [where ?p0.0 = "0.956"]) (use that in \<open>simp_all add: power3_eq_cube\<close>)
  qed (simp_all add: power3_eq_cube)
  show "0 \<le> 107.9 / 220.0 + 200.0 / 220.0 * (lab_f y - lab_f z)" using g3 by (simp add: field_simps)
  \<comment> \<open>the second chroma, from above: red\<close>
  have g4: "lab_f y - lab_f z \<le> 0.5605"
  proof (rule lab_f_gap [OF y z(1), where ?p0.0 = "0.995" and c = "96500 / 1157607"
        and s = "500 / 3267" and e = "- 2 / 135"])
    show "96500 / 1157607 * y \<le> z" using r g b unfolding z_def y_def by simp
    show "- 2 / 135 + 500 / 3267 * y \<le> z" using r g b unfolding z_def y_def by (simp add: field_simps)
    show "(p - 0.5605) ^ 3 \<le> - 2 / 135 + 500 / 3267 * p ^ 3"
      if "0.995 \<le> p" "p \<le> 1" for p :: real
      by (rule poly_crude [where ?p0.0 = "0.995"]) (use that in \<open>simp_all add: power3_eq_cube\<close>)
  qed (simp_all add: power3_eq_cube)
  show "107.9 / 220.0 + 200.0 / 220.0 * (lab_f y - lab_f z) \<le> 1" using g4 by (simp add: field_simps)
qed

lemma set_gamma_values:
  assumes "length lut0 = 256"
  shows "\<exists>lut. set_gamma pw lut0 g = Some lut \<and> length lut = 256 \<and>
    (\<forall>i. 0 \<le> i \<and> i < 256 \<longrightarrow> lut ! nat i = pw (of_i i / Fin 255.0) (Fin 1.0 / g))"
proof -
  let ?F = "\<lambda>i. pw (of_i i / Fin 255.0) (Fin 1.0 / g)"
  let ?body = "\<lambda>i t. arr_set t i (?F i)"
  let ?P = "\<lambda>j t. length t = 256 \<and> (\<forall>i. 0 \<le> i \<and> i < j \<longrightarrow> t ! nat i = ?F i)"
  have "\<exists>t. for_up 0 256 ?body lut0 = Some (max 0 256, t) \<and> ?P (max 0 256) t"
  proof (rule for_up_total_idx [where P = ?P])
    show "?P 0 lut0" using assms by auto
  next
    fix j :: int and u
    assume j: "0 \<le> j" "j < 256" and u: "?P j u"
    have s: "?body j u = Some (u[nat j := ?F j])" using j u by (simp add: arr_set_def)
    have "(u[nat j := ?F j]) ! nat i = ?F i" if "0 \<le> i \<and> i < j + 1" for i
    proof (cases "i = j")
      case True
      then show ?thesis using j u by simp
    next
      case False
      then have "nat i \<noteq> nat j" "i < j" using that j by auto
      then show ?thesis using u that by simp
    qed
    then show "\<exists>v. ?body j u = Some v \<and> ?P (j + 1) v" using s u by simp
  qed
  then show ?thesis by (auto simp: set_gamma_def)
qed

lemma ideal_gamma_entry:
  assumes "0 < gamma" "0 \<le> i" "i < 256"
  shows "\<exists>v. ideal_pow (of_i i / Fin 255.0) (Fin 1.0 / Fin gamma) = Fin v \<and> 0 \<le> v \<and> v \<le> 1"
proof -
  let ?x = "real_of_int i / 255"
  have b: "of_i i / Fin 255.0 = Fin ?x" by (simp add: of_i_def)
  have e: "Fin 1.0 / Fin gamma = Fin (1 / gamma)" using assms(1) by simp
  have e0: "0 < 1 / gamma" using assms(1) by simp
  have x: "0 \<le> ?x" "?x \<le> 1" using assms by simp_all
  show ?thesis
  proof (cases "0 < ?x")
    case True
    have "?x powr (1 / gamma) \<le> 1" by (rule powr_le1) (use e0 x in simp_all)
    then show ?thesis using True e0 unfolding b e by (simp add: ideal_pow_def)
  next
    case False
    then have "?x = 0" using x by linarith
    then show ?thesis using e0 unfolding b e by (simp add: ideal_pow_def)
  qed
qed

lemma lab_branch:
  assumes "0 \<le> t"
  shows "(if dgt (Fin t) (Fin 216.0 / Fin 24389.0) then ideal_pow (Fin t) (Fin 1 / Fin 3) - Fin 16 / Fin 116
          else (Fin 24389.0 / Fin 27.0) / Fin 116 * Fin t) = Fin (lab_f t)"
  using assms by (simp add: ideal_pow_def lab_f_def minus_dbl_def)

lemma rgb_to_lab_ideal:
  assumes lut: "arr_get lut (uint pr) = Some (Fin r)" "arr_get lut (uint pg) = Some (Fin g)"
      "arr_get lut (uint pb) = Some (Fin b)"
    and r: "0 \<le> r" "r \<le> 1" and g: "0 \<le> g" "g \<le> 1" and b: "0 \<le> b" "b \<le> 1"
  shows "\<exists>l A B. rgb_to_lab ideal_pow lut pr pg pb = Some \<lparr>lab_l = Fin l, lab_A = Fin A, lab_b = Fin B\<rparr> \<and>
    0 \<le> l \<and> l \<le> 1 \<and> 0 \<le> A \<and> A \<le> 1 \<and> 0 \<le> B \<and> B \<le> 1"
proof -
  define x where "x = (r * 0.4124 + g * 0.3576 + b * 0.1805) / 0.9505"
  define y where "y = (r * 0.2126 + g * 0.7152 + b * 0.0722) / 1.0"
  define z where "z = (r * 0.0193 + g * 0.1192 + b * 0.9505) / 1.089"
  have fx: "(Fin r * Fin 0.4124 + Fin g * Fin 0.3576 + Fin b * Fin 0.1805) / D65x = Fin x"
    by (simp add: x_def D65x_def)
  have fy: "(Fin r * Fin 0.2126 + Fin g * Fin 0.7152 + Fin b * Fin 0.0722) / D65y = Fin y"
    by (simp add: y_def D65y_def)
  have fz: "(Fin r * Fin 0.0193 + Fin g * Fin 0.1192 + Fin b * Fin 0.9505) / D65z = Fin z"
    by (simp add: z_def D65z_def)
  have p: "0 \<le> x" "0 \<le> y" "0 \<le> z" using r g b by (simp_all add: x_def y_def z_def)
  have res: "rgb_to_lab ideal_pow lut pr pg pb =
      Some \<lparr>lab_l = Fin (lab_f y) * Fin 1.16,
            lab_A = Fin 86.2 / Fin 220.0 + Fin 500.0 / Fin 220.0 * (Fin (lab_f x) - Fin (lab_f y)),
            lab_b = Fin 107.9 / Fin 220.0 + Fin 200.0 / Fin 220.0 * (Fin (lab_f y) - Fin (lab_f z))\<rparr>"
    unfolding rgb_to_lab_def lut
    by (simp only: prod.case option.case Let_def fx fy fz lab_branch [OF p(1)] lab_branch [OF p(2)]
        lab_branch [OF p(3)])
  have v: "Fin (lab_f y) * Fin 1.16 = Fin (lab_f y * 1.16)"
    "Fin 86.2 / Fin 220.0 + Fin 500.0 / Fin 220.0 * (Fin (lab_f x) - Fin (lab_f y)) =
       Fin (86.2 / 220.0 + 500.0 / 220.0 * (lab_f x - lab_f y))"
    "Fin 107.9 / Fin 220.0 + Fin 200.0 / Fin 220.0 * (Fin (lab_f y) - Fin (lab_f z)) =
       Fin (107.9 / 220.0 + 200.0 / 220.0 * (lab_f y - lab_f z))"
    by (simp_all add: minus_dbl_def)
  note rg = lab_range [OF r g b, folded x_def y_def z_def]
  show ?thesis unfolding res v using rg by blast
qed

lemma dge_Fin: "dge (Fin a) (Fin b) = (b \<le> a)"
  by (auto simp: dge_def)

text \<open>
  Claim C8, over the real numbers: for every table that \<^verbatim>\<open>set_gamma\<close> builds for a gamma
  greater than zero, the sRGB gamma 0.45455 among them, and every triple of bytes,
  \<^verbatim>\<open>rgb_to_lab\<close> returns three finite numbers between 0 and 1, and \<^verbatim>\<open>convert_pixel_rgba\<close>
  passes its three assertions, whatever the alpha and the position of the pixel. \<^verbatim>\<open>pow\<close>
  and \<^verbatim>\<open>powf\<close> are the library functions without rounding, and the arithmetic is exact.
\<close>

theorem rgb_to_lab_in_unit_interval:
  assumes "length lut0 = 256" and "0 < gamma"
  shows "\<exists>lut l A B.
    set_gamma ideal_pow lut0 (Fin gamma) = Some lut \<and>
    rgb_to_lab ideal_pow lut pr pg pb = Some \<lparr>lab_l = Fin l, lab_A = Fin A, lab_b = Fin B\<rparr> \<and>
    0 \<le> l \<and> l \<le> 1 \<and> 0 \<le> A \<and> A \<le> 1 \<and> 0 \<le> B \<and> B \<le> 1 \<and>
    convert_pixel_rgba ideal_pow lut \<lparr>rgba_r = pr, rgba_g = pg, rgba_b = pb, rgba_a = pa\<rparr> i j \<noteq> None"
proof -
  from set_gamma_values [OF assms(1)] obtain lut where
    lut: "set_gamma ideal_pow lut0 (Fin gamma) = Some lut" "length lut = 256"
      "\<forall>i. 0 \<le> i \<and> i < 256 \<longrightarrow> lut ! nat i = ideal_pow (of_i i / Fin 255.0) (Fin 1.0 / Fin gamma)"
    by blast
  have entry: "\<exists>v. arr_get lut (uint p) = Some (Fin v) \<and> 0 \<le> v \<and> v \<le> 1" for p :: "8 word"
  proof -
    have u: "0 \<le> uint p" "uint p < 256" using uint_bounded [of p] by simp_all
    from ideal_gamma_entry [OF assms(2) u] obtain v where
      v: "ideal_pow (of_i (uint p) / Fin 255.0) (Fin 1.0 / Fin gamma) = Fin v" "0 \<le> v" "v \<le> 1" by blast
    have "lut ! nat (uint p) = ideal_pow (of_i (uint p) / Fin 255.0) (Fin 1.0 / Fin gamma)"
      using lut(3) [rule_format, of "uint p"] u by blast
    then have 1: "lut ! nat (uint p) = Fin v" by (simp only: v(1))
    have 2: "arr_get lut (uint p) = Some (lut ! nat (uint p))" using lut(2) u by (simp add: arr_get_def)
    show ?thesis using 1 2 v(2,3) by simp
  qed
  from entry [of pr] obtain r where r: "arr_get lut (uint pr) = Some (Fin r)" "0 \<le> r" "r \<le> 1" by blast
  from entry [of pg] obtain g where g: "arr_get lut (uint pg) = Some (Fin g)" "0 \<le> g" "g \<le> 1" by blast
  from entry [of pb] obtain b where b: "arr_get lut (uint pb) = Some (Fin b)" "0 \<le> b" "b \<le> 1" by blast
  from rgb_to_lab_ideal [OF r(1) g(1) b(1) r(2,3) g(2,3) b(2,3)] obtain l A B where
    lab: "rgb_to_lab ideal_pow lut pr pg pb = Some \<lparr>lab_l = Fin l, lab_A = Fin A, lab_b = Fin B\<rparr>"
    and rg: "0 \<le> l" "l \<le> 1" "0 \<le> A" "A \<le> 1" "0 \<le> B" "B \<le> 1"
    by blast
  have "convert_pixel_rgba ideal_pow lut \<lparr>rgba_r = pr, rgba_g = pg, rgba_b = pb, rgba_a = pa\<rparr> i j \<noteq> None"
    using lab rg by (simp add: convert_pixel_rgba_def c_assert_def dge_Fin Let_def)
  then show ?thesis using lut(1) lab rg by blast
qed

theorem rgb_to_lab_in_unit_interval_witness:
  "length (replicate 256 (Fin 0)) = 256 \<and> (0::real) < 0.45455 \<and>
   (\<exists>lut l A B.
      set_gamma ideal_pow (replicate 256 (Fin 0)) (Fin 0.45455) = Some lut \<and>
      rgb_to_lab ideal_pow lut 255 255 255 = Some \<lparr>lab_l = Fin l, lab_A = Fin A, lab_b = Fin B\<rparr> \<and>
      0 \<le> l \<and> l \<le> 1 \<and> 0 \<le> A \<and> A \<le> 1 \<and> 0 \<le> B \<and> B \<le> 1 \<and>
      convert_pixel_rgba ideal_pow lut \<lparr>rgba_r = 255, rgba_g = 255, rgba_b = 255, rgba_a = 128\<rparr> 4 0 \<noteq> None)"
  using rgb_to_lab_in_unit_interval [of "replicate 256 (Fin 0)" "0.45455" 255 255 255 128 4 0]
  by simp

end
